(* ===== verification/Prelude.thy ===== *)
theory Prelude
  imports
    Main
    "HOL-Library.Word"
    "HOL-Library.Monad_Syntax"
    "HOL-Library.Char_ord"
    "HOL-Library.List_Lexorder"
    "HOL-Library.Signed_Division"
begin

text \<open>
  Shared ground of the development: the types that stand for Go's machine integers, the
  run-time behaviour of Go's slices and strings, the error values of the two packages, and
  the list lemmas that the component theories rely on.

  A Go function that can panic (an index out of range, a nil dereference) is modelled by a
  function into an option type in which \<^term>\<open>None\<close> is the panic. Bytes of a Go string are
  the characters of a HOL string.
\<close>

section \<open>Machine integers\<close>

type_synonym u8 = "8 word"
type_synonym u16 = "16 word"
type_synonym u32 = "32 word"
type_synonym u64 = "64 word"

section \<open>Collections of facts\<close>

named_theorems go_simps \<open>run-time operations of Go: slicing and indexing\<close>
named_theorems loop_specs \<open>what a loop of the source computes\<close>

section \<open>Slices and strings\<close>

text \<open>The element \<open>xs[i]\<close>; an index out of range panics.\<close>

definition at :: "'a list \<Rightarrow> int \<Rightarrow> 'a option" where
  "at xs i = (if 0 \<le> i \<and> i < int (length xs) then Some (xs ! nat i) else None)"

text \<open>The slice \<open>s[i:]\<close>; a bound outside \<open>0..len(s)\<close> panics.\<close>

definition slice_from :: "'a list \<Rightarrow> int \<Rightarrow> 'a list option" where
  "slice_from s i = (if 0 \<le> i \<and> i \<le> int (length s) then Some (drop (nat i) s) else None)"

lemma at_Some_iff: "at xs i = Some x \<longleftrightarrow> 0 \<le> i \<and> i < int (length xs) \<and> x = xs ! nat i"
  by (auto simp: at_def)

lemma at_None_iff: "at xs i = None \<longleftrightarrow> i < 0 \<or> int (length xs) \<le> i"
  by (auto simp: at_def)

lemma at_int [go_simps]: "n < length xs \<Longrightarrow> at xs (int n) = Some (xs ! n)"
  by (simp add: at_def)

lemma slice_from_Some_iff:
  "slice_from s i = Some t \<longleftrightarrow> 0 \<le> i \<and> i \<le> int (length s) \<and> t = drop (nat i) s"
  by (auto simp: slice_from_def)

lemma slice_from_in [go_simps]:
  "0 \<le> i \<Longrightarrow> i \<le> int (length s) \<Longrightarrow> slice_from s i = Some (drop (nat i) s)"
  by (simp add: slice_from_def)

lemma slice_from_0 [simp]: "slice_from s 0 = Some s"
  by (simp add: slice_from_def)

text \<open>The first element of a slice, as in \<open>xs[0]\<close>.\<close>

lemma at_0_Cons [simp]: "at (x # xs) 0 = Some x"
  by (simp add: at_def)

lemma at_0_Nil [simp]: "at [] i = None"
  by (simp add: at_def)

text \<open>ASCII lower case of one byte, as \<open>strings.EqualFold\<close> and \<open>strings.ToLower\<close> use it.\<close>

definition to_lower :: "char \<Rightarrow> char" where
  "to_lower c =
     (let n = of_char c :: nat in if 65 \<le> n \<and> n \<le> 90 then char_of (n + 32) else c)"

section \<open>Loops that take a minimum\<close>

text \<open>
  Several loops of the program lower a bound by a value of each record of a section:
  \<open>for _, rr := range rrs { ttl = min(ttl, rr.Header().Ttl) }\<close>.
\<close>

definition min_over :: "('a \<Rightarrow> 'b::linorder) \<Rightarrow> 'b \<Rightarrow> 'a list \<Rightarrow> 'b" where
  "min_over f b xs = foldl (\<lambda>t x. min t (f x)) b xs"

lemma min_over_Nil [simp]: "min_over f b [] = b"
  by (simp add: min_over_def)

lemma min_over_Cons [simp]: "min_over f b (x # xs) = min_over f (min b (f x)) xs"
  by (simp add: min_over_def)

lemma min_over_append: "min_over f b (xs @ ys) = min_over f (min_over f b xs) ys"
  by (simp add: min_over_def)

lemma le_min_over_iff [loop_specs]:
  "c \<le> min_over f b xs \<longleftrightarrow> c \<le> b \<and> (\<forall>x \<in> set xs. c \<le> f x)"
  by (induction xs arbitrary: b) auto

lemma min_over_le_init: "min_over f b xs \<le> b"
  using le_min_over_iff [of "min_over f b xs" f b xs] by simp

lemma min_over_le_elem: "x \<in> set xs \<Longrightarrow> min_over f b xs \<le> f x"
  using le_min_over_iff [of "min_over f b xs" f b xs] by simp

lemma min_over_attained: "min_over f b xs = b \<or> (\<exists>x \<in> set xs. min_over f b xs = f x)"
proof (induction xs arbitrary: b)
  case Nil
  then show ?case by simp
next
  case (Cons x xs)
  from Cons.IH [of "min b (f x)"] show ?case
    by (auto simp: min_def split: if_splits)
qed

text \<open>Two elements of an order with the same lower bounds are equal.\<close>

lemma eq_by_lower_bounds: "(\<And>c. c \<le> x \<longleftrightarrow> c \<le> y) \<Longrightarrow> x = (y :: 'a::order)"
  by (metis order_antisym order_refl)

lemma min_over_Min: "min_over f b xs = Min (insert b (f ` set xs))"
proof (induction xs arbitrary: b)
  case (Cons x xs)
  have "insert b (f ` set (x # xs)) = insert b (insert (f x) (f ` set xs))" by auto
  with Cons.IH [of "min b (f x)"] show ?case
    by (cases "xs = []") (simp_all add: ac_simps)
qed simp

section \<open>Errors of the two packages\<close>

text \<open>The sentinel values of \<open>errors.go\<close>.\<close>

datatype resolver_err =
    ErrNotRecursionDesired
  | ErrNilMessageSentToExchange
  | ErrNoPoolConfiguredForZone
  | ErrFailedToGetDNSKEYs
  | ErrFailedCreatingZoneAndPool
  | ErrFailedEnrichingPool
  | ErrUnableToResolveAnswer
  | ErrNextNameserversNotFound
  | ErrEmptyResponse
  | ErrInternalError
  | ErrMaxQueriesPerRequestReached

text \<open>The sentinel values of \<open>dnssec/errors.go\<close>.\<close>

datatype dnssec_err =
    ErrNoParentDSRecords
  | ErrUnableToFetchDSRecord
  | ErrKeysNotFound
  | ErrKeySigningKeysNotFound
  | ErrAuthSignerNameMismatch
  | ErrSignatureSetEmpty
  | ErrUnableToVerify
  | ErrVerifyFailed
  | ErrNoKeyFoundForSignature
  | ErrInvalidTime
  | ErrInvalidSignature
  | ErrInvalidLabelCount
  | ErrMultipleVaryingSignerNames
  | ErrNSRecordsHaveMismatchingOwners
  | ErrFailsafeResponse
  | ErrUnexpectedSignatureCount
  | ErrMultipleWildcardSignatures
  | ErrDSLookupLoop
  | ErrNotSubdomain
  | ErrSameName
  | ErrUnknown
  | ErrSignerNameNotParentOfQName
  | ErrNoResults
  | ErrBogusResultFound
  | ErrBogusDoeRecordsNotFound
  | ErrBogusWildcardDoeNotFound
  | ErrNotAllInputsProcessed
  | ErrDuplicateInputForZone

text \<open>
  An error value: a sentinel of one of the packages, a \<open>*MissingDSRecordError\<close>, the result of
  \<open>fmt.Errorf\<close> (the errors its \<open>%w\<close> verbs wrap, in order; the message text is not kept), or an
  error of a library with its text.
\<close>

datatype error =
    RErr resolver_err
  | DErr dnssec_err
  | MissingDSRecordError string
  | Errorf "error list"
  | LibErr string

text \<open>\<open>errors.Is(e, s)\<close>: \<open>s\<close> occurs in the tree of wrapped errors of \<open>e\<close>.\<close>

fun errors_Is :: "error \<Rightarrow> error \<Rightarrow> bool" where
  "errors_Is (Errorf es) s = (Errorf es = s \<or> list_ex (\<lambda>e. errors_Is e s) es)"
| "errors_Is e s = (e = s)"

end
