(* ===== verification/Dns.thy ===== *)
theory Dns
  imports Prelude
begin

text \<open>
  The data of the \<open>github.com/miekg/dns\<close> package that the program reads and writes (resource
  records, questions, messages) and, as a record of functions, the operations of that package
  that the program calls. The package is not part of the repository: its operations are
  parameters, a value \<open>L :: dnslib\<close> that every definition using them takes as an argument.
  What a theorem needs of them is stated by the predicates at the end of this theory.
\<close>

section \<open>Resource records\<close>

record RR_Header =
  hName :: string
  hRrtype :: u16
  hClass :: u16
  hTtl :: u32

record DS_rdata =
  dsKeyTag :: u16
  dsAlgorithm :: u8
  dsDigestType :: u8
  dsDigest :: string

record DNSKEY_rdata =
  keyFlags :: u16
  keyProtocol :: u8
  keyAlgorithm :: u8
  keyPublicKey :: string

record RRSIG_rdata =
  sigTypeCovered :: u16
  sigAlgorithm :: u8
  sigLabels :: u8
  sigOrigTtl :: u32
  sigExpiration :: u32
  sigInception :: u32
  sigKeyTag :: u16
  sigSignerName :: string
  sigSignature :: string

record NSEC_rdata =
  nsecNextDomain :: string
  nsecTypeBitMap :: "u16 list"

record NSEC3_rdata =
  n3Hash :: u8
  n3Flags :: u8
  n3Iterations :: u16
  n3Salt :: string
  n3NextDomain :: string
  n3TypeBitMap :: "u16 list"

text \<open>
  The dynamic type of a record, with its data. The header carries the record type as a number
  of its own (\<^const>\<open>hRrtype\<close>): a Go type switch looks at the constructor, a test of
  \<open>Header().Rrtype\<close> at the number, and the model keeps the two apart.
\<close>

datatype rdata =
    A_R string
  | AAAA_R string
  | NS_R string
  | CNAME_R string
  | SOA_R string
  | DS_R DS_rdata
  | DNSKEY_R DNSKEY_rdata
  | RRSIG_R RRSIG_rdata
  | NSEC_R NSEC_rdata
  | NSEC3_R NSEC3_rdata
  | OPT_R string
  | Other_R string

record RR =
  Header :: RR_Header
  Rdata :: rdata

type_synonym DS = "RR_Header \<times> DS_rdata"
type_synonym DNSKEY = "RR_Header \<times> DNSKEY_rdata"
type_synonym RRSIG = "RR_Header \<times> RRSIG_rdata"
type_synonym NSEC = "RR_Header \<times> NSEC_rdata"
type_synonym NSEC3 = "RR_Header \<times> NSEC3_rdata"

abbreviation rr_name :: "RR \<Rightarrow> string" where
  "rr_name rr \<equiv> hName (Header rr)"

abbreviation rr_type :: "RR \<Rightarrow> u16" where
  "rr_type rr \<equiv> hRrtype (Header rr)"

abbreviation rr_ttl :: "RR \<Rightarrow> u32" where
  "rr_ttl rr \<equiv> hTtl (Header rr)"

text \<open>The type numbers, response codes and algorithm numbers the program names.\<close>

abbreviation (input) TypeA :: u16 where "TypeA \<equiv> 1"
abbreviation (input) TypeNS :: u16 where "TypeNS \<equiv> 2"
abbreviation (input) TypeCNAME :: u16 where "TypeCNAME \<equiv> 5"
abbreviation (input) TypeSOA :: u16 where "TypeSOA \<equiv> 6"
abbreviation (input) TypeAAAA :: u16 where "TypeAAAA \<equiv> 28"
abbreviation (input) TypeDNAME :: u16 where "TypeDNAME \<equiv> 39"
abbreviation (input) TypeOPT :: u16 where "TypeOPT \<equiv> 41"
abbreviation (input) TypeDS :: u16 where "TypeDS \<equiv> 43"
abbreviation (input) TypeRRSIG :: u16 where "TypeRRSIG \<equiv> 46"
abbreviation (input) TypeNSEC :: u16 where "TypeNSEC \<equiv> 47"
abbreviation (input) TypeDNSKEY :: u16 where "TypeDNSKEY \<equiv> 48"
abbreviation (input) TypeNSEC3 :: u16 where "TypeNSEC3 \<equiv> 50"

abbreviation (input) RcodeSuccess :: int where "RcodeSuccess \<equiv> 0"
abbreviation (input) RcodeServerFailure :: int where "RcodeServerFailure \<equiv> 2"
abbreviation (input) RcodeNameError :: int where "RcodeNameError \<equiv> 3"

abbreviation (input) SHA1 :: u8 where "SHA1 \<equiv> 1"
abbreviation (input) SHA256 :: u8 where "SHA256 \<equiv> 2"

section \<open>Messages\<close>

record Question =
  qName :: string
  qQtype :: u16
  qQclass :: u16

record Msg =
  mId :: u16
  mResponse :: bool
  mOpcode :: int
  mAuthoritative :: bool
  mTruncated :: bool
  mRecursionDesired :: bool
  mRecursionAvailable :: bool
  mZero :: bool
  mAuthenticatedData :: bool
  mCheckingDisabled :: bool
  mRcode :: int
  mQuestion :: "Question list"
  mAnswer :: "RR list"
  mNs :: "RR list"
  mExtra :: "RR list"

text \<open>The zero value \<open>new(dns.Msg)\<close>.\<close>

definition new_Msg :: Msg where
  "new_Msg = \<lparr>mId = 0, mResponse = False, mOpcode = 0, mAuthoritative = False,
     mTruncated = False, mRecursionDesired = False, mRecursionAvailable = False, mZero = False,
     mAuthenticatedData = False, mCheckingDisabled = False, mRcode = 0, mQuestion = [],
     mAnswer = [], mNs = [], mExtra = []\<rparr>"

section \<open>The operations of the library\<close>

text \<open>
  One field per function or method of \<open>miekg/dns\<close> the program calls. \<open>ToDS\<close> returns a pointer
  that is nil for a digest type the library does not know; \<open>VerifySig\<close> is \<open>(*RRSIG).Verify\<close>,
  with nil for a signature that holds; \<open>ValidityPeriod\<close> takes the time in seconds.
\<close>

record dnslib =
  CanonicalName :: "string \<Rightarrow> string"
  Fqdn :: "string \<Rightarrow> string"
  Split :: "string \<Rightarrow> int list"
  SplitDomainName :: "string \<Rightarrow> string list"
  IsSubDomain :: "string \<Rightarrow> string \<Rightarrow> bool"
  CountLabel :: "string \<Rightarrow> int"
  Match :: "NSEC3 \<Rightarrow> string \<Rightarrow> bool"
  Cover :: "NSEC3 \<Rightarrow> string \<Rightarrow> bool"
  ValidityPeriod :: "RRSIG \<Rightarrow> int \<Rightarrow> bool"
  KeyTag :: "DNSKEY \<Rightarrow> u16"
  ToDS :: "DNSKEY \<Rightarrow> u8 \<Rightarrow> DS option"
  VerifySig :: "RRSIG \<Rightarrow> DNSKEY \<Rightarrow> RR list \<Rightarrow> error option"
  Dedup :: "RR list \<Rightarrow> RR list"
  OptDo :: "RR \<Rightarrow> bool"
  SetQuestion :: "Msg \<Rightarrow> string \<Rightarrow> u16 \<Rightarrow> Msg"
  SetEdns0 :: "Msg \<Rightarrow> u16 \<Rightarrow> bool \<Rightarrow> Msg"
  IsEdns0 :: "Msg \<Rightarrow> RR option"
  SetReply :: "Msg \<Rightarrow> Msg \<Rightarrow> Msg"
  SetRcode :: "Msg \<Rightarrow> Msg \<Rightarrow> int \<Rightarrow> Msg"

section \<open>Documented behaviour of the name functions\<close>

text \<open>
  The names above a name: the root, then the suffixes that start at a label, from the shortest
  to the whole name.
\<close>

definition ancestors :: "dnslib \<Rightarrow> string \<Rightarrow> string list" where
  "ancestors L s = drop (length s - 1) s # map (\<lambda>i. drop (nat i) s) (rev (Split L s))"

text \<open>
  \<open>Split\<close> returns the offsets of the labels of a fully qualified name in increasing order, the
  first label starts the name, and the root has no label; \<open>CountLabel\<close> counts the labels of the
  name and of each of its suffixes.
\<close>

definition label_laws :: "dnslib \<Rightarrow> string \<Rightarrow> bool" where
  "label_laws L s \<longleftrightarrow>
     s \<noteq> [] \<and>
     sorted_wrt (<) (Split L s) \<and>
     (\<forall>i \<in> set (Split L s). 0 \<le> i \<and> i < int (length s) - 1) \<and>
     (if Split L s = [] then length s = 1 else hd (Split L s) = 0) \<and>
     CountLabel L (drop (length s - 1) s) = 0 \<and>
     list_all (\<lambda>k. CountLabel L (drop (nat (Split L s ! k)) s) = int (length (Split L s) - k))
       [0..<length (Split L s)]"

text \<open>
  \<open>CanonicalName\<close> is idempotent and leaves the names above a canonical name as they are;
  \<open>IsSubDomain(p, c)\<close> holds when \<open>p\<close> is, up to the canonical form, one of the names above \<open>c\<close>,
  and does not depend on the form of \<open>c\<close>; \<open>CountLabel\<close> does not depend on the form of a name.
\<close>

definition canonical_laws :: "dnslib \<Rightarrow> string \<Rightarrow> bool" where
  "canonical_laws L d \<longleftrightarrow>
     (\<forall>t. CanonicalName L (CanonicalName L t) = CanonicalName L t) \<and>
     (\<forall>a \<in> set (ancestors L (CanonicalName L d)). CanonicalName L a = a) \<and>
     (\<forall>t. CountLabel L (CanonicalName L t) = CountLabel L t) \<and>
     (\<forall>t. IsSubDomain L t d \<longleftrightarrow>
        CanonicalName L t \<in> set (ancestors L (CanonicalName L d))) \<and>
     (\<forall>t. IsSubDomain L t (CanonicalName L d) = IsSubDomain L t d)"

definition name_laws :: "dnslib \<Rightarrow> string \<Rightarrow> bool" where
  "name_laws L d \<longleftrightarrow> label_laws L (CanonicalName L d) \<and> canonical_laws L d"

lemma name_lawsD:
  assumes "name_laws L d"
  shows "label_laws L (CanonicalName L d)" and "canonical_laws L d"
  using assms by (auto simp: name_laws_def)

lemma label_laws_nonempty: "label_laws L s \<Longrightarrow> s \<noteq> []"
  by (simp add: label_laws_def)

lemma label_laws_bounds:
  "label_laws L s \<Longrightarrow> i \<in> set (Split L s) \<Longrightarrow> 0 \<le> i \<and> i < int (length s) - 1"
  by (simp add: label_laws_def)

lemma label_laws_count_suffix:
  "label_laws L s \<Longrightarrow> k < length (Split L s) \<Longrightarrow>
     CountLabel L (drop (nat (Split L s ! k)) s) = int (length (Split L s) - k)"
  by (simp add: label_laws_def list_all_iff)

lemma label_laws_count:
  assumes "label_laws L s"
  shows "CountLabel L s = int (length (Split L s))"
proof (cases "Split L s")
  case Nil
  with assms have "length s = 1" "CountLabel L (drop (length s - 1) s) = 0"
    by (auto simp: label_laws_def)
  with Nil show ?thesis by simp
next
  case (Cons i js)
  with assms have "i = 0" by (simp add: label_laws_def)
  with Cons show ?thesis
    using label_laws_count_suffix [OF assms, of 0] by simp
qed

lemma length_ancestors [simp]: "length (ancestors L s) = Suc (length (Split L s))"
  by (simp add: ancestors_def)

lemma ancestors_nth_Suc:
  "k < length (Split L s) \<Longrightarrow>
     ancestors L s ! Suc k = drop (nat (Split L s ! (length (Split L s) - Suc k))) s"
  by (simp add: ancestors_def rev_nth)

text \<open>The \<open>k\<close>-th of these names has \<open>k\<close> labels.\<close>

lemma ancestors_count:
  assumes "label_laws L s" "k < length (ancestors L s)"
  shows "CountLabel L (ancestors L s ! k) = int k"
proof (cases k)
  case 0
  with assms show ?thesis by (simp add: ancestors_def label_laws_def)
next
  case (Suc j)
  with assms(2) have "j < length (Split L s)" by simp
  with Suc assms(1) show ?thesis
    by (simp add: ancestors_nth_Suc label_laws_count_suffix)
qed

lemma ancestors_inj:
  assumes "label_laws L s" "j < length (ancestors L s)" "k < length (ancestors L s)"
    and "ancestors L s ! j = ancestors L s ! k"
  shows "j = k"
proof -
  have "int j = CountLabel L (ancestors L s ! j)"
    by (rule ancestors_count [OF assms(1,2), symmetric])
  also have "\<dots> = int k"
    unfolding assms(4) by (rule ancestors_count [OF assms(1,3)])
  finally show ?thesis by simp
qed

lemma ancestors_last:
  assumes "label_laws L s"
  shows "ancestors L s ! length (Split L s) = s"
proof (cases "Split L s")
  case Nil
  with assms show ?thesis by (simp add: ancestors_def label_laws_def)
next
  case (Cons i js)
  with assms have "i = 0" by (simp add: label_laws_def)
  with Cons ancestors_nth_Suc [of "length js" L s] show ?thesis by simp
qed

lemma ancestors_suffix:
  "a \<in> set (ancestors L s) \<Longrightarrow> \<exists>n. a = drop n s"
  by (auto simp: ancestors_def)

text \<open>A name above another has no more labels than it.\<close>

lemma IsSubDomain_count:
  assumes laws: "name_laws L d" and sub: "IsSubDomain L t d"
  shows "0 \<le> CountLabel L t" and "CountLabel L t \<le> CountLabel L d"
proof -
  let ?s = "CanonicalName L d"
  from laws have lab: "label_laws L ?s" and can: "canonical_laws L d"
    by (rule name_lawsD)+
  from can sub have "CanonicalName L t \<in> set (ancestors L ?s)"
    by (simp add: canonical_laws_def)
  then obtain k where k: "k < length (ancestors L ?s)" "CanonicalName L t = ancestors L ?s ! k"
    by (auto simp: in_set_conv_nth)
  from can have "CountLabel L t = CountLabel L (CanonicalName L t)"
    and d: "CountLabel L d = CountLabel L ?s"
    by (simp_all add: canonical_laws_def)
  with k ancestors_count [OF lab k(1)] have "CountLabel L t = int k" by simp
  then show "0 \<le> CountLabel L t" and "CountLabel L t \<le> CountLabel L d"
    using k(1) d label_laws_count [OF lab] by simp_all
qed

end
