(* ===== verification/Records.thy ===== *)
theory Records
  imports Dns
begin

text \<open>
  The record and message helpers of \<open>functions.go\<close> and \<open>dnssec/functions.go\<close>: selecting
  records by dynamic type, by type number and by owner, and the wildcard of a name. The two
  packages hold copies of the same helpers; each is modelled once.
\<close>

section \<open>Type assertions\<close>

text \<open>\<open>record.(T)\<close> for the record types the program asserts.\<close>

fun as_A :: "RR \<Rightarrow> (RR_Header \<times> string) option" where
  "as_A rr = (case Rdata rr of A_R a \<Rightarrow> Some (Header rr, a) | _ \<Rightarrow> None)"

fun as_AAAA :: "RR \<Rightarrow> (RR_Header \<times> string) option" where
  "as_AAAA rr = (case Rdata rr of AAAA_R a \<Rightarrow> Some (Header rr, a) | _ \<Rightarrow> None)"

fun as_NS :: "RR \<Rightarrow> (RR_Header \<times> string) option" where
  "as_NS rr = (case Rdata rr of NS_R n \<Rightarrow> Some (Header rr, n) | _ \<Rightarrow> None)"

fun as_CNAME :: "RR \<Rightarrow> (RR_Header \<times> string) option" where
  "as_CNAME rr = (case Rdata rr of CNAME_R n \<Rightarrow> Some (Header rr, n) | _ \<Rightarrow> None)"

fun as_SOA :: "RR \<Rightarrow> (RR_Header \<times> string) option" where
  "as_SOA rr = (case Rdata rr of SOA_R d \<Rightarrow> Some (Header rr, d) | _ \<Rightarrow> None)"

fun as_OPT :: "RR \<Rightarrow> RR option" where
  "as_OPT rr = (case Rdata rr of OPT_R d \<Rightarrow> Some rr | _ \<Rightarrow> None)"

fun as_DS :: "RR \<Rightarrow> DS option" where
  "as_DS rr = (case Rdata rr of DS_R d \<Rightarrow> Some (Header rr, d) | _ \<Rightarrow> None)"

fun as_DNSKEY :: "RR \<Rightarrow> DNSKEY option" where
  "as_DNSKEY rr = (case Rdata rr of DNSKEY_R d \<Rightarrow> Some (Header rr, d) | _ \<Rightarrow> None)"

fun as_RRSIG :: "RR \<Rightarrow> RRSIG option" where
  "as_RRSIG rr = (case Rdata rr of RRSIG_R d \<Rightarrow> Some (Header rr, d) | _ \<Rightarrow> None)"

fun as_NSEC :: "RR \<Rightarrow> NSEC option" where
  "as_NSEC rr = (case Rdata rr of NSEC_R d \<Rightarrow> Some (Header rr, d) | _ \<Rightarrow> None)"

fun as_NSEC3 :: "RR \<Rightarrow> NSEC3 option" where
  "as_NSEC3 rr = (case Rdata rr of NSEC3_R d \<Rightarrow> Some (Header rr, d) | _ \<Rightarrow> None)"

section \<open>Selecting records\<close>

text \<open>\<open>extractRecords[T]\<close>, with the type assertion as its argument.\<close>

fun extractRecords :: "(RR \<Rightarrow> 'a option) \<Rightarrow> RR list \<Rightarrow> 'a list" where
  "extractRecords as_T [] = []"
| "extractRecords as_T (record # rr) =
     (case as_T record of
        Some typedRecord \<Rightarrow> typedRecord # extractRecords as_T rr
      | None \<Rightarrow> extractRecords as_T rr)"

definition extractRecordsOfType :: "RR list \<Rightarrow> u16 \<Rightarrow> RR list" where
  "extractRecordsOfType rr t = filter (\<lambda>record. rr_type record = t) rr"

definition extractRecordsOfNameAndType :: "RR list \<Rightarrow> string \<Rightarrow> u16 \<Rightarrow> RR list" where
  "extractRecordsOfNameAndType rr name t =
     filter (\<lambda>record. rr_type record = t \<and> rr_name record = name) rr"

fun recordsOfTypeExist :: "RR list \<Rightarrow> u16 \<Rightarrow> bool" where
  "recordsOfTypeExist [] t = False"
| "recordsOfTypeExist (record # rr) t = (if rr_type record = t then True else recordsOfTypeExist rr t)"

fun recordsOfNameAndTypeExist :: "RR list \<Rightarrow> string \<Rightarrow> u16 \<Rightarrow> bool" where
  "recordsOfNameAndTypeExist [] name t = False"
| "recordsOfNameAndTypeExist (record # rr) name t =
     (if rr_type record = t \<and> rr_name record = name then True
      else recordsOfNameAndTypeExist rr name t)"

definition removeRecordsOfType :: "RR list \<Rightarrow> u16 \<Rightarrow> RR list" where
  "removeRecordsOfType rr t =
     (if rr = [] \<or> \<not> recordsOfTypeExist rr t then rr
      else filter (\<lambda>record. rr_type record \<noteq> t) rr)"

definition recordsHaveTheSameOwner :: "RR list \<Rightarrow> bool" where
  "recordsHaveTheSameOwner rr =
     (case rr of
        [] \<Rightarrow> True
      | first # rest \<Rightarrow> list_all (\<lambda>r. rr_name r = rr_name first) rest)"

fun getOwnerNameFromSet :: "RR list \<Rightarrow> string \<times> bool" where
  "getOwnerNameFromSet (r # rr) = (rr_name r, True)"
| "getOwnerNameFromSet [] = ([], False)"

section \<open>Names and flags\<close>

definition namesEqual :: "dnslib \<Rightarrow> string \<Rightarrow> string \<Rightarrow> bool" where
  "namesEqual L s1 s2 \<longleftrightarrow> CanonicalName L s1 = CanonicalName L s2"

text \<open>\<open>wildcardName\<close> replaces the first label of a name by \<open>*\<close>.\<close>

definition wildcardName :: "dnslib \<Rightarrow> string \<Rightarrow> string option" where
  "wildcardName L name =
     (let labelIndexes = Split L name
      in if length labelIndexes < 2 then Some ''*.''
         else do {
           i \<leftarrow> at labelIndexes 1;
           rest \<leftarrow> slice_from name i;
           Some (''*.'' @ rest)
         })"

text \<open>Whether the first OPT record of a message has the DO bit set.\<close>

fun first_OPT_Do :: "dnslib \<Rightarrow> RR list \<Rightarrow> bool" where
  "first_OPT_Do L [] = False"
| "first_OPT_Do L (extra # rr) =
     (case as_OPT extra of Some opt \<Rightarrow> OptDo L opt | None \<Rightarrow> first_OPT_Do L rr)"

definition isSetDO :: "dnslib \<Rightarrow> Msg \<Rightarrow> bool" where
  "isSetDO L msg = first_OPT_Do L (mExtra msg)"

section \<open>What the loops compute\<close>

lemma set_extractRecords:
  "set (extractRecords as_T rr) = {x. \<exists>r \<in> set rr. as_T r = Some x}"
  by (induction rr) (auto split: option.splits)

lemma extractRecords_append [simp]:
  "extractRecords as_T (xs @ ys) = extractRecords as_T xs @ extractRecords as_T ys"
  by (induction xs) (auto split: option.splits)

lemma extractRecords_length: "length (extractRecords as_T rr) \<le> length rr"
  by (induction rr) (auto split: option.splits)

lemma recordsOfTypeExist_iff [loop_specs]:
  "recordsOfTypeExist rr t \<longleftrightarrow> (\<exists>r \<in> set rr. rr_type r = t)"
  by (induction rr) auto

lemma recordsOfNameAndTypeExist_iff [loop_specs]:
  "recordsOfNameAndTypeExist rr name t \<longleftrightarrow> (\<exists>r \<in> set rr. rr_type r = t \<and> rr_name r = name)"
  by (induction rr) auto

lemma extractRecordsOfType_nonempty:
  "extractRecordsOfType rr t \<noteq> [] \<longleftrightarrow> recordsOfTypeExist rr t"
  by (simp add: extractRecordsOfType_def filter_empty_conv recordsOfTypeExist_iff)

lemma removeRecordsOfType_eq [loop_specs]:
  "removeRecordsOfType rr t = filter (\<lambda>r. rr_type r \<noteq> t) rr"
  by (auto simp: removeRecordsOfType_def recordsOfTypeExist_iff intro: filter_True [symmetric])

lemma recordsHaveTheSameOwner_iff [loop_specs]:
  "recordsHaveTheSameOwner rr \<longleftrightarrow> (\<forall>r \<in> set rr. \<forall>r' \<in> set rr. rr_name r = rr_name r')"
  by (cases rr) (auto simp: recordsHaveTheSameOwner_def list_all_iff)

end
