(* ===== verification/AuthResult.thy ===== *)
theory AuthResult
  imports Prelude "HOL-Library.Multiset"
begin

text \<open>
  The result types of \<open>dnssec/const.go\<close>: the state of an authentication, how two states are
  merged, and the denial-of-existence states. The merge is shown to be the meet of the order
  in which a state is below every state that is more trustworthy.
\<close>

section \<open>Authentication results\<close>

datatype AuthenticationResult = Unknown | Insecure | Secure | Bogus

fun AuthenticationResult_String :: "AuthenticationResult \<Rightarrow> string" where
  "AuthenticationResult_String Unknown = ''Unknown''"
| "AuthenticationResult_String Insecure = ''Insecure''"
| "AuthenticationResult_String Secure = ''Secure''"
| "AuthenticationResult_String Bogus = ''Bogus''"

definition Combine :: "AuthenticationResult \<Rightarrow> AuthenticationResult \<Rightarrow> AuthenticationResult" where
  "Combine r r2 =
     (if r = Bogus \<or> r2 = Bogus then Bogus
      else if r = Unknown \<or> r2 = Unknown then Unknown
      else if r = Insecure \<or> r2 = Insecure then Insecure
      else if r = Secure \<and> r2 = Secure then Secure
      else Bogus)"

text \<open>
  The order of trust, as a linear order on the type: \<open>Bogus < Unknown < Insecure < Secure\<close>.
\<close>

fun trust :: "AuthenticationResult \<Rightarrow> nat" where
  "trust Bogus = 0"
| "trust Unknown = 1"
| "trust Insecure = 2"
| "trust Secure = 3"

lemma trust_inj [simp]: "trust a = trust b \<longleftrightarrow> a = b"
  by (cases a; cases b) auto

instantiation AuthenticationResult :: linorder
begin

definition less_eq_AuthenticationResult :: "AuthenticationResult \<Rightarrow> AuthenticationResult \<Rightarrow> bool" where
  "a \<le> b \<longleftrightarrow> trust a \<le> trust b"

definition less_AuthenticationResult :: "AuthenticationResult \<Rightarrow> AuthenticationResult \<Rightarrow> bool" where
  "a < b \<longleftrightarrow> trust a < trust b"

instance
  by standard (auto simp: less_eq_AuthenticationResult_def less_AuthenticationResult_def)

end

lemma Secure_greatest: "r \<le> Secure"
  by (cases r) (simp_all add: less_eq_AuthenticationResult_def)

lemma Combine_min: "Combine r r2 = min r r2"
  by (cases r; cases r2) (simp_all add: Combine_def min_def less_eq_AuthenticationResult_def)

text \<open>The contract of a merge of results that may be applied in any order.\<close>

locale result_merge =
  fixes merge :: "'a \<Rightarrow> 'a \<Rightarrow> 'a" and top :: 'a
  assumes assoc: "merge (merge a b) c = merge a (merge b c)"
    and commute: "merge a b = merge b a"
    and idem: "merge a a = a"
    and top: "merge a top = a"
begin

lemma left_commute: "merge b (merge a c) = merge a (merge b c)"
  by (metis assoc commute)

lemma foldl_start: "foldl merge (merge a b) xs = merge a (foldl merge b xs)"
  by (induction xs arbitrary: b) (simp_all add: assoc)

lemma foldl_swap: "foldl merge a (x # y # xs) = foldl merge a (y # x # xs)"
  by (simp add: assoc) (metis commute)

lemma foldl_mset: "mset xs = mset ys \<Longrightarrow> foldl merge a xs = foldl merge a ys"
proof (induction xs arbitrary: ys a)
  case Nil
  then show ?case by simp
next
  case (Cons x xs)
  then have "x \<in> set ys" by (metis list.set_intros(1) mset_eq_setD)
  then obtain us vs where ys: "ys = us @ x # vs" by (auto simp: in_set_conv_decomp)
  with Cons.prems have "mset xs = mset (us @ vs)" by simp
  then have "foldl merge (merge a x) xs = foldl merge (merge a x) (us @ vs)" by (rule Cons.IH)
  also have "\<dots> = foldl merge a (us @ x # vs)"
    by (simp add: foldl_start commute [of a x]) (metis assoc commute foldl_start)
  finally show ?case using ys by simp
qed

end

interpretation combine: result_merge Combine Secure
  by unfold_locales (simp_all add: Combine_min ac_simps min_absorb1 Secure_greatest)

text \<open>Merging over a chain of answers: Secure exactly when every one of them is.\<close>

lemma foldl_Combine_Secure:
  "foldl Combine r rs = Secure \<longleftrightarrow> r = Secure \<and> (\<forall>x \<in> set rs. x = Secure)"
proof (induction rs arbitrary: r)
  case Nil
  then show ?case by simp
next
  case (Cons x rs)
  have "Combine r x = Secure \<longleftrightarrow> r = Secure \<and> x = Secure"
    by (cases r; cases x) (simp_all add: Combine_def)
  with Cons.IH [of "Combine r x"] show ?case by auto
qed

lemma foldl_Combine_Bogus:
  "foldl Combine r rs = Bogus \<longleftrightarrow> r = Bogus \<or> Bogus \<in> set rs"
proof (induction rs arbitrary: r)
  case Nil
  then show ?case by simp
next
  case (Cons x rs)
  have "Combine r x = Bogus \<longleftrightarrow> r = Bogus \<or> x = Bogus"
    by (cases r; cases x) (simp_all add: Combine_def)
  with Cons.IH [of "Combine r x"] show ?case by auto
qed

section \<open>Denial of existence\<close>

datatype DenialOfExistenceState =
    NotFound
  | NsecMissingDS
  | NsecNoData
  | NsecNxDomain
  | NsecWildcard
  | Nsec3MissingDS
  | Nsec3NoData
  | Nsec3NxDomain
  | Nsec3OptOut
  | Nsec3Wildcard

fun DenialOfExistenceState_String :: "DenialOfExistenceState \<Rightarrow> string" where
  "DenialOfExistenceState_String NotFound = ''NotFound''"
| "DenialOfExistenceState_String NsecMissingDS = ''NsecMissingDS''"
| "DenialOfExistenceState_String NsecNoData = ''NsecNoData''"
| "DenialOfExistenceState_String NsecNxDomain = ''NsecNxDomain''"
| "DenialOfExistenceState_String NsecWildcard = ''NsecWildcard''"
| "DenialOfExistenceState_String Nsec3MissingDS = ''Nsec3MissingDS''"
| "DenialOfExistenceState_String Nsec3NoData = ''Nsec3NoData''"
| "DenialOfExistenceState_String Nsec3NxDomain = ''Nsec3NxDomain''"
| "DenialOfExistenceState_String Nsec3OptOut = ''Nsec3OptOut''"
| "DenialOfExistenceState_String Nsec3Wildcard = ''Nsec3Wildcard''"

text \<open>The section of a message a signature set belongs to.\<close>

datatype section_kind = answerSection | authoritySection

end
