(* ===== verification/Plain_Lib.thy ===== *)
theory Plain_Lib
  imports Dns
begin

text \<open>
  A concrete value of the library parameter, used to evaluate the model and to show that the
  hypotheses on the library can hold: names without escapes, split at their dots. Signatures,
  key tags and hashes are left to the caller, who overrides the fields an example needs. It is
  not a model of \<open>miekg/dns\<close>, and no property depends on it.
\<close>

definition plain_fqdn :: "string \<Rightarrow> string" where
  "plain_fqdn s = (if s \<noteq> [] \<and> last s = CHR ''.'' then s else s @ ''.'')"

definition plain_canonical :: "string \<Rightarrow> string" where
  "plain_canonical s = map to_lower (plain_fqdn s)"

definition plain_split :: "string \<Rightarrow> int list" where
  "plain_split s =
     (if length s \<le> 1 then []
      else 0 # map (\<lambda>i. int i + 1) (filter (\<lambda>i. s ! i = CHR ''.'') [0..<length s - 1]))"

definition plain_ancestors :: "string \<Rightarrow> string list" where
  "plain_ancestors s = drop (length s - 1) s # map (\<lambda>i. drop (nat i) s) (rev (plain_split s))"

fun plain_labels :: "string \<Rightarrow> string \<Rightarrow> string list" where
  "plain_labels acc [] = (if acc = [] then [] else [rev acc])"
| "plain_labels acc (c # cs) =
     (if c = CHR ''.'' then (if acc = [] then plain_labels [] cs else rev acc # plain_labels [] cs)
      else plain_labels (c # acc) cs)"

definition plain_lib :: dnslib where
  "plain_lib = \<lparr>
     CanonicalName = plain_canonical,
     Fqdn = plain_fqdn,
     Split = plain_split,
     SplitDomainName = plain_labels [],
     IsSubDomain = (\<lambda>p c. plain_canonical p \<in> set (plain_ancestors (plain_canonical c))),
     CountLabel = (\<lambda>s. int (length (plain_split (plain_canonical s)))),
     Match = (\<lambda>r s. False),
     Cover = (\<lambda>r s. False),
     ValidityPeriod = (\<lambda>r t. True),
     KeyTag = (\<lambda>k. 0),
     ToDS = (\<lambda>k t. None),
     VerifySig = (\<lambda>r k rrs. Some (LibErr ''no signature'')),
     Dedup = remdups,
     OptDo = (\<lambda>opt. 32768 \<le> hTtl (Header opt)),
     SetQuestion = (\<lambda>m n t. m\<lparr>mRecursionDesired := True,
        mQuestion := [\<lparr>qName = n, qQtype = t, qQclass = 1\<rparr>]\<rparr>),
     SetEdns0 = (\<lambda>m size dobit. m\<lparr>mExtra := mExtra m @ [\<lparr>Header = \<lparr>hName = ''.'', hRrtype = TypeOPT,
        hClass = size, hTtl = if dobit then 32768 else 0\<rparr>, Rdata = OPT_R []\<rparr>]\<rparr>),
     IsEdns0 = (\<lambda>m. List.find (\<lambda>rr. hRrtype (Header rr) = TypeOPT) (rev (mExtra m))),
     SetReply = (\<lambda>m r. m\<lparr>mId := mId r, mResponse := True, mRecursionDesired := mRecursionDesired r,
        mQuestion := take 1 (mQuestion r)\<rparr>),
     SetRcode = (\<lambda>m r c. m\<lparr>mId := mId r, mResponse := True, mRcode := c,
        mQuestion := take 1 (mQuestion r)\<rparr>)\<rparr>"

lemma of_char_to_lower:
  "(of_char (to_lower c) :: nat) =
     (if 65 \<le> (of_char c :: nat) \<and> (of_char c :: nat) \<le> 90 then of_char c + 32 else of_char c)"
  by (simp add: to_lower_def Let_def)

lemma char_eq_nat: "(c = d) = ((of_char c :: nat) = of_char d)"
  by simp

lemma to_lower_idem: "to_lower (to_lower c) = to_lower c"
  unfolding char_eq_nat of_char_to_lower by simp

lemma to_lower_dot: "to_lower c = CHR ''.'' \<longleftrightarrow> c = CHR ''.''"
  unfolding char_eq_nat of_char_to_lower by auto

lemma plain_canonical_ends: "plain_canonical s \<noteq> [] \<and> last (plain_canonical s) = CHR ''.''"
  by (auto simp: plain_canonical_def plain_fqdn_def last_map to_lower_dot)

lemma plain_canonical_idem: "plain_canonical (plain_canonical s) = plain_canonical s"
proof -
  have "plain_fqdn (plain_canonical s) = plain_canonical s"
    using plain_canonical_ends by (simp add: plain_fqdn_def)
  then show ?thesis
    by (simp add: plain_canonical_def [of "plain_canonical s"]) (simp add: plain_canonical_def to_lower_idem)
qed

lemma plain_ancestors_suffix:
  "a \<in> set (plain_ancestors s) \<Longrightarrow> s \<noteq> [] \<Longrightarrow> \<exists>n < length s. a = drop n s"
proof -
  assume a: "a \<in> set (plain_ancestors s)" and s: "s \<noteq> []"
  have "0 \<le> i \<and> i < int (length s)" if "i \<in> set (plain_split s)" for i
    using that by (auto simp: plain_split_def split: if_splits)
  then have "nat i < length s" if "i \<in> set (plain_split s)" for i
    using that s by fastforce
  with a s show ?thesis
    by (auto simp: plain_ancestors_def intro: exI [of _ "length s - Suc 0"])
qed

lemma plain_canonical_ancestor:
  assumes "a \<in> set (plain_ancestors (plain_canonical d))"
  shows "plain_canonical a = a"
proof -
  have "plain_canonical d \<noteq> []" using plain_canonical_ends by simp
  from plain_ancestors_suffix [OF assms this] obtain n
    where n: "n < length (plain_canonical d)" and a: "a = drop n (plain_canonical d)" by blast
  then have "a \<noteq> []" "last a = CHR ''.''" using plain_canonical_ends [of d] by simp_all
  then have "plain_fqdn a = a" by (simp add: plain_fqdn_def)
  then have "plain_canonical a = map to_lower a" by (simp add: plain_canonical_def)
  also have "\<dots> = a"
    by (simp add: a plain_canonical_def drop_map to_lower_idem)
  finally show ?thesis .
qed

lemma plain_lib_simps [simp]:
  "CanonicalName plain_lib = plain_canonical"
  "Split plain_lib = plain_split"
  "IsSubDomain plain_lib p c = (plain_canonical p \<in> set (plain_ancestors (plain_canonical c)))"
  "CountLabel plain_lib s = int (length (plain_split (plain_canonical s)))"
  by (simp_all add: plain_lib_def)

lemma ancestors_plain [simp]: "ancestors plain_lib s = plain_ancestors s"
  by (simp add: ancestors_def plain_ancestors_def)

lemma plain_canonical_laws: "canonical_laws plain_lib d"
  unfolding canonical_laws_def plain_lib_simps ancestors_plain
  using plain_canonical_ancestor [of _ d] by (simp add: plain_canonical_idem)

lemma plain_name_laws:
  "label_laws plain_lib (plain_canonical d) \<Longrightarrow> name_laws plain_lib d"
  by (simp add: name_laws_def plain_canonical_laws)

lemmas plain_defs = plain_lib_def plain_canonical_def plain_fqdn_def plain_split_def
  plain_ancestors_def to_lower_def

lemma plain_canonical_example: "plain_canonical ''A.b.c'' = ''a.b.c.''"
  by code_simp

lemma label_laws_example: "label_laws plain_lib (plain_canonical ''A.b.c'')"
  by code_simp

lemma name_laws_example: "name_laws plain_lib ''A.b.c''"
  by (rule plain_name_laws [OF label_laws_example])

end
