(* ===== verification/Pool.thy ===== *)
theory Pool
  imports Records AuthResult Plain_Lib
begin

text \<open>
  Nameservers and pools of them: \<open>response.go\<close>, \<open>nameserver.go\<close>, \<open>pool.go\<close> and
  \<open>pool_exchange.go\<close>. The network is the DNS client of the library: a state of the outside world
  and a function that sends a message to an address over a protocol and returns what came back.
  The context carries names for log messages only and is left out; times are Unix seconds.
\<close>

section \<open>Responses\<close>

record Response =
  r_Msg :: "Msg option"
  r_Err :: "error option"
  r_Duration :: int
  r_Doe :: DenialOfExistenceState
  r_Auth :: AuthenticationResult

text \<open>The methods have a pointer receiver and are called on nil as well.\<close>

definition HasError :: "Response option \<Rightarrow> bool" where
  "HasError r \<longleftrightarrow> (case r of None \<Rightarrow> False | Some r \<Rightarrow> r_Err r \<noteq> None)"

definition IsEmpty :: "Response option \<Rightarrow> bool" where
  "IsEmpty r \<longleftrightarrow> (case r of None \<Rightarrow> True | Some r \<Rightarrow> r_Msg r = None)"

definition truncated :: "Response option \<Rightarrow> bool" where
  "truncated r = (case r of None \<Rightarrow> False | Some r \<Rightarrow> (case r_Msg r of None \<Rightarrow> False | Some m \<Rightarrow> mTruncated m))"

definition new_Response :: Response where
  "new_Response = \<lparr>r_Msg = None, r_Err = None, r_Duration = 0, r_Doe = NotFound, r_Auth = Unknown\<rparr>"

definition newResponseError :: "error \<Rightarrow> Response" where
  "newResponseError e = new_Response\<lparr>r_Err := Some e\<rparr>"

text \<open>A response is usable by its caller if it has a message or an error.\<close>

definition usable :: "Response \<Rightarrow> bool" where
  "usable r \<longleftrightarrow> r_Msg r \<noteq> None \<or> r_Err r \<noteq> None"

lemma response_simps [simp]:
  "HasError (Some r) \<longleftrightarrow> r_Err r \<noteq> None" "IsEmpty (Some r) \<longleftrightarrow> r_Msg r = None"
  "\<not> HasError None" "IsEmpty None" "\<not> truncated None"
  by (simp_all add: HasError_def IsEmpty_def truncated_def)

lemma usable_newResponseError [simp]: "usable (newResponseError e)"
  by (simp add: usable_def newResponseError_def)

section \<open>Nameservers\<close>

record nameserver =
  hostname :: string
  addr :: string

text \<open>The counters of a nameserver; the ratio of protocols, a float for display, is left out.\<close>

record metrics =
  numberOfRequests :: u32
  totalResponseTime :: int
  averageResponseTime :: int
  numberOfTcpRequests :: u32

text \<open>Go panics when it divides by zero.\<close>

definition updateMetrics :: "metrics \<Rightarrow> string \<Rightarrow> int \<Rightarrow> metrics option" where
  "updateMetrics ms protocol duration =
     (let n = numberOfRequests ms + 1;
          total = totalResponseTime ms + duration
      in if n = 0 then None
         else Some (ms\<lparr>numberOfRequests := n, totalResponseTime := total,
                averageResponseTime := total sdiv uint n,
                numberOfTcpRequests := (if protocol = ''tcp'' then numberOfTcpRequests ms + 1 else numberOfTcpRequests ms)\<rparr>))"

text \<open>The network: the world after the exchange, the message, the duration and the error.\<close>

type_synonym 'w network = "'w \<Rightarrow> string \<Rightarrow> nameserver \<Rightarrow> Msg \<Rightarrow> 'w \<times> Msg option \<times> int \<times> error option"

text \<open>\<open>ExchangeContext\<close> returns a message when it returns no error.\<close>

definition network_ok :: "'w network \<Rightarrow> bool" where
  "network_ok net \<longleftrightarrow> (\<forall>w p ns m. snd (snd (snd (net w p ns m))) = None \<longrightarrow> fst (snd (net w p ns m)) \<noteq> None)"

text \<open>The loop over the protocols; the first question of the message is read for the log.\<close>

fun protocol_loop :: "'w network \<Rightarrow> nameserver \<Rightarrow> Msg \<Rightarrow> 'w \<Rightarrow> Response \<Rightarrow> string list \<Rightarrow> ('w \<times> Response) option" where
  "protocol_loop net ns m w r [] = Some (w, r)"
| "protocol_loop net ns m w r (protocol # rest) =
     (let (w1, msg, dur, err) = net w protocol ns m;
          r1 = r\<lparr>r_Msg := msg, r_Duration := dur, r_Err := err\<rparr>
      in do {
        _ \<leftarrow> at (mQuestion m) 0;
        if err \<noteq> None then protocol_loop net ns m w1 r1 rest
        else do {
          rm \<leftarrow> msg;
          if \<not> mTruncated rm then Some (w1, r1) else protocol_loop net ns m w1 r1 rest
        }
      })"

definition nameserver_exchange :: "'w network \<Rightarrow> nameserver \<Rightarrow> 'w \<Rightarrow> Msg option \<Rightarrow> ('w \<times> Response) option" where
  "nameserver_exchange net ns w m =
     (case m of
        None \<Rightarrow> Some (w, newResponseError (Errorf [RErr ErrNilMessageSentToExchange]))
      | Some m \<Rightarrow> protocol_loop net ns m w new_Response [''udp'', ''tcp''])"

section \<open>Pools\<close>

datatype NameserverPoolStatus =
    PoolEmpty
  | PoolExpired
  | PoolHasHostnamesButNoIpAddresses
  | PrimedButNeedsEnhancing
  | PoolPrimed

record nameserverPool =
  hostsWithoutAddresses :: "string list"
  ipv4 :: "nameserver list"
  ipv4Next :: u32
  ipv4Count :: u32
  ipv6 :: "nameserver list"
  ipv6Next :: u32
  ipv6Count :: u32
  expires :: int

definition new_pool :: nameserverPool where
  "new_pool = \<lparr>hostsWithoutAddresses = [], ipv4 = [], ipv4Next = 0, ipv4Count = 0, ipv6 = [], ipv6Next = 0, ipv6Count = 0, expires = 0\<rparr>"

definition hasIPv4 :: "nameserverPool \<Rightarrow> bool" where
  "hasIPv4 pool \<longleftrightarrow> ipv4Count pool > 0"

definition hasIPv6 :: "nameserverPool \<Rightarrow> bool" where
  "hasIPv6 pool \<longleftrightarrow> ipv6Count pool > 0"

definition getIPv4 :: "nameserverPool \<Rightarrow> nameserverPool \<times> nameserver option" where
  "getIPv4 pool =
     (if hasIPv4 pool then
        let i = ipv4Next pool mod ipv4Count pool
        in (pool\<lparr>ipv4Next := i + 1\<rparr>, if unat i < length (ipv4 pool) then Some (ipv4 pool ! unat i) else None)
      else (pool, None))"

definition getIPv6 :: "nameserverPool \<Rightarrow> nameserverPool \<times> nameserver option" where
  "getIPv6 pool =
     (if hasIPv6 pool then
        let i = ipv6Next pool mod ipv6Count pool
        in (pool\<lparr>ipv6Next := i + 1\<rparr>, if unat i < length (ipv6 pool) then Some (ipv6 pool ! unat i) else None)
      else (pool, None))"

definition pool_expired :: "nameserverPool \<Rightarrow> int \<Rightarrow> bool" where
  "pool_expired pool now \<longleftrightarrow> expires pool > 0 \<and> expires pool < now"

text \<open>\<open>v6\<close> is the result of \<open>IPv6Available\<close>, \<open>desired\<close> is \<open>DesireNumberOfNameserversPerZone\<close>.\<close>

definition pool_status :: "bool \<Rightarrow> int \<Rightarrow> nameserverPool \<Rightarrow> NameserverPoolStatus" where
  "pool_status v6 desired pool =
     (let n4 = length (ipv4 pool); n6 = length (ipv6 pool);
          total = (if v6 then n4 + n6 else n4)
      in if n4 = 0 \<and> n6 = 0 \<and> length (hostsWithoutAddresses pool) = 0 then PoolEmpty
         else if total = 0 then PoolHasHostnamesButNoIpAddresses
         else if int total < desired \<and> length (hostsWithoutAddresses pool) > 0 then PrimedButNeedsEnhancing
         else PoolPrimed)"

definition updateIPCount :: "nameserverPool \<Rightarrow> nameserverPool" where
  "updateIPCount pool = pool\<lparr>ipv4Count := of_nat (length (ipv4 pool)), ipv6Count := of_nat (length (ipv6 pool))\<rparr>"

text \<open>The addresses of a host among some records, and the smallest TTL of those records.\<close>

fun address_loop :: "dnslib \<Rightarrow> string \<Rightarrow> nameserver list \<Rightarrow> nameserver list \<Rightarrow> u32 \<Rightarrow> RR list
    \<Rightarrow> nameserver list \<times> nameserver list \<times> u32" where
  "address_loop L host a aaaa ttl [] = (a, aaaa, ttl)"
| "address_loop L host a aaaa ttl (rr # rrs) =
     (if CanonicalName L (rr_name rr) \<noteq> host then address_loop L host a aaaa ttl rrs
      else (case Rdata rr of
              A_R ip \<Rightarrow> address_loop L host (a @ [\<lparr>hostname = rr_name rr, addr = ip\<rparr>]) aaaa (min (rr_ttl rr) ttl) rrs
            | AAAA_R ip \<Rightarrow> address_loop L host a (aaaa @ [\<lparr>hostname = rr_name rr, addr = ip\<rparr>]) (min (rr_ttl rr) ttl) rrs
            | _ \<Rightarrow> address_loop L host a aaaa ttl rrs))"

definition findAddressesForHostname :: "dnslib \<Rightarrow> u32 \<Rightarrow> string \<Rightarrow> RR list \<Rightarrow> nameserver list \<times> nameserver list \<times> u32" where
  "findAddressesForHostname L maxTTL host records = address_loop L host [] [] maxTTL records"

text \<open>
  The loops of \<open>newNameserverPool\<close> and \<open>enrich\<close> over the hosts: the hosts left without an address,
  the addresses found and the TTL. A nameserver record is a pair of its header and host.
\<close>

fun nameserver_loop :: "dnslib \<Rightarrow> u32 \<Rightarrow> RR list \<Rightarrow> nameserverPool \<Rightarrow> u32 \<Rightarrow> (RR_Header \<times> string) list \<Rightarrow> nameserverPool \<times> u32" where
  "nameserver_loop L maxTTL extra pool ttl [] = (pool, ttl)"
| "nameserver_loop L maxTTL extra pool ttl ((h, ns) # rest) =
     (let host = CanonicalName L ns; ttl1 = min (hTtl h) ttl;
          (a, aaaa, minTtlSeen) = findAddressesForHostname L maxTTL host extra
      in if length a = 0 \<and> length aaaa = 0
         then nameserver_loop L maxTTL extra (pool\<lparr>hostsWithoutAddresses := hostsWithoutAddresses pool @ [host]\<rparr>) ttl1 rest
         else nameserver_loop L maxTTL extra (pool\<lparr>ipv4 := ipv4 pool @ a, ipv6 := ipv6 pool @ aaaa\<rparr>) (min minTtlSeen ttl1) rest)"

definition newNameserverPool :: "dnslib \<Rightarrow> u32 \<Rightarrow> int \<Rightarrow> (RR_Header \<times> string) list \<Rightarrow> RR list \<Rightarrow> nameserverPool" where
  "newNameserverPool L maxTTL now nameservers extra =
     (let (pool, ttl) = nameserver_loop L maxTTL extra new_pool maxTTL nameservers
      in updateIPCount (pool\<lparr>expires := now + uint ttl\<rparr>))"

fun enrich_loop :: "dnslib \<Rightarrow> u32 \<Rightarrow> RR list \<Rightarrow> nameserverPool \<Rightarrow> string list \<Rightarrow> u32 \<Rightarrow> string list \<Rightarrow> nameserverPool \<times> string list \<times> u32" where
  "enrich_loop L maxTTL records pool still ttl [] = (pool, still, ttl)"
| "enrich_loop L maxTTL records pool still ttl (host # hosts) =
     (let (a, aaaa, minTtlSeen) = findAddressesForHostname L maxTTL host records
      in if length a = 0 \<and> length aaaa = 0
         then enrich_loop L maxTTL records pool (still @ [host]) ttl hosts
         else enrich_loop L maxTTL records (pool\<lparr>ipv4 := ipv4 pool @ a, ipv6 := ipv6 pool @ aaaa\<rparr>) still (min minTtlSeen ttl) hosts)"

definition enrich :: "dnslib \<Rightarrow> u32 \<Rightarrow> int \<Rightarrow> nameserverPool \<Rightarrow> RR list \<Rightarrow> nameserverPool" where
  "enrich L maxTTL now pool records =
     (if length records = 0 then pool
      else
        let (pool1, still, ttl) = enrich_loop L maxTTL records pool [] maxTTL (hostsWithoutAddresses pool);
            pool2 = (if expires pool1 > 0 then pool1\<lparr>expires := now + uint ttl\<rparr> else pool1)
        in updateIPCount (pool2\<lparr>hostsWithoutAddresses := still\<rparr>))"

section \<open>Asking a pool\<close>

text \<open>Asking the server that was chosen, if there is one; otherwise the response stays as it is.\<close>

definition ask :: "'w network \<Rightarrow> 'w \<Rightarrow> Msg \<Rightarrow> Response option \<Rightarrow> nameserverPool \<times> nameserver option
    \<Rightarrow> (nameserverPool \<times> 'w \<times> Response option) option" where
  "ask net w m r choice =
     (case choice of
        (pool, None) \<Rightarrow> Some (pool, w, r)
      | (pool, Some server) \<Rightarrow> do { (w1, r1) \<leftarrow> nameserver_exchange net server w (Some m); Some (pool, w1, Some r1) })"

definition pool_exchange :: "bool \<Rightarrow> 'w network \<Rightarrow> nameserverPool \<Rightarrow> 'w \<Rightarrow> Msg \<Rightarrow> (nameserverPool \<times> 'w \<times> Response) option" where
  "pool_exchange v6 net pool w m =
     (let has4 = hasIPv4 pool; has6 = hasIPv6 pool
      in if \<not> has4 \<and> \<not> has6 then Some (pool, w, newResponseError (Errorf [RErr ErrNoPoolConfiguredForZone]))
         else do {
           (pool1, w1, response1) \<leftarrow> ask net w m None (if has6 \<and> v6 then getIPv6 pool else getIPv4 pool);
           (pool2, w2, response2) \<leftarrow>
             (if IsEmpty response1 \<or> HasError response1 \<or> truncated response1
              then ask net w1 m response1 (if has4 then getIPv4 pool1 else getIPv6 pool1)
              else Some (pool1, w1, response1));
           if IsEmpty response2 \<or> HasError response2 then do {
             _ \<leftarrow> at (mQuestion m) 0;
             r \<leftarrow> response2;
             let err = Errorf [RErr ErrUnableToResolveAnswer];
             Some (pool2, w2, r\<lparr>r_Err := Some (case r_Err r of Some e \<Rightarrow> Errorf [e, err] | None \<Rightarrow> err)\<rparr>)
           }
           else do { r \<leftarrow> response2; Some (pool2, w2, r) }
         })"

section \<open>A nameserver answers\<close>

lemma protocol_loop_usable:
  assumes "network_ok net" "mQuestion m \<noteq> []" "ps \<noteq> [] \<or> usable r"
  shows "\<exists>w' r'. protocol_loop net ns m w r ps = Some (w', r') \<and> usable r'"
  using assms(3)
proof (induction ps arbitrary: w r)
  case (Cons p ps)
  obtain w1 msg dur err where n: "net w p ns m = (w1, msg, dur, err)" by (cases "net w p ns m") auto
  with assms(1) have msg: "err = None \<Longrightarrow> msg \<noteq> None" unfolding network_ok_def by (metis fst_conv snd_conv)
  then have u: "usable (r\<lparr>r_Msg := msg, r_Duration := dur, r_Err := err\<rparr>)" by (auto simp: usable_def)
  from assms(2) obtain q where q: "at (mQuestion m) 0 = Some q" by (cases "mQuestion m") auto
  show ?case
  proof (cases err)
    case None
    with msg obtain rm where "msg = Some rm" by auto
    with None n q u Cons.IH show ?thesis by (simp add: Let_def)
  next
    case (Some e)
    with n q u Cons.IH show ?thesis by (simp add: Let_def)
  qed
qed auto

lemma nameserver_exchange_usable:
  assumes "network_ok net" "mQuestion m \<noteq> []"
  shows "\<exists>w' r. nameserver_exchange net ns w (Some m) = Some (w', r) \<and> usable r"
  using protocol_loop_usable [OF assms, of "[''udp'', ''tcp'']" new_Response ns w]
  by (simp add: nameserver_exchange_def del: protocol_loop.simps)

text \<open>
  TCP is tried exactly when UDP does not do. A nameserver is asked over UDP first; if that gives
  a message that is not truncated, it is the response and TCP is not used; otherwise the response is
  what TCP gives, whether it is an error, truncated or complete.
\<close>

theorem nameserver_udp_then_tcp:
  assumes "network_ok net" "mQuestion m \<noteq> []"
    and "net w ''udp'' ns m = (w1, m1, d1, e1)" "net w1 ''tcp'' ns m = (w2, m2, d2, e2)"
  shows "nameserver_exchange net ns w (Some m) =
    (if e1 = None \<and> (\<exists>msg. m1 = Some msg \<and> \<not> mTruncated msg)
     then Some (w1, new_Response\<lparr>r_Msg := m1, r_Duration := d1, r_Err := e1\<rparr>)
     else Some (w2, new_Response\<lparr>r_Msg := m2, r_Duration := d2, r_Err := e2\<rparr>))"
proof -
  from assms(2) obtain q where q: "at (mQuestion m) 0 = Some q" by (cases "mQuestion m") auto
  have 1: "e1 = None \<Longrightarrow> m1 \<noteq> None" and 2: "e2 = None \<Longrightarrow> m2 \<noteq> None"
    using assms(1,3,4) unfolding network_ok_def by (metis fst_conv snd_conv)+
  show ?thesis
  proof (cases "e1 = None")
    case True
    with 1 obtain msg where "m1 = Some msg" by auto
    with True 2 q assms(3,4) show ?thesis
      by (cases "e2 = None") (auto simp: nameserver_exchange_def new_Response_def Let_def)
  next
    case False
    with 2 q assms(3,4) show ?thesis
      by (cases "e2 = None") (auto simp: nameserver_exchange_def new_Response_def Let_def)
  qed
qed

section \<open>Round robin\<close>

text \<open>The counters agree with the lists.\<close>

definition coherent :: "nameserverPool \<Rightarrow> bool" where
  "coherent pool \<longleftrightarrow> unat (ipv4Count pool) = length (ipv4 pool) \<and> unat (ipv6Count pool) = length (ipv6 pool)"

lemma hasIPv4_iff: "coherent pool \<Longrightarrow> hasIPv4 pool \<longleftrightarrow> ipv4 pool \<noteq> []"
  by (auto simp: coherent_def hasIPv4_def word_gt_0 unat_eq_0 [symmetric] simp del: unat_eq_0)

lemma hasIPv6_iff: "coherent pool \<Longrightarrow> hasIPv6 pool \<longleftrightarrow> ipv6 pool \<noteq> []"
  by (auto simp: coherent_def hasIPv6_def word_gt_0 unat_eq_0 [symmetric] simp del: unat_eq_0)

lemma getIPv4_coherent:
  assumes "coherent pool" "ipv4 pool \<noteq> []"
  shows "getIPv4 pool = (pool\<lparr>ipv4Next := ipv4Next pool mod ipv4Count pool + 1\<rparr>,
    Some (ipv4 pool ! (unat (ipv4Next pool) mod length (ipv4 pool))))"
  using assms hasIPv4_iff [OF assms(1)]
  by (simp add: getIPv4_def Let_def unat_mod_distrib) (simp add: coherent_def)

lemma getIPv6_coherent:
  assumes "coherent pool" "ipv6 pool \<noteq> []"
  shows "getIPv6 pool = (pool\<lparr>ipv6Next := ipv6Next pool mod ipv6Count pool + 1\<rparr>,
    Some (ipv6 pool ! (unat (ipv6Next pool) mod length (ipv6 pool))))"
  using assms hasIPv6_iff [OF assms(1)]
  by (simp add: getIPv6_def Let_def unat_mod_distrib) (simp add: coherent_def)

text \<open>The successor of an index below a bound does not wrap.\<close>

lemma unat_mod_Suc:
  assumes "(c :: u32) \<noteq> 0"
  shows "unat (n mod c + 1) = unat n mod unat c + 1"
proof -
  have "unat n mod unat c < unat c" using assms by (simp add: unat_gt_0)
  moreover have "unat c < 2 ^ LENGTH(32)" by (rule unsigned_less)
  ultimately have "unat n mod unat c + 1 < 2 ^ 32" by simp
  then show ?thesis by (simp add: unat_word_ariths unat_mod_distrib)
qed

fun pick :: "nat \<Rightarrow> nameserverPool \<Rightarrow> nameserver option list" where
  "pick 0 pool = []"
| "pick (Suc k) pool = (let (pool1, s) = getIPv4 pool in s # pick k pool1)"

lemma pick_round_robin:
  assumes "coherent pool" "ipv4 pool \<noteq> []"
  shows "pick k pool = map (\<lambda>j. Some (ipv4 pool ! ((unat (ipv4Next pool) + j) mod length (ipv4 pool)))) [0..<k]"
  using assms
proof (induction k arbitrary: pool)
  case (Suc k)
  let ?n = "length (ipv4 pool)"
  let ?pool = "pool\<lparr>ipv4Next := ipv4Next pool mod ipv4Count pool + 1\<rparr>"
  have "ipv4Count pool \<noteq> 0" using Suc.prems by (auto simp: coherent_def)
  then have nxt: "unat (ipv4Next ?pool) = unat (ipv4Next pool) mod ?n + 1"
    using Suc.prems(1) by (simp add: unat_mod_Suc coherent_def)
  have "(unat (ipv4Next ?pool) + j) mod ?n = (unat (ipv4Next pool) + Suc j) mod ?n" for j
    unfolding nxt by (metis Suc_eq_plus1 add.assoc add.commute mod_add_left_eq plus_1_eq_Suc)
  with Suc.IH [of ?pool] Suc.prems
  have "pick k ?pool = map (\<lambda>j. Some (ipv4 pool ! ((unat (ipv4Next pool) + Suc j) mod ?n))) [0..<k]"
    by (simp add: coherent_def)
  moreover have "[0..<Suc k] = 0 # map Suc [0..<k]" by (simp add: map_Suc_upt upt_conv_Cons del: upt_Suc)
  ultimately show ?case
    using getIPv4_coherent [OF Suc.prems] by (simp add: comp_def del: upt_Suc map_Suc_upt)
qed simp

text \<open>
  Round robin. Asking a pool for a server \<open>k\<close> times in a row walks through its IPv4 servers in
  order from the current position and starts over at the end; in particular, as many requests as
  there are servers use every one of them once.
\<close>

theorem getIPv4_round_robin:
  assumes "coherent pool" "ipv4 pool \<noteq> []"
  shows "pick k pool = map (\<lambda>j. Some (ipv4 pool ! ((unat (ipv4Next pool) + j) mod length (ipv4 pool)))) [0..<k]"
  by (rule pick_round_robin [OF assms])

section \<open>A pool answers\<close>

definition pool_ready :: "nameserverPool \<Rightarrow> bool" where
  "pool_ready pool \<longleftrightarrow> coherent pool \<and> (ipv4 pool \<noteq> [] \<or> ipv6 pool \<noteq> [])"

text \<open>Choosing a server changes a position only.\<close>

definition same_servers :: "nameserverPool \<Rightarrow> nameserverPool \<Rightarrow> bool" where
  "same_servers pool pool' \<longleftrightarrow> hostsWithoutAddresses pool' = hostsWithoutAddresses pool \<and>
     ipv4 pool' = ipv4 pool \<and> ipv4Count pool' = ipv4Count pool \<and>
     ipv6 pool' = ipv6 pool \<and> ipv6Count pool' = ipv6Count pool \<and> expires pool' = expires pool"

lemma same_servers_refl [simp]: "same_servers pool pool"
  by (simp add: same_servers_def)

lemma same_servers_trans: "same_servers p q \<Longrightarrow> same_servers q r \<Longrightarrow> same_servers p r"
  by (simp add: same_servers_def)

lemma same_servers_get: "same_servers pool (fst (getIPv4 pool))" "same_servers pool (fst (getIPv6 pool))"
  by (simp_all add: getIPv4_def getIPv6_def Let_def same_servers_def)

lemma same_servers_coherent:
  "same_servers pool pool' \<Longrightarrow> coherent pool' = coherent pool \<and> ipv4 pool' = ipv4 pool \<and> ipv6 pool' = ipv6 pool"
  by (simp add: same_servers_def coherent_def)

lemma ask_usable:
  assumes "network_ok net" "mQuestion m \<noteq> []" "snd choice \<noteq> None \<or> (\<exists>r1. r = Some r1 \<and> usable r1)"
  shows "\<exists>w' r'. ask net w m r choice = Some (fst choice, w', Some r') \<and> usable r'"
proof (cases "snd choice")
  case None
  with assms(3) show ?thesis by (cases choice) (auto simp: ask_def)
next
  case (Some s)
  from nameserver_exchange_usable [OF assms(1,2), of s w] obtain w' r'
    where "nameserver_exchange net s w (Some m) = Some (w', r')" "usable r'" by blast
  with Some show ?thesis by (cases choice) (simp add: ask_def)
qed

text \<open>
  The first try may find no server, when there are only IPv6 servers and IPv6 is not available;
  the second try then has one.
\<close>

lemma pool_exchange_ready:
  assumes net: "network_ok net" and q: "mQuestion m \<noteq> []" and pool: "pool_ready pool"
  shows "\<exists>pool' w' r. pool_exchange v6 net pool w m = Some (pool', w', r) \<and> usable r \<and> same_servers pool pool' \<and>
    (r_Err r = None \<longrightarrow> r_Msg r \<noteq> None)"
proof -
  from pool have coh: "coherent pool" by (simp add: pool_ready_def)
  note has = hasIPv4_iff [OF coh] hasIPv6_iff [OF coh]
  from q obtain q0 where q0: "at (mQuestion m) 0 = Some q0" by (cases "mQuestion m") auto
  let ?c1 = "if hasIPv6 pool \<and> v6 then getIPv6 pool else getIPv4 pool"
  have s1: "same_servers pool (fst ?c1)" by (simp add: same_servers_get)
  have "\<exists>w1 r1. ask net w m None ?c1 = Some (fst ?c1, w1, r1) \<and> (r1 = None \<longrightarrow> \<not> hasIPv4 pool) \<and> (\<forall>r. r1 = Some r \<longrightarrow> usable r)"
  proof (cases "snd ?c1")
    case None
    then have "\<not> hasIPv4 pool"
      using has getIPv4_coherent [OF coh] getIPv6_coherent [OF coh] by (auto split: if_splits)
    with None show ?thesis by (cases ?c1) (auto simp: ask_def)
  next
    case (Some s)
    with ask_usable [OF net q, of ?c1 None w] show ?thesis by auto
  qed
  then obtain w1 r1 where a1: "ask net w m None ?c1 = Some (fst ?c1, w1, r1)" "r1 = None \<Longrightarrow> \<not> hasIPv4 pool"
    "\<And>r. r1 = Some r \<Longrightarrow> usable r" by blast
  let ?c2 = "if hasIPv4 pool then getIPv4 (fst ?c1) else getIPv6 (fst ?c1)"
  let ?again = "IsEmpty r1 \<or> HasError r1 \<or> truncated r1"
  have s2: "same_servers pool (fst ?c2)"
    using same_servers_trans [OF s1] by (auto simp: same_servers_get)
  have coh1: "coherent (fst ?c1)" and v: "ipv4 (fst ?c1) = ipv4 pool" "ipv6 (fst ?c1) = ipv6 pool"
    using same_servers_coherent [OF s1] coh by simp_all
  have "snd ?c2 \<noteq> None"
  proof (cases "hasIPv4 pool")
    case True
    with has v getIPv4_coherent [OF coh1] show ?thesis by simp
  next
    case False
    with has pool v getIPv6_coherent [OF coh1] show ?thesis by (simp add: pool_ready_def)
  qed
  with ask_usable [OF net q, of ?c2 r1 w1] obtain w2 r2
    where a2: "ask net w1 m r1 ?c2 = Some (fst ?c2, w2, Some r2)" "usable r2" by blast
  have has': "hasIPv4 pool \<or> hasIPv6 pool" using pool has by (auto simp: pool_ready_def)
  show ?thesis
  proof (cases ?again)
    case True
    with has' a1(1) a2 q0 s2 show ?thesis
      by (auto simp: pool_exchange_def Let_def usable_def)
  next
    case False
    then obtain r where r: "r1 = Some r" by (cases r1) auto
    with False has' a1 s1 show ?thesis
      by (auto simp: pool_exchange_def Let_def)
  qed
qed

text \<open>
  C30: asking a pool always gives a response. For a message with a question and a pool that has a
  server of either kind and counters that agree with its lists, \<open>exchange\<close> does not panic, also
  where IPv6 is not available and all servers have IPv6 addresses; the response has a message or an
  error, and the servers of the pool are as before.
\<close>

theorem pool_exchange_total:
  assumes "network_ok net" "mQuestion m \<noteq> []" "pool_ready pool"
  shows "\<exists>pool' w' r. pool_exchange v6 net pool w m = Some (pool', w', r) \<and> usable r \<and> same_servers pool pool' \<and>
    (r_Err r = None \<longrightarrow> r_Msg r \<noteq> None)"
  by (rule pool_exchange_ready [OF assms])

text \<open>
  What the rest of the program relies on when it calls \<open>exchange\<close>: as long as the state is in
  order, a message with a question gets a response that has a message or an error.
\<close>

locale exchanger =
  fixes exch :: "'s \<Rightarrow> Msg \<Rightarrow> ('s \<times> Response) option" and inv :: "'s \<Rightarrow> bool"
  assumes answers: "inv s \<Longrightarrow> mQuestion m \<noteq> [] \<Longrightarrow> \<exists>s' r. exch s m = Some (s', r) \<and> inv s' \<and> usable r"

definition pool_server :: "bool \<Rightarrow> 'w network \<Rightarrow> nameserverPool \<times> 'w \<Rightarrow> Msg \<Rightarrow> ((nameserverPool \<times> 'w) \<times> Response) option" where
  "pool_server v6 net s m = map_option (\<lambda>(pool, w, r). ((pool, w), r)) (pool_exchange v6 net (fst s) (snd s) m)"

definition pool_server_ok :: "'w network \<Rightarrow> nameserverPool \<times> 'w \<Rightarrow> bool" where
  "pool_server_ok net s \<longleftrightarrow> network_ok net \<and> pool_ready (fst s)"

interpretation pool: exchanger "pool_server v6 net" "pool_server_ok net" for v6 net
proof unfold_locales
  fix s and m :: Msg
  assume s: "pool_server_ok net s" and m: "mQuestion m \<noteq> []"
  then obtain pool' w' r where "pool_exchange v6 net (fst s) (snd s) m = Some (pool', w', r)" "usable r"
    "same_servers (fst s) pool'"
    using pool_exchange_ready [of net m "fst s" v6 "snd s"] by (auto simp: pool_server_ok_def)
  with s same_servers_coherent [of "fst s" pool'] show
    "\<exists>s' r. pool_server v6 net s m = Some (s', r) \<and> pool_server_ok net s' \<and> usable r"
    by (auto simp: pool_server_def pool_server_ok_def pool_ready_def)
qed

section \<open>Building and enriching a pool\<close>

text \<open>The addresses of a host in some records, and the TTLs they come with.\<close>

definition addresses4 :: "dnslib \<Rightarrow> string \<Rightarrow> RR list \<Rightarrow> nameserver list" where
  "addresses4 L host rrs = List.map_filter (\<lambda>rr. if CanonicalName L (rr_name rr) = host
     then (case Rdata rr of A_R ip \<Rightarrow> Some \<lparr>hostname = rr_name rr, addr = ip\<rparr> | _ \<Rightarrow> None) else None) rrs"

definition addresses6 :: "dnslib \<Rightarrow> string \<Rightarrow> RR list \<Rightarrow> nameserver list" where
  "addresses6 L host rrs = List.map_filter (\<lambda>rr. if CanonicalName L (rr_name rr) = host
     then (case Rdata rr of AAAA_R ip \<Rightarrow> Some \<lparr>hostname = rr_name rr, addr = ip\<rparr> | _ \<Rightarrow> None) else None) rrs"

definition is_address :: "dnslib \<Rightarrow> string \<Rightarrow> RR \<Rightarrow> bool" where
  "is_address L host rr \<longleftrightarrow> CanonicalName L (rr_name rr) = host \<and>
     (case Rdata rr of A_R _ \<Rightarrow> True | AAAA_R _ \<Rightarrow> True | _ \<Rightarrow> False)"

lemma address_loop_spec [loop_specs]:
  "address_loop L host a aaaa ttl rrs =
     (a @ addresses4 L host rrs, aaaa @ addresses6 L host rrs, min_over rr_ttl ttl (filter (is_address L host) rrs))"
  by (induction rrs arbitrary: a aaaa ttl)
    (simp_all add: addresses4_def addresses6_def is_address_def map_filter_simps min.commute split: rdata.splits)

lemma findAddresses_spec:
  "findAddressesForHostname L maxTTL host rrs =
     (addresses4 L host rrs, addresses6 L host rrs, min_over rr_ttl maxTTL (filter (is_address L host) rrs))"
  by (simp add: findAddressesForHostname_def loop_specs)

definition without_address :: "dnslib \<Rightarrow> RR list \<Rightarrow> string \<Rightarrow> bool" where
  "without_address L rrs host \<longleftrightarrow> addresses4 L host rrs = [] \<and> addresses6 L host rrs = []"

lemma no_address_iff: "without_address L rrs host \<longleftrightarrow> (\<forall>rr \<in> set rrs. \<not> is_address L host rr)"
  by (induction rrs)
    (auto simp: without_address_def addresses4_def addresses6_def is_address_def map_filter_simps split: rdata.splits)

lemma nameserver_loop_spec:
  "nameserver_loop L maxTTL extra pool ttl nss =
     (pool\<lparr>hostsWithoutAddresses := hostsWithoutAddresses pool @ filter (without_address L extra) (map (\<lambda>ns. CanonicalName L (snd ns)) nss),
           ipv4 := ipv4 pool @ concat (map (\<lambda>ns. addresses4 L (CanonicalName L (snd ns)) extra) nss),
           ipv6 := ipv6 pool @ concat (map (\<lambda>ns. addresses6 L (CanonicalName L (snd ns)) extra) nss)\<rparr>,
      snd (nameserver_loop L maxTTL extra pool ttl nss))"
proof (induction L maxTTL extra pool ttl nss rule: nameserver_loop.induct)
  case (2 L maxTTL extra pool ttl h ns rest)
  then show ?case
    by (cases "without_address L extra (CanonicalName L ns)")
      (auto simp: findAddresses_spec Let_def without_address_def)
qed simp

lemma nameserver_loop_ttl:
  "c \<le> snd (nameserver_loop L maxTTL extra pool ttl nss) \<longleftrightarrow> c \<le> ttl \<and>
     (\<forall>ns \<in> set nss. c \<le> hTtl (fst ns) \<and>
        (\<forall>rr \<in> set extra. is_address L (CanonicalName L (snd ns)) rr \<longrightarrow> c \<le> rr_ttl rr \<and> c \<le> maxTTL))"
proof (induction nss arbitrary: pool ttl)
  case (Cons x nss)
  obtain h ns where x: "x = (h, ns)" by (cases x)
  show ?case
  proof (cases "without_address L extra (CanonicalName L ns)")
    case True
    with x Cons.IH no_address_iff [of L extra "CanonicalName L ns"] show ?thesis
      by (auto simp: findAddresses_spec Let_def without_address_def)
  next
    case False
    then have "nameserver_loop L maxTTL extra pool ttl (x # nss) = nameserver_loop L maxTTL extra
        (pool\<lparr>ipv4 := ipv4 pool @ addresses4 L (CanonicalName L ns) extra, ipv6 := ipv6 pool @ addresses6 L (CanonicalName L ns) extra\<rparr>)
        (min (min_over rr_ttl maxTTL (filter (is_address L (CanonicalName L ns)) extra)) (min (hTtl h) ttl)) nss"
      using x by (auto simp: findAddresses_spec Let_def without_address_def)
    with Cons.IH x no_address_iff [of L extra "CanonicalName L ns"] False show ?thesis
      by (auto simp: le_min_over_iff)
  qed
qed simp

text \<open>
  A new pool. It has an address for exactly the hosts that the extra records give one for and
  keeps the names of the others; and it expires at the latest after the configured maximum, after
  the TTL of any of the NS records, and after the TTL of any of the address records it uses.
\<close>

theorem newNameserverPool_spec:
  "let pool = newNameserverPool L maxTTL now nss extra; hosts = map (\<lambda>ns. CanonicalName L (snd ns)) nss
   in hostsWithoutAddresses pool = filter (\<lambda>host. \<not> list_ex (is_address L host) extra) hosts \<and>
      ipv4 pool = concat (map (\<lambda>host. addresses4 L host extra) hosts) \<and>
      ipv6 pool = concat (map (\<lambda>host. addresses6 L host extra) hosts) \<and>
      expires pool = now + uint (Min ({maxTTL} \<union> (\<lambda>ns. hTtl (fst ns)) ` set nss \<union>
        rr_ttl ` {rr \<in> set extra. list_ex (\<lambda>host. is_address L host rr) hosts}))"
proof -
  let ?loop = "nameserver_loop L maxTTL extra new_pool maxTTL nss"
  let ?hosts = "map (\<lambda>ns. CanonicalName L (snd ns)) nss"
  let ?ttls = "{maxTTL} \<union> (\<lambda>ns. hTtl (fst ns)) ` set nss \<union> rr_ttl ` {rr \<in> set extra. list_ex (\<lambda>host. is_address L host rr) ?hosts}"
  have f: "filter (without_address L extra) = filter (\<lambda>host. \<not> list_ex (is_address L host) extra)"
    by (rule ext, rule filter_cong) (auto simp: no_address_iff list_ex_iff)
  have "c \<le> snd ?loop \<longleftrightarrow> c \<le> Min ?ttls" for c
  proof -
    have "c \<le> Min ?ttls \<longleftrightarrow> (\<forall>x \<in> ?ttls. c \<le> x)" by (rule Min_ge_iff) auto
    then show ?thesis unfolding nameserver_loop_ttl by (auto simp: list_ex_iff)
  qed
  then have snd: "snd ?loop = Min ?ttls" by (rule eq_by_lower_bounds)
  have fst: "fst ?loop = new_pool\<lparr>hostsWithoutAddresses := filter (without_address L extra) ?hosts,
      ipv4 := concat (map (\<lambda>ns. addresses4 L (CanonicalName L (snd ns)) extra) nss),
      ipv6 := concat (map (\<lambda>ns. addresses6 L (CanonicalName L (snd ns)) extra) nss)\<rparr>"
    by (subst nameserver_loop_spec) (simp add: new_pool_def)
  have "newNameserverPool L maxTTL now nss extra = updateIPCount ((fst ?loop)\<lparr>expires := now + uint (snd ?loop)\<rparr>)"
    by (simp add: newNameserverPool_def case_prod_beta)
  then show ?thesis unfolding fst snd by (simp add: f Let_def updateIPCount_def comp_def)
qed

lemma enrich_loop_spec [loop_specs]:
  "enrich_loop L maxTTL records pool still ttl hosts =
     (pool\<lparr>ipv4 := ipv4 pool @ concat (map (\<lambda>host. addresses4 L host records) hosts),
           ipv6 := ipv6 pool @ concat (map (\<lambda>host. addresses6 L host records) hosts)\<rparr>,
      still @ filter (without_address L records) hosts,
      min_over rr_ttl (if list_all (without_address L records) hosts then ttl else min maxTTL ttl)
        (concat (map (\<lambda>host. filter (is_address L host) records) hosts)))"
proof (induction hosts arbitrary: pool still ttl)
  case (Cons host hosts)
  show ?case
  proof (cases "without_address L records host")
    case True
    then have "filter (is_address L host) records = []" by (simp add: no_address_iff filter_empty_conv)
    with True Cons.IH show ?thesis
      by (auto simp: findAddresses_spec Let_def without_address_def)
  next
    case False
    have m: "min_over rr_ttl a (xs @ ys) = min_over rr_ttl (min (min_over rr_ttl maxTTL xs) b) ys"
      if "a = min maxTTL b" for a b xs ys
    proof -
      have "min_over rr_ttl (min maxTTL b) xs = min (min_over rr_ttl maxTTL xs) b"
        by (induction xs arbitrary: maxTTL b) (simp_all add: min.assoc min.left_commute min.commute)
      with that show ?thesis by (simp add: min_over_append)
    qed
    have "min maxTTL (min (min_over rr_ttl maxTTL xs) b) = min (min_over rr_ttl maxTTL xs) b" for xs b
      using min_over_le_init [of rr_ttl maxTTL xs] by (simp add: min.absorb2 min.coboundedI1)
    with False Cons.IH m show ?thesis
      by (auto simp: findAddresses_spec Let_def without_address_def)
  qed
qed simp

text \<open>
  Enriching a pool keeps every server it has, adds the addresses the records give for the hosts
  that had none, and keeps waiting for exactly the hosts the records say nothing about.
\<close>

lemma enrich_lists:
  "hostsWithoutAddresses (enrich L maxTTL now pool records) =
     filter (\<lambda>host. \<not> list_ex (is_address L host) records) (hostsWithoutAddresses pool) \<and>
   ipv4 (enrich L maxTTL now pool records) =
     ipv4 pool @ concat (map (\<lambda>host. addresses4 L host records) (hostsWithoutAddresses pool)) \<and>
   ipv6 (enrich L maxTTL now pool records) =
     ipv6 pool @ concat (map (\<lambda>host. addresses6 L host records) (hostsWithoutAddresses pool))"
proof -
  have f: "filter (without_address L records) = filter (\<lambda>host. \<not> list_ex (is_address L host) records)"
    by (rule ext, rule filter_cong) (auto simp: no_address_iff list_ex_iff)
  show ?thesis
  proof (cases "records = []")
    case True
    then show ?thesis by (simp add: enrich_def addresses4_def addresses6_def map_filter_simps)
  next
    case False
    then show ?thesis by (simp add: enrich_def loop_specs f updateIPCount_def Let_def)
  qed
qed

lemma enrich_expires: "expires pool \<le> 0 \<Longrightarrow> expires (enrich L maxTTL now pool records) = expires pool"
  by (simp add: enrich_def loop_specs updateIPCount_def Let_def)

lemma enrich_coherent:
  assumes "length (ipv4 (enrich L maxTTL now pool records)) < 2 ^ 32" "length (ipv6 (enrich L maxTTL now pool records)) < 2 ^ 32"
    and "coherent pool"
  shows "coherent (enrich L maxTTL now pool records)"
proof (cases "records = []")
  case True
  with assms(3) show ?thesis by (simp add: enrich_def)
next
  case False
  with assms(1,2) show ?thesis
    by (simp add: enrich_def loop_specs updateIPCount_def Let_def coherent_def unat_of_nat take_bit_nat_eq_self)
qed

section \<open>The properties at concrete pools\<close>

definition ex_server :: "string \<Rightarrow> nameserver" where
  "ex_server a = \<lparr>hostname = ''ns.'', addr = a\<rparr>"

definition ex_pool :: nameserverPool where
  "ex_pool = updateIPCount (new_pool\<lparr>ipv4 := [ex_server ''192.0.2.1'', ex_server ''192.0.2.2''], ipv6 := [ex_server ''2001:db8::1'']\<rparr>)"

text \<open>A network in which UDP answers are truncated.\<close>

definition ex_net :: "nat network" where
  "ex_net = (\<lambda>w p ns m. (Suc w, Some (m\<lparr>mTruncated := (p = ''udp'')\<rparr>), 5, None))"

definition ex_query :: Msg where
  "ex_query = new_Msg\<lparr>mQuestion := [\<lparr>qName = ''a.'', qQtype = TypeA, qQclass = 1\<rparr>]\<rparr>"

lemma ex_net_ok: "network_ok ex_net"
  by (simp add: network_ok_def ex_net_def)

lemma ex_pool_coherent: "coherent ex_pool"
  by code_simp

theorem nameserver_udp_then_tcp_witness:
  "nameserver_exchange ex_net (ex_server ''192.0.2.1'') 0 (Some ex_query) =
     Some (2, new_Response\<lparr>r_Msg := Some (ex_query\<lparr>mTruncated := False\<rparr>), r_Duration := 5, r_Err := None\<rparr>)"
proof -
  have q: "mQuestion ex_query \<noteq> []" by (simp add: ex_query_def)
  have u: "ex_net 0 ''udp'' (ex_server ''192.0.2.1'') ex_query = (1, Some (ex_query\<lparr>mTruncated := True\<rparr>), 5, None)"
    and t: "ex_net 1 ''tcp'' (ex_server ''192.0.2.1'') ex_query = (2, Some (ex_query\<lparr>mTruncated := False\<rparr>), 5, None)"
    by (simp_all add: ex_net_def)
  from nameserver_udp_then_tcp [OF ex_net_ok q u t] show ?thesis by simp
qed

theorem getIPv4_round_robin_witness:
  "pick 3 ex_pool = [Some (ex_server ''192.0.2.1''), Some (ex_server ''192.0.2.2''), Some (ex_server ''192.0.2.1'')]"
proof -
  have ne: "ipv4 ex_pool \<noteq> []" by code_simp
  have "map (\<lambda>j. Some (ipv4 ex_pool ! ((unat (ipv4Next ex_pool) + j) mod length (ipv4 ex_pool)))) [0..<3] =
      [Some (ex_server ''192.0.2.1''), Some (ex_server ''192.0.2.2''), Some (ex_server ''192.0.2.1'')]"
    by code_simp
  with getIPv4_round_robin [OF ex_pool_coherent ne, of 3] show ?thesis by simp
qed

theorem pool_exchange_total_witness:
  "\<exists>pool' w' r. pool_exchange False ex_net (ex_pool\<lparr>ipv4 := [], ipv4Count := 0\<rparr>) 0 ex_query = Some (pool', w', r) \<and> usable r"
proof -
  have "mQuestion ex_query \<noteq> []" "pool_ready (ex_pool\<lparr>ipv4 := [], ipv4Count := 0\<rparr>)" by code_simp+
  from pool_exchange_total [OF ex_net_ok this, of False 0] show ?thesis by blast
qed

section \<open>Where pools fall short\<close>

text \<open>Enriching replaces the expiry: a pool built from NS records of one minute lives for two days.\<close>

definition short_lived :: nameserverPool where
  "short_lived = newNameserverPool plain_lib 172800 1000
     [(\<lparr>hName = ''e.'', hRrtype = TypeNS, hClass = 1, hTtl = 60\<rparr>, ''ns.f.'')] []"

definition unrelated :: "RR list" where
  "unrelated = [\<lparr>Header = \<lparr>hName = ''x.'', hRrtype = TypeA, hClass = 1, hTtl = 5\<rparr>, Rdata = A_R ''192.0.2.9''\<rparr>]"

theorem enrich_extends_expiry:
  "expires short_lived = 1060 \<and> expires (enrich plain_lib 172800 1001 short_lived unrelated) = 173801"
  by code_simp

text \<open>The request counter of a nameserver wraps, and the average is then a division by zero.\<close>

theorem metrics_wrap_panics:
  "numberOfRequests ms = 4294967295 \<Longrightarrow> updateMetrics ms protocol duration = None"
  by (simp add: updateMetrics_def Let_def)

end
