(* ===== verification/Cache_Key.thy ===== *)
theory Cache_Key
  imports Dns
begin

text \<open>
  The keys of the answer cache of \<open>server.go\<close>: how a question is printed into a key, how
  \<open>getAllDomains\<close> splits a key again, and the FNV-1a hash that selects a shard. \<open>fmt.Sprintf\<close>,
  \<open>strings.Split\<close>, \<open>strconv.Atoi\<close> and \<open>hash/fnv\<close> are standard library functions; what the code
  uses of them is written out.
\<close>

section \<open>Decimal numbers\<close>

definition digit :: "nat \<Rightarrow> char" where
  "digit n = char_of (48 + n)"

text \<open>\<open>%d\<close> of an unsigned number.\<close>

fun decimal :: "nat \<Rightarrow> string" where
  "decimal n = (if n < 10 then [digit n] else decimal (n div 10) @ [digit (n mod 10)])"

declare decimal.simps [simp del]

definition is_digit :: "char \<Rightarrow> bool" where
  "is_digit c \<longleftrightarrow> 48 \<le> (of_char c :: nat) \<and> (of_char c :: nat) \<le> 57"

text \<open>
  \<open>strconv.Atoi\<close> on an unsigned decimal that fits the type; for any other text the code goes on
  with the value returned beside the error, which is 0 for a syntax error.
\<close>

fun atoi_digits :: "nat \<Rightarrow> string \<Rightarrow> nat option" where
  "atoi_digits acc [] = Some acc"
| "atoi_digits acc (c # cs) =
     (if is_digit c then atoi_digits (10 * acc + (of_char c - 48)) cs else None)"

definition Atoi :: "string \<Rightarrow> nat" where
  "Atoi s = (if s = [] then 0 else case atoi_digits 0 s of Some n \<Rightarrow> n | None \<Rightarrow> 0)"

lemma of_char_digit: "n < 10 \<Longrightarrow> (of_char (digit n) :: nat) = 48 + n"
  by (simp add: digit_def)

lemma is_digit_digit [simp]: "n < 10 \<Longrightarrow> is_digit (digit n)"
  by (simp add: is_digit_def of_char_digit)

lemma decimal_digits: "c \<in> set (decimal n) \<Longrightarrow> is_digit c"
  by (induction n rule: decimal.induct) (subst (asm) (2) decimal.simps, auto split: if_splits)

lemma decimal_nonempty [simp]: "decimal n \<noteq> []"
  by (subst decimal.simps) simp

lemma atoi_append: "atoi_digits acc (s @ t) = Option.bind (atoi_digits acc s) (\<lambda>n. atoi_digits n t)"
  by (induction s arbitrary: acc) auto

lemma atoi_decimal: "atoi_digits 0 (decimal n) = Some n"
proof (induction n rule: decimal.induct)
  case (1 n)
  show ?case
  proof (cases "n < 10")
    case True
    then show ?thesis by (simp add: decimal.simps [of n] of_char_digit)
  next
    case False
    with 1 show ?thesis by (simp add: decimal.simps [of n] atoi_append of_char_digit)
  qed
qed

lemma Atoi_decimal [simp]: "Atoi (decimal n) = n"
  by (simp add: Atoi_def atoi_decimal)

lemma decimal_inject [simp]: "decimal m = decimal n \<longleftrightarrow> m = n"
  by (metis Atoi_decimal)

section \<open>Splitting at hyphens\<close>

fun split_hyphen :: "string \<Rightarrow> string list" where
  "split_hyphen [] = [[]]"
| "split_hyphen (c # cs) =
     (case split_hyphen cs of
        [] \<Rightarrow> [[c]]
      | p # ps \<Rightarrow> if c = CHR ''-'' then [] # p # ps else (c # p) # ps)"

lemma split_hyphen_nonempty [simp]: "split_hyphen s \<noteq> []"
  by (cases s) (auto split: list.splits)

lemma length_split_hyphen: "length (split_hyphen s) = Suc (count_list s (CHR ''-''))"
  by (induction s) (auto split: list.splits)

lemma split_hyphen_free: "CHR ''-'' \<notin> set s \<Longrightarrow> split_hyphen s = [s]"
  by (induction s) auto

lemma split_hyphen_append:
  "CHR ''-'' \<notin> set s \<Longrightarrow> split_hyphen (s @ CHR ''-'' # t) = s # split_hyphen t"
proof (induction s)
  case Nil
  then show ?case by (cases "split_hyphen t") auto
qed auto

section \<open>Keys\<close>

definition cache_key :: "Question \<Rightarrow> string" where
  "cache_key q = qName q @ ''-'' @ decimal (unat (qQtype q)) @ ''-'' @ decimal (unat (qQclass q))"

definition negative_key :: "Question \<Rightarrow> string" where
  "negative_key q = cache_key q @ ''-negative''"

lemma hyphen_not_decimal [simp]: "CHR ''-'' \<notin> set (decimal n)"
  by (auto dest!: decimal_digits simp: is_digit_def)

lemma append_hyphen_eq:
  assumes "CHR ''-'' \<notin> set s" "CHR ''-'' \<notin> set t" "xs @ CHR ''-'' # s = ys @ CHR ''-'' # t"
  shows "xs = ys \<and> s = t"
proof -
  from assms(3) have "takeWhile (\<lambda>c. c \<noteq> CHR ''-'') (rev (xs @ CHR ''-'' # s)) =
      takeWhile (\<lambda>c. c \<noteq> CHR ''-'') (rev (ys @ CHR ''-'' # t))" by simp
  moreover have "takeWhile (\<lambda>c. c \<noteq> CHR ''-'') (rev (xs @ CHR ''-'' # s)) = rev s"
    if "CHR ''-'' \<notin> set s" for xs s
  proof -
    have "takeWhile (\<lambda>c. c \<noteq> CHR ''-'') (rev s @ CHR ''-'' # rev xs) = rev s @ takeWhile (\<lambda>c. c \<noteq> CHR ''-'') (CHR ''-'' # rev xs)"
      by (rule takeWhile_append2) (use that in auto)
    then show ?thesis by simp
  qed
  ultimately have "rev s = rev t" using assms(1,2) by metis
  with assms(3) show ?thesis by simp
qed

lemma cache_key_inject: "cache_key q = cache_key q' \<Longrightarrow> q = q'"
proof -
  assume "cache_key q = cache_key q'"
  then have "(qName q @ ''-'' @ decimal (unat (qQtype q))) @ CHR ''-'' # decimal (unat (qQclass q))
      = (qName q' @ ''-'' @ decimal (unat (qQtype q'))) @ CHR ''-'' # decimal (unat (qQclass q'))"
    by (simp add: cache_key_def)
  from append_hyphen_eq [OF _ _ this]
  have 1: "qName q @ CHR ''-'' # decimal (unat (qQtype q)) = qName q' @ CHR ''-'' # decimal (unat (qQtype q'))"
    and c: "decimal (unat (qQclass q)) = decimal (unat (qQclass q'))" by simp_all
  from append_hyphen_eq [OF _ _ 1] have "qName q = qName q'" "decimal (unat (qQtype q)) = decimal (unat (qQtype q'))"
    by simp_all
  with c show "q = q'" by (simp add: word_unat_eq_iff)
qed

lemma cache_key_last: "is_digit (last (cache_key q))"
  using decimal_digits [OF last_in_set [OF decimal_nonempty]] by (simp add: cache_key_def)

lemma negative_key_last: "\<not> is_digit (last (negative_key q))"
  by (simp add: negative_key_def is_digit_def)

lemma negative_not_cache_key: "negative_key q \<noteq> cache_key q'"
  by (metis cache_key_last negative_key_last)

section \<open>Keys read back\<close>

text \<open>The body of the loop of \<open>getAllDomains\<close>: a key with three parts is a question.\<close>

definition parse_key :: "string \<Rightarrow> Question option" where
  "parse_key key =
     (case split_hyphen key of
        [name, qtype, qclass] \<Rightarrow>
          Some \<lparr>qName = name, qQtype = of_nat (Atoi qtype), qQclass = of_nat (Atoi qclass)\<rparr>
      | _ \<Rightarrow> None)"

lemma count_hyphen_decimal [simp]: "count_list (decimal n) (CHR ''-'') = 0"
  by (simp add: count_list_0_iff)

lemma parse_cache_key:
  "parse_key (cache_key q) = (if CHR ''-'' \<in> set (qName q) then None else Some q)"
proof (cases "CHR ''-'' \<in> set (qName q)")
  case True
  then have "count_list (qName q) (CHR ''-'') \<noteq> 0" by (simp add: count_list_0_iff)
  then have "length (split_hyphen (cache_key q)) \<noteq> 3"
    by (simp add: length_split_hyphen cache_key_def)
  then have "parse_key (cache_key q) = None"
    by (auto simp: parse_key_def split: list.splits)
  with True show ?thesis by simp
next
  case False
  then have "split_hyphen (cache_key q) = [qName q, decimal (unat (qQtype q)), decimal (unat (qQclass q))]"
    by (simp add: cache_key_def split_hyphen_append split_hyphen_free)
  with False show ?thesis by (simp add: parse_key_def)
qed

lemma parse_negative_key: "parse_key (negative_key q) = None"
proof -
  have "length (split_hyphen (negative_key q)) \<noteq> 3"
    by (simp add: length_split_hyphen negative_key_def cache_key_def)
  then show ?thesis by (auto simp: parse_key_def split: list.splits)
qed

text \<open>
  C37: the keys of the cache. Two questions with the same key are the same question; the key of a
  negative entry is never the key of a question; and reading a key back gives the question if its
  name has no hyphen, and nothing if it has one.
\<close>

theorem cache_keys_faithful:
  "(cache_key q = cache_key q' \<longleftrightarrow> q = q') \<and> negative_key q \<noteq> cache_key q' \<and>
   parse_key (cache_key q) = (if CHR ''-'' \<in> set (qName q) then None else Some q)"
  using cache_key_inject negative_not_cache_key parse_cache_key by blast

section \<open>The shard of a key\<close>

text \<open>FNV-1a over the bytes of the key, at 32 bits.\<close>

definition fnv1a :: "string \<Rightarrow> u32" where
  "fnv1a key = foldl (\<lambda>h c. xor h (of_nat (of_char c)) * 16777619) 2166136261 key"

definition numShards :: nat where
  "numShards = 32"

definition getShard :: "string \<Rightarrow> nat" where
  "getShard key = unat (fnv1a key mod of_nat numShards)"

lemma getShard_in_range [simp]: "getShard key < numShards"
proof -
  have "unat (fnv1a key mod 32) = unat (fnv1a key) mod 32" by (simp add: unat_mod_distrib)
  then show ?thesis by (simp add: getShard_def numShards_def)
qed

end
