(* ===== verification/Cache.thy ===== *)
theory Cache
  imports Cache_Key Records Plain_Lib "HOL-Library.AList" "HOL-Library.Multiset"
begin

text \<open>
  The answer cache of \<open>server.go\<close>: thirty-two shards, each with a map from keys to entries, a
  doubly linked list in order of use, and a map from keys to list elements.

  A Go pointer to an entry is a number, looked up in the heap of the shard. An entry and the
  element of \<open>container/list\<close> that holds it are allocated together, so one number names both. A
  map is an association list with distinct keys, in some order: Go leaves the order of a map
  open, and the properties do not depend on it. Times are in nanoseconds.

  Each operation takes the lock of its shard for its whole duration, so operations on a shard are
  atomic steps here; \<open>get\<close> takes the lock for reading only, see the findings of the development.
\<close>

section \<open>State\<close>

record cacheEntry =
  e_msg :: Msg
  e_expires :: int
  e_dsRecord :: "DS list"
  e_key :: string
  e_isNegative :: bool
  e_frequency :: u32

type_synonym ptr = nat

record cacheShard =
  sh_heap :: "ptr \<Rightarrow> cacheEntry"
  sh_next :: ptr
  sh_items :: "(string \<times> ptr) list"
  sh_lruList :: "ptr list"
  sh_lruMap :: "(string \<times> ptr) list"

record CacheStats =
  Hits :: u64
  Misses :: u64
  Evictions :: u64
  Expired :: u64
  Negative :: u64

record DNSCache =
  shards :: "cacheShard list"
  maxSize :: int
  stats :: CacheStats

definition zero_entry :: cacheEntry where
  "zero_entry = \<lparr>e_msg = new_Msg, e_expires = 0, e_dsRecord = [], e_key = '''', e_isNegative = False, e_frequency = 0\<rparr>"

definition new_shard :: cacheShard where
  "new_shard = \<lparr>sh_heap = (\<lambda>_. zero_entry), sh_next = 0, sh_items = [], sh_lruList = [], sh_lruMap = []\<rparr>"

definition new_cache :: "int \<Rightarrow> DNSCache" where
  "new_cache sz = \<lparr>shards = replicate numShards new_shard, maxSize = sz, stats = \<lparr>Hits = 0, Misses = 0, Evictions = 0, Expired = 0, Negative = 0\<rparr>\<rparr>"

section \<open>Eviction\<close>

definition evictEntry :: "CacheStats \<Rightarrow> cacheShard \<Rightarrow> ptr \<Rightarrow> CacheStats \<times> cacheShard" where
  "evictEntry st shard elem =
     (let entry = sh_heap shard elem
      in (st\<lparr>Evictions := Evictions st + 1\<rparr>,
          shard\<lparr>sh_items := AList.delete (e_key entry) (sh_items shard),
                sh_lruMap := AList.delete (e_key entry) (sh_lruMap shard),
                sh_lruList := remove1 elem (sh_lruList shard)\<rparr>))"

definition evictOldest :: "CacheStats \<Rightarrow> cacheShard \<Rightarrow> CacheStats \<times> cacheShard" where
  "evictOldest st shard =
     (if sh_lruList shard = [] then (st, shard) else evictEntry st shard (last (sh_lruList shard)))"

text \<open>
  The loop that makes room. It need not end: \<open>None\<close> is the value of a call that does not return.
\<close>

partial_function (option) ensureCapacity ::
  "int \<Rightarrow> CacheStats \<Rightarrow> cacheShard \<Rightarrow> (CacheStats \<times> cacheShard) option" where
  "ensureCapacity sz st shard =
     (if sz sdiv int numShards \<le> int (length (sh_items shard))
      then ensureCapacity sz (fst (evictOldest st shard)) (snd (evictOldest st shard))
      else Some (st, shard))"

section \<open>Operations of a shard\<close>

text \<open>The end of \<open>set\<close> and \<open>setNegative\<close>: replace the entry of the key and put it in front.\<close>

definition insertEntry :: "cacheShard \<Rightarrow> cacheEntry \<Rightarrow> cacheShard" where
  "insertEntry shard entry =
     (let key = e_key entry;
          shard1 = (case map_of (sh_lruMap shard) key of
             None \<Rightarrow> shard
           | Some elem \<Rightarrow> shard\<lparr>sh_lruList := remove1 elem (sh_lruList shard),
                              sh_lruMap := AList.delete key (sh_lruMap shard),
                              sh_items := AList.delete key (sh_items shard)\<rparr>);
          elem = sh_next shard1
      in shard1\<lparr>sh_heap := (sh_heap shard1)(elem := entry),
                sh_next := Suc elem,
                sh_lruList := elem # sh_lruList shard1,
                sh_lruMap := AList.update key elem (sh_lruMap shard1),
                sh_items := AList.update key elem (sh_items shard1)\<rparr>)"

text \<open>The part of \<open>get\<close> between the two locks.\<close>

definition shard_get :: "CacheStats \<Rightarrow> cacheShard \<Rightarrow> string \<Rightarrow> u16 \<Rightarrow> int \<Rightarrow> CacheStats \<times> cacheShard \<times> Msg option" where
  "shard_get st shard key requestID now =
     (case map_of (sh_lruMap shard) key of
        None \<Rightarrow> (st\<lparr>Misses := Misses st + 1\<rparr>, shard, None)
      | Some elem \<Rightarrow>
          let entry = sh_heap shard elem
          in if now < e_expires entry then
               (st\<lparr>Hits := Hits st + 1\<rparr>,
                shard\<lparr>sh_heap := (sh_heap shard)(elem := entry\<lparr>e_frequency := e_frequency entry + 1\<rparr>),
                      sh_lruList := elem # remove1 elem (sh_lruList shard)\<rparr>,
                Some ((e_msg entry)\<lparr>mId := requestID\<rparr>))
             else
               let (st1, shard1) = evictEntry (st\<lparr>Expired := Expired st + 1\<rparr>) shard elem
               in (st1\<lparr>Misses := Misses st1 + 1\<rparr>, shard1, None))"

section \<open>Operations of the cache\<close>

definition nth_shard :: "DNSCache \<Rightarrow> string \<Rightarrow> cacheShard" where
  "nth_shard c key = shards c ! getShard key"

definition put_shard :: "DNSCache \<Rightarrow> string \<Rightarrow> CacheStats \<Rightarrow> cacheShard \<Rightarrow> DNSCache" where
  "put_shard c key st shard = c\<lparr>shards := (shards c)[getShard key := shard], stats := st\<rparr>"

definition cache_get :: "DNSCache \<Rightarrow> Question \<Rightarrow> u16 \<Rightarrow> int \<Rightarrow> DNSCache \<times> Msg option" where
  "cache_get c q requestID now =
     (let key = cache_key q;
          (st, shard, m) = shard_get (stats c) (nth_shard c key) key requestID now
      in (put_shard c key st shard, m))"

text \<open>The TTL under which a message is kept.\<close>

definition cache_ttl :: "Msg \<Rightarrow> u32" where
  "cache_ttl msg =
     (let ttl = min_over (\<lambda>rr. hTtl (Header rr)) 3600 (mAnswer msg @ mNs msg @ mExtra msg);
          ttl1 = (if ttl = 0 then 300 else ttl);
          ttl2 = (if ttl1 > 86400 then 86400 else ttl1)
      in if ttl2 < 60 then 60 else ttl2)"

definition seconds :: "u32 \<Rightarrow> int" where
  "seconds n = uint n * 1000000000"

definition cache_set :: "DNSCache \<Rightarrow> Question \<Rightarrow> Msg \<Rightarrow> int \<Rightarrow> DNSCache option" where
  "cache_set c q msg now =
     (let key = cache_key q
      in do {
        (st, shard) \<leftarrow> ensureCapacity (maxSize c) (stats c) (nth_shard c key);
        let entry = \<lparr>e_msg = msg, e_expires = now + seconds (cache_ttl msg), e_dsRecord = [],
          e_key = key, e_isNegative = False, e_frequency = 1\<rparr>;
        Some (put_shard c key st (insertEntry shard entry))
      })"

definition cache_setNegative :: "dnslib \<Rightarrow> DNSCache \<Rightarrow> Question \<Rightarrow> int \<Rightarrow> int \<Rightarrow> DNSCache option" where
  "cache_setNegative L c q rcode now =
     (let key = negative_key q
      in do {
        (st, shard) \<leftarrow> ensureCapacity (maxSize c) (stats c) (nth_shard c key);
        let msg = SetRcode L new_Msg (new_Msg\<lparr>mQuestion := [q]\<rparr>) rcode;
        let entry = \<lparr>e_msg = msg, e_expires = now + seconds 300, e_dsRecord = [],
          e_key = key, e_isNegative = True, e_frequency = 1\<rparr>;
        Some (put_shard c key (st\<lparr>Negative := Negative st + 1\<rparr>) (insertEntry shard entry))
      })"

definition cache_Stats :: "DNSCache \<Rightarrow> CacheStats" where
  "cache_Stats c = stats c"

definition cache_Size :: "DNSCache \<Rightarrow> nat" where
  "cache_Size c = sum_list (map (\<lambda>shard. length (sh_items shard)) (shards c))"

definition cache_Clear :: "DNSCache \<Rightarrow> DNSCache" where
  "cache_Clear c = c\<lparr>shards := map (\<lambda>shard. shard\<lparr>sh_items := [], sh_lruList := [], sh_lruMap := []\<rparr>) (shards c)\<rparr>"

definition getAllDomains :: "DNSCache \<Rightarrow> int \<Rightarrow> Question list" where
  "getAllDomains c now =
     concat (map (\<lambda>shard. List.map_filter
       (\<lambda>(key, p). if now < e_expires (sh_heap shard p) then parse_key key else None)
       (sh_items shard)) (shards c))"

text \<open>The loop of \<open>cleanExpired\<close> over the items of one shard.\<close>

fun clean_items :: "int \<Rightarrow> (string \<times> ptr) list \<Rightarrow> CacheStats \<Rightarrow> cacheShard \<Rightarrow> CacheStats \<times> cacheShard" where
  "clean_items now [] st shard = (st, shard)"
| "clean_items now ((key, p) # kps) st shard =
     (if e_expires (sh_heap shard p) < now then
        let shard1 = (case map_of (sh_lruMap shard) key of
              None \<Rightarrow> shard
            | Some elem \<Rightarrow> shard\<lparr>sh_lruList := remove1 elem (sh_lruList shard),
                               sh_lruMap := AList.delete key (sh_lruMap shard)\<rparr>)
        in clean_items now kps (st\<lparr>Expired := Expired st + 1\<rparr>)
             (shard1\<lparr>sh_items := AList.delete key (sh_items shard1)\<rparr>)
      else clean_items now kps st shard)"

fun clean_shards :: "int \<Rightarrow> CacheStats \<Rightarrow> cacheShard list \<Rightarrow> CacheStats \<times> cacheShard list" where
  "clean_shards now st [] = (st, [])"
| "clean_shards now st (shard # rest) =
     (let (st1, shard1) = clean_items now (sh_items shard) st shard;
          (st2, rest1) = clean_shards now st1 rest
      in (st2, shard1 # rest1))"

definition cleanExpired :: "DNSCache \<Rightarrow> int \<Rightarrow> DNSCache" where
  "cleanExpired c now =
     (let (st, shs) = clean_shards now (stats c) (shards c) in c\<lparr>shards := shs, stats := st\<rparr>)"

section \<open>The shard as a list of entries in order of use\<close>

definition entries :: "cacheShard \<Rightarrow> cacheEntry list" where
  "entries sh = map (sh_heap sh) (sh_lruList sh)"

definition pairs :: "cacheShard \<Rightarrow> (string \<times> ptr) list" where
  "pairs sh = map (\<lambda>p. (e_key (sh_heap sh p), p)) (sh_lruList sh)"

text \<open>The two maps and the list hold the same entries, each key once, and no pointer is reused.\<close>

definition shard_ok :: "cacheShard \<Rightarrow> bool" where
  "shard_ok sh \<longleftrightarrow> mset (sh_items sh) = mset (pairs sh) \<and> mset (sh_lruMap sh) = mset (pairs sh) \<and>
     distinct (map e_key (entries sh)) \<and> (\<forall>p \<in> set (sh_lruList sh). p < sh_next sh)"

lemma shard_okI:
  assumes "mset (sh_items sh) = mset (pairs sh)" "mset (sh_lruMap sh) = mset (pairs sh)"
    "distinct (map e_key (entries sh))" "\<And>p. p \<in> set (sh_lruList sh) \<Longrightarrow> p < sh_next sh"
  shows "shard_ok sh"
  using assms by (simp add: shard_ok_def)

lemma shard_ok_new: "shard_ok new_shard"
  by (simp add: shard_ok_def new_shard_def pairs_def entries_def)

lemma keys_of_pairs: "map fst (pairs sh) = map e_key (entries sh)"
  by (simp add: pairs_def entries_def)

lemma shard_ok_facts:
  assumes "shard_ok sh"
  shows "length (sh_items sh) = length (entries sh)" and "distinct (map fst (sh_items sh))"
    and "distinct (map fst (sh_lruMap sh))" and "distinct (sh_lruList sh)"
proof -
  from assms have i: "mset (sh_items sh) = mset (pairs sh)" and l: "mset (sh_lruMap sh) = mset (pairs sh)"
    and d: "distinct (map fst (pairs sh))" by (simp_all add: shard_ok_def keys_of_pairs)
  from i have "length (sh_items sh) = length (pairs sh)" by (rule mset_eq_length)
  then show "length (sh_items sh) = length (entries sh)" by (simp add: pairs_def entries_def)
  from i d show "distinct (map fst (sh_items sh))" by (metis mset_eq_imp_distinct_iff mset_map)
  from l d show "distinct (map fst (sh_lruMap sh))" by (metis mset_eq_imp_distinct_iff mset_map)
  from d show "distinct (sh_lruList sh)" by (simp add: pairs_def distinct_map)
qed

lemma lruMap_lookup:
  assumes "shard_ok sh"
  shows "map_of (sh_lruMap sh) k = Some p \<longleftrightarrow> p \<in> set (sh_lruList sh) \<and> e_key (sh_heap sh p) = k"
proof -
  from assms have "set (sh_lruMap sh) = set (pairs sh)" by (metis shard_ok_def set_mset_mset)
  with shard_ok_facts(3) [OF assms] show ?thesis
    by (auto simp: map_of_eq_Some_iff pairs_def)
qed

lemma lruMap_lookup_None:
  assumes "shard_ok sh"
  shows "map_of (sh_lruMap sh) k = None \<longleftrightarrow> k \<notin> e_key ` set (entries sh)"
proof -
  have "map_of (sh_lruMap sh) k = None \<longleftrightarrow> (\<nexists>p. map_of (sh_lruMap sh) k = Some p)" by auto
  also have "\<dots> \<longleftrightarrow> k \<notin> e_key ` set (entries sh)"
    unfolding lruMap_lookup [OF assms] by (auto simp: entries_def)
  finally show ?thesis .
qed

section \<open>Refinement of the operations of a shard\<close>

text \<open>Taking the entry of one key out of the list and both maps.\<close>

definition drop_key :: "string \<Rightarrow> ptr \<Rightarrow> cacheShard \<Rightarrow> cacheShard" where
  "drop_key key p sh = sh\<lparr>sh_items := AList.delete key (sh_items sh),
     sh_lruMap := AList.delete key (sh_lruMap sh), sh_lruList := remove1 p (sh_lruList sh)\<rparr>"

definition other_keys :: "string \<Rightarrow> cacheEntry list \<Rightarrow> cacheEntry list" where
  "other_keys key es = filter (\<lambda>e. e_key e \<noteq> key) es"

lemma remove1_by_key:
  assumes "distinct (map f xs)" "p \<in> set xs"
  shows "remove1 p xs = filter (\<lambda>x. f x \<noteq> f p) xs"
proof -
  have "remove1 p xs = filter (\<lambda>x. x \<noteq> p) xs" using assms by (simp add: distinct_map distinct_remove1_removeAll removeAll_filter_not_eq) metis
  also have "\<dots> = filter (\<lambda>x. f x \<noteq> f p) xs"
    using assms by (intro filter_cong) (auto simp: distinct_map dest: inj_onD)
  finally show ?thesis .
qed

lemma remove1_last: "distinct xs \<Longrightarrow> xs \<noteq> [] \<Longrightarrow> remove1 (last xs) xs = butlast xs"
  by (cases xs rule: rev_cases) (auto simp: remove1_append)

lemma drop_key_ok:
  assumes ok: "shard_ok sh" and p: "p \<in> set (sh_lruList sh)" "e_key (sh_heap sh p) = key"
  shows "shard_ok (drop_key key p sh)" and "entries (drop_key key p sh) = other_keys key (entries sh)"
proof -
  let ?sh = "drop_key key p sh"
  have d: "distinct (map (\<lambda>p. e_key (sh_heap sh p)) (sh_lruList sh))"
    using ok by (simp add: shard_ok_def entries_def comp_def)
  have l: "sh_lruList ?sh = filter (\<lambda>q. e_key (sh_heap sh q) \<noteq> key) (sh_lruList sh)"
    using remove1_by_key [OF d p(1)] p(2) by (simp add: drop_key_def)
  have pairs: "mset (AList.delete key kps) = mset (pairs ?sh)" if "mset kps = mset (pairs sh)" for kps
  proof -
    have "pairs ?sh = filter (\<lambda>(k', _). key \<noteq> k') (pairs sh)"
      unfolding pairs_def l by (simp add: filter_map comp_def eq_commute [of key]) (simp add: drop_key_def)
    with that show ?thesis by (simp add: AList.delete_eq mset_filter)
  qed
  show e: "entries ?sh = other_keys key (entries sh)"
    unfolding entries_def l by (simp add: other_keys_def filter_map comp_def) (simp add: drop_key_def)
  show "shard_ok ?sh"
  proof (rule shard_okI)
    show "mset (sh_items ?sh) = mset (pairs ?sh)" "mset (sh_lruMap ?sh) = mset (pairs ?sh)"
      using pairs [of "sh_items sh"] pairs [of "sh_lruMap sh"] ok by (simp_all add: shard_ok_def drop_key_def)
    show "distinct (map e_key (entries ?sh))"
      using ok by (simp add: e other_keys_def shard_ok_def distinct_map_filter)
    show "q < sh_next ?sh" if "q \<in> set (sh_lruList ?sh)" for q
      using that ok by (simp add: l) (simp add: shard_ok_def drop_key_def)
  qed
qed

lemma evictEntry_drop:
  "evictEntry st sh p = (st\<lparr>Evictions := Evictions st + 1\<rparr>, drop_key (e_key (sh_heap sh p)) p sh)"
  by (simp add: evictEntry_def drop_key_def Let_def)

lemma evictOldest_refines:
  assumes "shard_ok sh"
  shows "shard_ok (snd (evictOldest st sh))" and "entries (snd (evictOldest st sh)) = butlast (entries sh)"
proof -
  have "shard_ok (snd (evictOldest st sh)) \<and> entries (snd (evictOldest st sh)) = butlast (entries sh)"
  proof (cases "sh_lruList sh = []")
    case True
    with assms show ?thesis by (simp add: evictOldest_def entries_def)
  next
    case False
    let ?p = "last (sh_lruList sh)"
    have dl: "distinct (sh_lruList sh)" by (rule shard_ok_facts(4) [OF assms])
    have ev: "snd (evictOldest st sh) = drop_key (e_key (sh_heap sh ?p)) ?p sh"
      using False by (simp add: evictOldest_def evictEntry_drop)
    have "sh_lruList (drop_key (e_key (sh_heap sh ?p)) ?p sh) = butlast (sh_lruList sh)"
      using remove1_last [OF dl False] by (simp add: drop_key_def)
    then have "entries (drop_key (e_key (sh_heap sh ?p)) ?p sh) = butlast (entries sh)"
      by (simp add: entries_def map_butlast drop_key_def)
    with drop_key_ok(1) [OF assms last_in_set [OF False] refl] ev show ?thesis by simp
  qed
  then show "shard_ok (snd (evictOldest st sh))" and "entries (snd (evictOldest st sh)) = butlast (entries sh)"
    by auto
qed

text \<open>Making room keeps the most recently used entries, one less than the shard may hold.\<close>

definition shard_cap :: "int \<Rightarrow> nat" where
  "shard_cap sz = nat (sz sdiv int numShards)"

lemma evictOldest_stats:
  "sh_lruList sh \<noteq> [] \<Longrightarrow> fst (evictOldest st sh) = st\<lparr>Evictions := Evictions st + 1\<rparr>"
  by (simp add: evictOldest_def evictEntry_def Let_def)

lemma ensureCapacity_refines:
  assumes "shard_ok sh" "0 < shard_cap sz"
  shows "\<exists>sh'. ensureCapacity sz st sh =
      Some (st\<lparr>Evictions := Evictions st + of_nat (length (entries sh) - (shard_cap sz - 1))\<rparr>, sh') \<and>
    shard_ok sh' \<and> entries sh' = take (shard_cap sz - 1) (entries sh)"
  using assms
proof (induction "length (entries sh)" arbitrary: st sh rule: less_induct)
  case less
  have len: "length (sh_items sh) = length (entries sh)" by (rule shard_ok_facts(1) [OF less.prems(1)])
  show ?case
  proof (cases "shard_cap sz \<le> length (entries sh)")
    case False
    with less.prems len have "\<not> sz sdiv int numShards \<le> int (length (sh_items sh))"
      by (simp add: shard_cap_def)
    then have "ensureCapacity sz st sh = Some (st, sh)" by (subst ensureCapacity.simps) simp
    with False less.prems show ?thesis by simp
  next
    case True
    let ?st = "fst (evictOldest st sh)" and ?sh = "snd (evictOldest st sh)"
    have ne: "entries sh \<noteq> []" using True less.prems(2) by auto
    then have ll: "sh_lruList sh \<noteq> []" by (simp add: entries_def)
    note ev = evictOldest_refines [OF less.prems(1), of st]
    from True len have "sz sdiv int numShards \<le> int (length (sh_items sh))"
      by (simp add: shard_cap_def)
    then have step: "ensureCapacity sz st sh = ensureCapacity sz ?st ?sh" by (subst ensureCapacity.simps) simp
    from ne have "length (entries ?sh) < length (entries sh)" by (simp add: ev(2))
    from less.hyps [OF this ev(1) less.prems(2), of ?st] obtain sh' where
      sh': "ensureCapacity sz ?st ?sh =
        Some (?st\<lparr>Evictions := Evictions ?st + of_nat (length (entries ?sh) - (shard_cap sz - 1))\<rparr>, sh')"
      "shard_ok sh'" "entries sh' = take (shard_cap sz - 1) (entries ?sh)" by blast
    have "length (entries sh) - (shard_cap sz - 1) = Suc (length (entries ?sh) - (shard_cap sz - 1))"
      using True less.prems(2) ne by (simp add: ev(2))
    with sh' step evictOldest_stats [OF ll, of st] show ?thesis
      using True less.prems(2) by (simp add: ev(2) take_butlast algebra_simps)
  qed
qed

text \<open>With no room at all the loop does not end.\<close>

lemma ensureCapacity_returns_room:
  "ensureCapacity sz st sh = Some r \<Longrightarrow> int (length (sh_items (snd r))) < sz sdiv int numShards"
  by (rule ensureCapacity.raw_induct [where P = "\<lambda>sz st sh r. int (length (sh_items (snd r))) < sz sdiv int numShards"])
    (auto split: if_splits)

lemma ensureCapacity_diverges: "shard_cap sz = 0 \<Longrightarrow> ensureCapacity sz st sh = None"
  using ensureCapacity_returns_room [of sz st sh] by (cases "ensureCapacity sz st sh") (fastforce simp: shard_cap_def)+

lemma update_new: "k \<notin> fst ` set kps \<Longrightarrow> AList.update k v kps = kps @ [(k, v)]"
  by (induction kps) auto

lemma insertEntry_refines:
  assumes ok: "shard_ok sh"
  shows "shard_ok (insertEntry sh entry)"
    and "entries (insertEntry sh entry) = entry # other_keys (e_key entry) (entries sh)"
proof -
  let ?k = "e_key entry"
  define sh1 where "sh1 = (case map_of (sh_lruMap sh) ?k of None \<Rightarrow> sh | Some elem \<Rightarrow> drop_key ?k elem sh)"
  have ok1: "shard_ok sh1" and e1: "entries sh1 = other_keys ?k (entries sh)"
  proof (atomize (full), cases "map_of (sh_lruMap sh) ?k")
    case None
    then have "?k \<notin> e_key ` set (entries sh)" by (simp add: lruMap_lookup_None [OF ok])
    then have "other_keys ?k (entries sh) = entries sh" by (metis (mono_tags) other_keys_def filter_True imageI)
    with None ok show "shard_ok sh1 \<and> entries sh1 = other_keys ?k (entries sh)" by (simp add: sh1_def)
  next
    case (Some p)
    then have "p \<in> set (sh_lruList sh)" "e_key (sh_heap sh p) = ?k" using lruMap_lookup [OF ok] by auto
    from drop_key_ok [OF ok this] Some show "shard_ok sh1 \<and> entries sh1 = other_keys ?k (entries sh)"
      by (simp add: sh1_def)
  qed
  let ?n = "sh_next sh1"
  let ?sh = "insertEntry sh entry"
  have ins: "?sh = sh1\<lparr>sh_heap := (sh_heap sh1)(?n := entry), sh_next := Suc ?n, sh_lruList := ?n # sh_lruList sh1,
      sh_lruMap := AList.update ?k ?n (sh_lruMap sh1), sh_items := AList.update ?k ?n (sh_items sh1)\<rparr>"
    by (simp add: insertEntry_def sh1_def Let_def drop_key_def split: option.splits)
  have fresh: "p \<noteq> ?n" if "p \<in> set (sh_lruList sh1)" for p
    using ok1 that by (auto simp: shard_ok_def)
  then have heap: "map (\<lambda>p. g (((sh_heap sh1)(?n := entry)) p) p) (sh_lruList sh1) = map (\<lambda>p. g (sh_heap sh1 p) p) (sh_lruList sh1)"
    for g :: "cacheEntry \<Rightarrow> nat \<Rightarrow> 'b" by (intro map_cong) auto
  show e: "entries ?sh = entry # other_keys ?k (entries sh)"
    using heap [of "\<lambda>e _. e"] by (simp add: ins entries_def e1 [unfolded entries_def, symmetric])
  have pairs: "pairs ?sh = (?k, ?n) # pairs sh1"
    using heap [of "\<lambda>e p. (e_key e, p)"] by (simp add: ins pairs_def)
  have nokey: "?k \<notin> set (map fst (pairs sh1))"
    by (auto simp: keys_of_pairs e1 other_keys_def)
  have upd: "mset (AList.update ?k ?n kps) = mset (pairs ?sh)" if "mset kps = mset (pairs sh1)" for kps
  proof -
    from that nokey have "?k \<notin> fst ` set kps" by (metis set_map set_mset_mset)
    then have "AList.update ?k ?n kps = kps @ [(?k, ?n)]" by (rule update_new)
    with that pairs show ?thesis by simp
  qed
  show "shard_ok ?sh"
  proof (rule shard_okI)
    show "mset (sh_items ?sh) = mset (pairs ?sh)"
      using upd [of "sh_items sh1"] ok1 by (simp add: shard_ok_def ins)
    show "mset (sh_lruMap ?sh) = mset (pairs ?sh)"
      using upd [of "sh_lruMap sh1"] ok1 by (simp add: shard_ok_def ins)
    show "distinct (map e_key (entries ?sh))"
      using ok1 by (auto simp: e e1 [symmetric] shard_ok_def) (auto simp: e1 other_keys_def)
    show "p < sh_next ?sh" if "p \<in> set (sh_lruList ?sh)" for p
      using that ok1 by (auto simp: ins shard_ok_def)
  qed
qed

text \<open>The entry of a key; with distinct keys there is at most one.\<close>

definition entry_of :: "string \<Rightarrow> cacheEntry list \<Rightarrow> cacheEntry option" where
  "entry_of key es = find (\<lambda>e. e_key e = key) es"

lemma entry_of_Some:
  assumes "distinct (map e_key es)"
  shows "entry_of key es = Some e \<longleftrightarrow> e \<in> set es \<and> e_key e = key"
  using assms by (induction es) (auto simp: entry_of_def)

lemma entry_of_None: "entry_of key es = None \<longleftrightarrow> key \<notin> e_key ` set es"
  by (auto simp: entry_of_def find_None_iff)

lemma entry_of_lruMap:
  assumes "shard_ok sh"
  shows "entry_of key (entries sh) = map_option (sh_heap sh) (map_of (sh_lruMap sh) key)"
proof (cases "map_of (sh_lruMap sh) key")
  case None
  then have "entry_of key (entries sh) = None"
    unfolding entry_of_None lruMap_lookup_None [OF assms, symmetric] .
  with None show ?thesis by simp
next
  case (Some p)
  with lruMap_lookup [OF assms] have "sh_heap sh p \<in> set (entries sh)" "e_key (sh_heap sh p) = key"
    by (auto simp: entries_def)
  with Some assms show ?thesis by (simp add: entry_of_Some shard_ok_def)
qed

definition bump :: "cacheEntry \<Rightarrow> cacheEntry" where
  "bump e = e\<lparr>e_frequency := e_frequency e + 1\<rparr>"

text \<open>Moving a used element to the front.\<close>

lemma touch_ok:
  assumes ok: "shard_ok sh" and p: "p \<in> set (sh_lruList sh)"
  defines "sh' \<equiv> sh\<lparr>sh_heap := (sh_heap sh)(p := bump (sh_heap sh p)), sh_lruList := p # remove1 p (sh_lruList sh)\<rparr>"
  shows "shard_ok sh'" and "entries sh' = bump (sh_heap sh p) # other_keys (e_key (sh_heap sh p)) (entries sh)"
proof -
  let ?k = "e_key (sh_heap sh p)"
  have dl: "distinct (sh_lruList sh)" by (rule shard_ok_facts(4) [OF ok])
  have key: "e_key (sh_heap sh' q) = e_key (sh_heap sh q)" for q
    by (simp add: sh'_def bump_def)
  have rest: "map (sh_heap sh') (remove1 p (sh_lruList sh)) = map (sh_heap sh) (remove1 p (sh_lruList sh))"
    using dl by (intro map_cong) (auto simp: sh'_def)
  have "map (sh_heap sh) (remove1 p (sh_lruList sh)) = other_keys ?k (entries sh)"
    using drop_key_ok(2) [OF ok p refl] by (simp add: drop_key_def entries_def)
  with rest show e: "entries sh' = bump (sh_heap sh p) # other_keys ?k (entries sh)"
    by (simp add: entries_def sh'_def)
  have "mset (p # remove1 p (sh_lruList sh)) = mset (sh_lruList sh)" using p by simp
  then have "mset (map f (p # remove1 p (sh_lruList sh))) = mset (map f (sh_lruList sh))" for f :: "ptr \<Rightarrow> string \<times> ptr"
    by (metis mset_map)
  then have pairs: "mset (pairs sh') = mset (pairs sh)"
    unfolding pairs_def key by (simp add: sh'_def)
  show "shard_ok sh'"
  proof (rule shard_okI)
    show "mset (sh_items sh') = mset (pairs sh')" "mset (sh_lruMap sh') = mset (pairs sh')"
      using ok pairs by (simp_all add: shard_ok_def sh'_def)
    show "distinct (map e_key (entries sh'))"
      using ok by (auto simp: e other_keys_def shard_ok_def distinct_map_filter bump_def)
    show "q < sh_next sh'" if "q \<in> set (sh_lruList sh')" for q
      using that ok p by (auto simp: sh'_def shard_ok_def dest: in_set_remove1 [THEN iffD1, rotated] set_remove1_subset [THEN subsetD])
  qed
qed

lemma shard_get_refines:
  assumes ok: "shard_ok sh"
  shows "\<exists>st' sh'. shard_get st sh key rid now = (st', sh',
      Option.bind (entry_of key (entries sh)) (\<lambda>e. if now < e_expires e then Some ((e_msg e)\<lparr>mId := rid\<rparr>) else None)) \<and>
    shard_ok sh' \<and>
    entries sh' = (case entry_of key (entries sh) of None \<Rightarrow> entries sh
      | Some e \<Rightarrow> if now < e_expires e then bump e # other_keys key (entries sh) else other_keys key (entries sh))"
proof (cases "map_of (sh_lruMap sh) key")
  case None
  with ok show ?thesis by (simp add: shard_get_def entry_of_lruMap)
next
  case (Some p)
  with lruMap_lookup [OF ok] have p: "p \<in> set (sh_lruList sh)" and k: "e_key (sh_heap sh p) = key" by auto
  show ?thesis
  proof (cases "now < e_expires (sh_heap sh p)")
    case True
    with Some ok touch_ok [OF ok p] k show ?thesis
      by (simp add: shard_get_def entry_of_lruMap Let_def bump_def)
  next
    case False
    with Some ok drop_key_ok [OF ok p k] k show ?thesis
      by (simp add: shard_get_def entry_of_lruMap Let_def evictEntry_drop)
  qed
qed

section \<open>The cache as a whole\<close>

definition cache_ok :: "DNSCache \<Rightarrow> bool" where
  "cache_ok c \<longleftrightarrow> length (shards c) = numShards \<and>
     (\<forall>i < numShards. shard_ok (shards c ! i) \<and>
        (\<forall>e \<in> set (entries (shards c ! i)). getShard (e_key e) = i))"

definition key_entries :: "DNSCache \<Rightarrow> string \<Rightarrow> cacheEntry list" where
  "key_entries c key = entries (nth_shard c key)"

text \<open>What a question would be answered with at a time.\<close>

definition lookup :: "DNSCache \<Rightarrow> Question \<Rightarrow> int \<Rightarrow> Msg option" where
  "lookup c q now = Option.bind (entry_of (cache_key q) (key_entries c (cache_key q)))
     (\<lambda>e. if now < e_expires e then Some (e_msg e) else None)"

lemma cache_ok_shard: "cache_ok c \<Longrightarrow> shard_ok (nth_shard c key)"
  by (simp add: cache_ok_def nth_shard_def)

lemma cache_ok_new: "cache_ok (new_cache sz)"
  by (simp add: cache_ok_def new_cache_def shard_ok_new) (simp add: new_shard_def entries_def)

lemma cache_ok_put:
  assumes "cache_ok c" "shard_ok sh" "\<And>e. e \<in> set (entries sh) \<Longrightarrow> getShard (e_key e) = getShard key"
  shows "cache_ok (put_shard c key st sh)"
  using assms by (auto simp: cache_ok_def put_shard_def nth_list_update)

lemma put_shard_entries:
  assumes "cache_ok c"
  shows "key_entries (put_shard c key st sh) key' =
    (if getShard key' = getShard key then entries sh else key_entries c key')"
  using assms by (simp add: key_entries_def nth_shard_def put_shard_def cache_ok_def)

lemma cache_ok_same_shard: "cache_ok c \<Longrightarrow> e \<in> set (key_entries c key) \<Longrightarrow> getShard (e_key e) = getShard key"
  by (simp add: cache_ok_def key_entries_def nth_shard_def)

lemma key_entries_shard: "getShard key = getShard key' \<Longrightarrow> key_entries c key = key_entries c key'"
  by (simp add: key_entries_def nth_shard_def)

lemma entry_of_Cons: "entry_of key (e # es) = (if e_key e = key then Some e else entry_of key es)"
  by (simp add: entry_of_def)

lemma entry_of_other_keys: "entry_of key (other_keys key' es) = (if key = key' then None else entry_of key es)"
  by (induction es) (auto simp: entry_of_def other_keys_def)

lemma entry_of_take: "entry_of key (take n es) = Some e \<Longrightarrow> entry_of key es = Some e"
  by (induction es arbitrary: n) (auto simp: entry_of_def take_Cons' split: if_splits)

lemma set_other_keys: "set (other_keys key es) = {e \<in> set es. e_key e \<noteq> key}"
  by (simp add: other_keys_def)

lemmas entry_of_simps = entry_of_Cons entry_of_other_keys

text \<open>The entries in the shards after storing one: the shard of its key changes, the others do not.\<close>

definition store_entry :: "int \<Rightarrow> cacheEntry \<Rightarrow> DNSCache \<Rightarrow> DNSCache \<Rightarrow> bool" where
  "store_entry sz e c c' \<longleftrightarrow> cache_ok c' \<and> maxSize c' = maxSize c \<and>
     (\<forall>key. key_entries c' key =
        (if getShard key = getShard (e_key e)
         then e # other_keys (e_key e) (take (shard_cap sz - 1) (key_entries c key)) else key_entries c key))"

lemma insert_stores:
  assumes ok: "cache_ok c" and cap: "0 < shard_cap (maxSize c)"
  shows "\<exists>st sh. ensureCapacity (maxSize c) (stats c) (nth_shard c (e_key e)) = Some (st, sh) \<and>
    (\<forall>st'. store_entry (maxSize c) e c (put_shard c (e_key e) st' (insertEntry sh e)))"
proof -
  let ?k = "e_key e"
  have sok: "shard_ok (nth_shard c ?k)" by (rule cache_ok_shard [OF ok])
  from ensureCapacity_refines [OF sok cap, of "stats c"] obtain st sh
    where sh: "ensureCapacity (maxSize c) (stats c) (nth_shard c ?k) = Some (st, sh)" "shard_ok sh"
      "entries sh = take (shard_cap (maxSize c) - 1) (key_entries c ?k)" by (auto simp: key_entries_def)
  note ins = insertEntry_refines [OF sh(2), of e]
  have "getShard (e_key e') = getShard ?k" if "e' \<in> set (entries (insertEntry sh e))" for e'
    using that cache_ok_same_shard [OF ok] by (auto simp: ins sh(3) set_other_keys dest: in_set_takeD)
  then have ok': "cache_ok (put_shard c ?k st' (insertEntry sh e))" for st'
    by (rule cache_ok_put [OF ok ins(1)])
  have "key_entries (put_shard c ?k st' (insertEntry sh e)) key = (if getShard key = getShard ?k
      then e # other_keys ?k (take (shard_cap (maxSize c) - 1) (key_entries c key)) else key_entries c key)" for st' key
    using key_entries_shard [of key ?k c] by (simp add: put_shard_entries [OF ok] ins(2) sh(3))
  with ok' have "store_entry (maxSize c) e c (put_shard c ?k st' (insertEntry sh e))" for st'
    by (simp add: store_entry_def put_shard_def)
  with sh(1) show ?thesis by blast
qed

definition set_entry :: "Question \<Rightarrow> Msg \<Rightarrow> int \<Rightarrow> cacheEntry" where
  "set_entry q msg now = \<lparr>e_msg = msg, e_expires = now + seconds (cache_ttl msg), e_dsRecord = [],
     e_key = cache_key q, e_isNegative = False, e_frequency = 1\<rparr>"

lemma cache_set_stores:
  assumes "cache_ok c" "0 < shard_cap (maxSize c)"
  shows "\<exists>c'. cache_set c q msg now = Some c' \<and> store_entry (maxSize c) (set_entry q msg now) c c'"
  using insert_stores [OF assms, of "set_entry q msg now"]
  by (auto simp: cache_set_def set_entry_def Let_def)

lemma cache_setNegative_stores:
  assumes "cache_ok c" "0 < shard_cap (maxSize c)"
  shows "\<exists>c' e. cache_setNegative L c q rcode now = Some c' \<and> e_key e = negative_key q \<and>
    store_entry (maxSize c) e c c'"
proof -
  define e where "e = \<lparr>e_msg = SetRcode L new_Msg (new_Msg\<lparr>mQuestion := [q]\<rparr>) rcode, e_expires = now + seconds 300,
    e_dsRecord = [], e_key = negative_key q, e_isNegative = True, e_frequency = 1\<rparr>"
  then have "e_key e = negative_key q" by simp
  moreover from insert_stores [OF assms, of e] \<open>e_key e = negative_key q\<close> obtain c'
    where "cache_setNegative L c q rcode now = Some c'" "store_entry (maxSize c) e c c'"
    by (auto simp: cache_setNegative_def Let_def e_def [symmetric])
  ultimately show ?thesis by blast
qed

text \<open>With less than one entry per shard, storing does not return.\<close>

lemma cache_set_diverges: "shard_cap (maxSize c) = 0 \<Longrightarrow> cache_set c q msg now = None"
  by (simp add: cache_set_def ensureCapacity_diverges)

lemma cache_setNegative_diverges: "shard_cap (maxSize c) = 0 \<Longrightarrow> cache_setNegative L c q rcode now = None"
  by (simp add: cache_setNegative_def ensureCapacity_diverges)

text \<open>
  C27: storing returns exactly when the cache has room for one entry per shard. With a maximum size
  of at least 32, \<open>set\<close> ends in every consistent state; with a smaller one the loop that makes room
  never ends, whatever the state.
\<close>

theorem set_returns_iff:
  assumes "cache_ok c"
  shows "(\<exists>c'. cache_set c q msg now = Some c') \<longleftrightarrow> 32 \<le> maxSize c"
proof -
  have "0 < shard_cap (maxSize c) \<longleftrightarrow> 32 \<le> maxSize c"
    by (auto simp: shard_cap_def numShards_def signed_divide_int_def sgn_if)
  with cache_set_stores [OF assms] cache_set_diverges show ?thesis by (metis gr0I not_Some_eq)
qed

lemma store_entry_lookup:
  assumes "store_entry sz e c c'"
  shows "lookup c' q t = Some m \<Longrightarrow> e_key e \<noteq> cache_key q \<Longrightarrow> lookup c q t = Some m"
    and "e_key e = cache_key q \<Longrightarrow> lookup c' q t = (if t < e_expires e then Some (e_msg e) else None)"
proof -
  let ?k = "cache_key q"
  show "lookup c q t = Some m" if "lookup c' q t = Some m" "e_key e \<noteq> ?k"
  proof (cases "getShard ?k = getShard (e_key e)")
    case True
    with assms that have "Option.bind (entry_of ?k (take (shard_cap sz - 1) (key_entries c ?k)))
        (\<lambda>e. if t < e_expires e then Some (e_msg e) else None) = Some m"
      by (simp add: lookup_def store_entry_def entry_of_simps)
    then show ?thesis
      by (auto simp: lookup_def Option.bind_eq_Some_conv dest!: entry_of_take split: if_splits)
  next
    case False
    with assms that show ?thesis by (simp add: lookup_def store_entry_def)
  qed
  show "lookup c' q t = (if t < e_expires e then Some (e_msg e) else None)" if "e_key e = ?k"
    using assms that by (simp add: lookup_def store_entry_def entry_of_simps)
qed

lemma cache_get_refines:
  assumes ok: "cache_ok c"
  obtains c' where "cache_get c q rid now = (c', map_option (\<lambda>m. m\<lparr>mId := rid\<rparr>) (lookup c q now))"
    "cache_ok c'" "maxSize c' = maxSize c"
    "\<And>key. key_entries c' key = (if getShard key = getShard (cache_key q) then
       (case entry_of (cache_key q) (key_entries c key) of None \<Rightarrow> key_entries c key
        | Some e \<Rightarrow> (if now < e_expires e then [bump e] else []) @ other_keys (cache_key q) (key_entries c key))
       else key_entries c key)"
proof -
  let ?k = "cache_key q"
  have sok: "shard_ok (nth_shard c ?k)" by (rule cache_ok_shard [OF ok])
  from shard_get_refines [OF sok, of "stats c" ?k rid now] obtain st sh where
    g: "shard_get (stats c) (nth_shard c ?k) ?k rid now = (st, sh, Option.bind (entry_of ?k (key_entries c ?k))
        (\<lambda>e. if now < e_expires e then Some ((e_msg e)\<lparr>mId := rid\<rparr>) else None))" "shard_ok sh"
    and e: "entries sh = (case entry_of ?k (key_entries c ?k) of None \<Rightarrow> key_entries c ?k
      | Some e \<Rightarrow> (if now < e_expires e then [bump e] else []) @ other_keys ?k (key_entries c ?k))"
    by (auto simp: key_entries_def split: option.splits if_splits)
  have "getShard (e_key e') = getShard ?k" if "e' \<in> set (entries sh)" for e'
    using that cache_ok_same_shard [OF ok, of _ ?k]
    by (auto simp: e set_other_keys bump_def entry_of_def find_Some_iff split: option.splits if_splits)
  then have "cache_ok (put_shard c ?k st sh)" by (rule cache_ok_put [OF ok g(2)])
  moreover have "cache_get c q rid now = (put_shard c ?k st sh, map_option (\<lambda>m. m\<lparr>mId := rid\<rparr>) (lookup c q now))"
    by (auto simp: cache_get_def Let_def g(1) lookup_def split: Option.bind_splits)
  moreover have "key_entries (put_shard c ?k st sh) key = (if getShard key = getShard ?k then
       (case entry_of ?k (key_entries c key) of None \<Rightarrow> key_entries c key
        | Some e \<Rightarrow> (if now < e_expires e then [bump e] else []) @ other_keys ?k (key_entries c key))
       else key_entries c key)" for key
    using key_entries_shard [of key ?k c] by (cases "getShard key = getShard ?k") (simp_all add: put_shard_entries [OF ok] e cong: option.case_cong)
  ultimately show ?thesis using that [of "put_shard c ?k st sh"] by (simp add: put_shard_def)
qed

section \<open>Cleaning and clearing\<close>

lemma items_lookup:
  assumes "shard_ok sh"
  shows "(key, p) \<in> set (sh_items sh) \<longleftrightarrow> map_of (sh_lruMap sh) key = Some p"
proof -
  from assms have "set (sh_items sh) = set (sh_lruMap sh)" by (metis shard_ok_def set_mset_mset)
  with shard_ok_facts(3) [OF assms] show ?thesis by (simp add: map_of_eq_Some_iff)
qed

lemma clean_items_refines:
  assumes "shard_ok sh" "set kps \<subseteq> set (sh_items sh)" "distinct (map fst kps)"
  shows "shard_ok (snd (clean_items now kps st sh)) \<and>
    entries (snd (clean_items now kps st sh)) =
      filter (\<lambda>e. \<not> (e_expires e < now \<and> e_key e \<in> fst ` set kps)) (entries sh)"
  using assms
proof (induction kps arbitrary: st sh)
  case (Cons kp kps)
  obtain key p where kp: "kp = (key, p)" by (cases kp)
  from Cons.prems kp have lm: "map_of (sh_lruMap sh) key = Some p" by (simp add: items_lookup)
  with lruMap_lookup [OF Cons.prems(1)] have p: "p \<in> set (sh_lruList sh)" "e_key (sh_heap sh p) = key" by auto
  have uniq: "e = sh_heap sh p" if "e \<in> set (entries sh)" "e_key e = key" for e
  proof -
    from p have "sh_heap sh p \<in> set (entries sh)" by (simp add: entries_def)
    with that p(2) Cons.prems(1) show ?thesis by (auto simp: shard_ok_def distinct_map dest: inj_onD)
  qed
  show ?case
  proof (cases "e_expires (sh_heap sh p) < now")
    case True
    let ?sh = "drop_key key p sh"
    note ok = drop_key_ok [OF Cons.prems(1) p]
    have "set kps \<subseteq> set (sh_items ?sh)"
      using Cons.prems kp by (auto simp: drop_key_def AList.delete_eq rev_image_eqI)
    with Cons.IH [OF ok(1)] Cons.prems(3)
    have ih: "shard_ok (snd (clean_items now kps st' ?sh)) \<and> entries (snd (clean_items now kps st' ?sh)) =
        filter (\<lambda>e. \<not> (e_expires e < now \<and> e_key e \<in> fst ` set kps)) (other_keys key (entries sh))" for st'
      by (simp add: ok(2))
    have "sh\<lparr>sh_lruList := remove1 p (sh_lruList sh), sh_lruMap := AList.delete key (sh_lruMap sh),
        sh_items := AList.delete key (sh_items sh)\<rparr> = ?sh" by (simp add: drop_key_def)
    then have "clean_items now (kp # kps) st sh = clean_items now kps (st\<lparr>Expired := Expired st + 1\<rparr>) ?sh"
      using True lm kp by simp
    moreover have "filter (\<lambda>e. \<not> (e_expires e < now \<and> e_key e \<in> fst ` set kps)) (other_keys key (entries sh))
        = filter (\<lambda>e. \<not> (e_expires e < now \<and> e_key e \<in> fst ` set (kp # kps))) (entries sh)"
      using True kp uniq by (auto simp: other_keys_def intro!: filter_cong)
    ultimately show ?thesis using ih by simp
  next
    case False
    have "filter (\<lambda>e. \<not> (e_expires e < now \<and> e_key e \<in> fst ` set kps)) (entries sh)
        = filter (\<lambda>e. \<not> (e_expires e < now \<and> e_key e \<in> fst ` set (kp # kps))) (entries sh)"
      using False kp uniq by (intro filter_cong) auto
    with Cons.IH [OF Cons.prems(1)] Cons.prems False kp show ?thesis by simp
  qed
qed simp

lemma clean_shard:
  assumes "shard_ok sh"
  shows "shard_ok (snd (clean_items now (sh_items sh) st sh))"
    and "entries (snd (clean_items now (sh_items sh) st sh)) = filter (\<lambda>e. now \<le> e_expires e) (entries sh)"
proof -
  have "e_key e \<in> fst ` set (sh_items sh)" if "e \<in> set (entries sh)" for e
  proof -
    from that have "e_key e \<in> set (map fst (pairs sh))" by (simp add: keys_of_pairs)
    with assms show ?thesis by (metis shard_ok_def set_map set_mset_mset)
  qed
  then have "filter (\<lambda>e. \<not> (e_expires e < now \<and> e_key e \<in> fst ` set (sh_items sh))) (entries sh)
      = filter (\<lambda>e. now \<le> e_expires e) (entries sh)"
    by (intro filter_cong) auto
  with clean_items_refines [OF assms subset_refl shard_ok_facts(2) [OF assms], of now st]
  show "shard_ok (snd (clean_items now (sh_items sh) st sh))"
    and "entries (snd (clean_items now (sh_items sh) st sh)) = filter (\<lambda>e. now \<le> e_expires e) (entries sh)"
    by auto
qed

lemma clean_shards_nth:
  "length (snd (clean_shards now st shs)) = length shs \<and>
   (\<forall>i < length shs. \<exists>st'. snd (clean_shards now st shs) ! i = snd (clean_items now (sh_items (shs ! i)) st' (shs ! i)))"
proof (induction shs arbitrary: st)
  case (Cons sh shs)
  obtain st1 sh1 where 1: "clean_items now (sh_items sh) st sh = (st1, sh1)" by force
  obtain st2 rest where 2: "clean_shards now st1 shs = (st2, rest)" by force
  from Cons.IH [of st1] 1 2 show ?case
    by (auto simp: nth_Cons split: nat.splits) (metis snd_conv)
qed simp

lemma cleanExpired_refines:
  assumes "cache_ok c"
  shows "cache_ok (cleanExpired c now)" and "maxSize (cleanExpired c now) = maxSize c"
    and "key_entries (cleanExpired c now) key = filter (\<lambda>e. now \<le> e_expires e) (key_entries c key)"
proof -
  have sh: "shards (cleanExpired c now) = snd (clean_shards now (stats c) (shards c))"
    by (simp add: cleanExpired_def split: prod.splits)
  note nth = clean_shards_nth [of now "stats c" "shards c", folded sh]
  have each: "shard_ok (shards (cleanExpired c now) ! i) \<and> entries (shards (cleanExpired c now) ! i) =
      filter (\<lambda>e. now \<le> e_expires e) (entries (shards c ! i))" if "i < numShards" for i
    using nth assms that clean_shard [of "shards c ! i" now] by (auto simp: cache_ok_def)
  with nth assms show "cache_ok (cleanExpired c now)" by (auto simp: cache_ok_def)
  from each [of "getShard key"] show "key_entries (cleanExpired c now) key = filter (\<lambda>e. now \<le> e_expires e) (key_entries c key)"
    by (simp add: key_entries_def nth_shard_def)
  show "maxSize (cleanExpired c now) = maxSize c" by (simp add: cleanExpired_def split: prod.splits)
qed

lemma cache_Clear_refines:
  assumes "cache_ok c"
  shows "cache_ok (cache_Clear c)" and "maxSize (cache_Clear c) = maxSize c" and "key_entries (cache_Clear c) key = []"
  using assms getShard_in_range [of key]
  by (auto simp: cache_Clear_def cache_ok_def shard_ok_def pairs_def entries_def key_entries_def nth_shard_def
      simp del: getShard_in_range)

section \<open>Sequences of operations\<close>

datatype cache_op =
    OpGet Question u16 int
  | OpSet Question Msg int
  | OpSetNegative Question int int
  | OpClear
  | OpClean int

fun cache_step :: "dnslib \<Rightarrow> cache_op \<Rightarrow> DNSCache \<Rightarrow> DNSCache option" where
  "cache_step L (OpGet q rid now) c = Some (fst (cache_get c q rid now))"
| "cache_step L (OpSet q msg now) c = cache_set c q msg now"
| "cache_step L (OpSetNegative q rcode now) c = cache_setNegative L c q rcode now"
| "cache_step L OpClear c = Some (cache_Clear c)"
| "cache_step L (OpClean now) c = Some (cleanExpired c now)"

text \<open>What an operation stores: a message for a question, up to a time.\<close>

fun stored :: "cache_op \<Rightarrow> (Question \<times> Msg \<times> int) option" where
  "stored (OpSet q msg now) = Some (q, msg, now + seconds (cache_ttl msg))"
| "stored _ = None"

fun run :: "('op \<Rightarrow> 'c \<Rightarrow> 'c option) \<Rightarrow> 'op list \<Rightarrow> 'c \<Rightarrow> 'c option" where
  "run step [] c = Some c"
| "run step (x # xs) c = Option.bind (step x c) (run step xs)"

text \<open>
  What the users of the cache rely on: an operation keeps it consistent, an operation that stores
  an answer determines what is found for its question, and no operation makes an answer appear
  for another question.
\<close>

locale answer_store =
  fixes ok :: "'c \<Rightarrow> bool" and look :: "'c \<Rightarrow> Question \<Rightarrow> int \<Rightarrow> Msg option"
    and step :: "'op \<Rightarrow> 'c \<Rightarrow> 'c option" and stores :: "'op \<Rightarrow> (Question \<times> Msg \<times> int) option"
  assumes step_ok: "ok c \<Longrightarrow> step x c = Some c' \<Longrightarrow> ok c'"
    and step_stores: "ok c \<Longrightarrow> step x c = Some c' \<Longrightarrow> stores x = Some (q, m, e) \<Longrightarrow>
      look c' q t = (if t < e then Some m else None)"
    and step_keeps: "ok c \<Longrightarrow> step x c = Some c' \<Longrightarrow> (\<And>m e. stores x \<noteq> Some (q, m, e)) \<Longrightarrow>
      look c' q t = Some m \<Longrightarrow> look c q t = Some m"
begin

lemma run_ok: "run step xs c = Some c' \<Longrightarrow> ok c \<Longrightarrow> ok c'"
  by (induction xs arbitrary: c) (auto simp: Option.bind_eq_Some_conv dest: step_ok)

lemma found_was_stored:
  assumes "run step xs c = Some c'" "ok c" "look c' q t = Some m"
  shows "look c q t = Some m \<or>
    (\<exists>us x vs e. xs = us @ x # vs \<and> stores x = Some (q, m, e) \<and> t < e \<and> (\<forall>y \<in> set vs. \<forall>m' e'. stores y \<noteq> Some (q, m', e')))"
proof -
  have "look c q t = Some m \<and> (\<forall>y \<in> set xs. \<forall>m' e'. stores y \<noteq> Some (q, m', e')) \<or>
    (\<exists>us x vs e. xs = us @ x # vs \<and> stores x = Some (q, m, e) \<and> t < e \<and> (\<forall>y \<in> set vs. \<forall>m' e'. stores y \<noteq> Some (q, m', e')))"
    using assms
  proof (induction xs arbitrary: c)
    case (Cons x xs)
    from Cons.prems(1) obtain c1 where s: "step x c = Some c1" and r: "run step xs c1 = Some c'"
      by (auto simp: Option.bind_eq_Some_conv)
    from Cons.IH [OF r step_ok [OF Cons.prems(2) s] Cons.prems(3)] consider
      (old) "look c1 q t = Some m" "\<forall>y \<in> set xs. \<forall>m' e'. stores y \<noteq> Some (q, m', e')"
      | (new) us y vs e where "xs = us @ y # vs" "stores y = Some (q, m, e)" "t < e"
        "\<forall>z \<in> set vs. \<forall>m' e'. stores z \<noteq> Some (q, m', e')" by blast
    then show ?case
    proof cases
      case old
      show ?thesis
      proof (cases "\<exists>m' e'. stores x = Some (q, m', e')")
        case True
        then obtain m' e' where x: "stores x = Some (q, m', e')" by blast
        with step_stores [OF Cons.prems(2) s x, of t] old have "m' = m" "t < e'" by (auto split: if_splits)
        with x old show ?thesis by (intro disjI2 exI [of _ "[]"] exI [of _ x] exI [of _ xs]) auto
      next
        case False
        with step_keeps [OF Cons.prems(2) s _ old(1)] old(2) show ?thesis by auto
      qed
    next
      case new
      then show ?thesis by (intro disjI2 exI [of _ "x # us"] exI [of _ y] exI [of _ vs]) auto
    qed
  qed simp
  then show ?thesis by blast
qed

end

lemma step_has_room:
  assumes "cache_step L x c = Some c'"
  shows "(\<exists>q m now. x = OpSet q m now) \<or> (\<exists>q rc now. x = OpSetNegative q rc now) \<Longrightarrow> 0 < shard_cap (maxSize c)"
  using assms by (auto simp: cache_set_diverges cache_setNegative_diverges intro!: gr0I)

text \<open>The cases of a step, in terms of the entries of the shards.\<close>

lemma cache_step_cases:
  assumes ok: "cache_ok c" and s: "cache_step L x c = Some c'"
  obtains (get) q rid now where "x = OpGet q rid now" "cache_ok c'" "maxSize c' = maxSize c"
      "\<And>key. key_entries c' key = (if getShard key = getShard (cache_key q) then
         (case entry_of (cache_key q) (key_entries c key) of None \<Rightarrow> key_entries c key
          | Some e \<Rightarrow> (if now < e_expires e then [bump e] else []) @ other_keys (cache_key q) (key_entries c key))
         else key_entries c key)"
    | (put) q m now where "x = OpSet q m now" "store_entry (maxSize c) (set_entry q m now) c c'"
    | (negative) q rc now e where "x = OpSetNegative q rc now" "e_key e = negative_key q" "store_entry (maxSize c) e c c'"
    | (clear) "x = OpClear" "cache_ok c'" "maxSize c' = maxSize c" "\<And>key. key_entries c' key = []"
    | (clean) now where "x = OpClean now" "cache_ok c'" "maxSize c' = maxSize c"
      "\<And>key. key_entries c' key = filter (\<lambda>e. now \<le> e_expires e) (key_entries c key)"
proof (cases x)
  case (OpGet q rid now)
  obtain c1 where c1: "cache_get c q rid now = (c1, map_option (\<lambda>m. m\<lparr>mId := rid\<rparr>) (lookup c q now))"
    "cache_ok c1" "maxSize c1 = maxSize c"
    "\<And>key. key_entries c1 key = (if getShard key = getShard (cache_key q) then
       (case entry_of (cache_key q) (key_entries c key) of None \<Rightarrow> key_entries c key
        | Some e \<Rightarrow> (if now < e_expires e then [bump e] else []) @ other_keys (cache_key q) (key_entries c key))
       else key_entries c key)"
    by (rule cache_get_refines [OF ok, of q rid now]) (rule that)
  from s OpGet c1(1) have "c1 = c'" by simp
  with OpGet c1 get show ?thesis by blast
next
  case (OpSet q m now)
  from step_has_room [OF s] OpSet have "0 < shard_cap (maxSize c)" by blast
  from cache_set_stores [OF ok this, of q m now] s OpSet have "store_entry (maxSize c) (set_entry q m now) c c'" by auto
  with OpSet put show ?thesis by blast
next
  case (OpSetNegative q rc now)
  from step_has_room [OF s] OpSetNegative have "0 < shard_cap (maxSize c)" by blast
  from cache_setNegative_stores [OF ok this, of L q rc now] s OpSetNegative
  obtain e where "e_key e = negative_key q" "store_entry (maxSize c) e c c'" by auto
  with OpSetNegative negative show ?thesis by blast
next
  case OpClear
  with s cache_Clear_refines [OF ok] clear show ?thesis by auto
next
  case (OpClean now)
  with s cleanExpired_refines [OF ok, of now] clean show ?thesis by auto
qed

lemma entry_of_filter: "distinct (map e_key es) \<Longrightarrow> entry_of key (filter P es) = Some e \<Longrightarrow> entry_of key es = Some e"
  by (auto simp: entry_of_Some distinct_map_filter)

lemma key_entries_distinct: "cache_ok c \<Longrightarrow> distinct (map e_key (key_entries c key))"
  using cache_ok_shard [of c key] by (simp add: shard_ok_def key_entries_def)

lemma cache_step_ok:
  assumes "cache_ok c" "cache_step L x c = Some c'"
  shows "cache_ok c' \<and> maxSize c' = maxSize c"
  using assms by (cases rule: cache_step_cases) (auto simp: store_entry_def)

lemma cache_step_stores:
  assumes "cache_ok c" "cache_step L x c = Some c'" "stored x = Some (q, m, e)"
  shows "lookup c' q t = (if t < e then Some m else None)"
  using assms(1,2)
proof (cases rule: cache_step_cases)
  case (put q' m' now)
  with assms(3) have "set_entry q' m' now = set_entry q m now" "e = e_expires (set_entry q m now)"
    "e_msg (set_entry q m now) = m" "e_key (set_entry q m now) = cache_key q"
    by (auto simp: set_entry_def)
  with store_entry_lookup(2) [OF put(2), of q t] show ?thesis by simp
qed (use assms(3) in auto)

lemma cache_step_keeps:
  assumes "cache_ok c" "cache_step L x c = Some c'" "\<And>m e. stored x \<noteq> Some (q, m, e)" "lookup c' q t = Some m"
  shows "lookup c q t = Some m"
  using assms(1,2)
proof (cases rule: cache_step_cases)
  case (get q' rid now)
  let ?k = "cache_key q"
  note d = key_entries_distinct [OF assms(1)] key_entries_distinct [OF get(2)]
  have "\<exists>e' \<in> set (key_entries c ?k). e_key e' = ?k \<and> e_msg e' = e_msg e \<and> e_expires e' = e_expires e"
    if "e \<in> set (key_entries c' ?k)" "e_key e = ?k" for e
    using that
    by (auto simp: get(4) [of ?k] bump_def set_other_keys entry_of_Some [OF d(1)] split: if_splits option.splits)
  then have "\<exists>e'. entry_of ?k (key_entries c ?k) = Some e' \<and> e_msg e' = e_msg e \<and> e_expires e' = e_expires e"
    if "entry_of ?k (key_entries c' ?k) = Some e" for e
    using that unfolding entry_of_Some [OF d(1)] entry_of_Some [OF d(2)] by blast
  with assms(4) show ?thesis
    by (fastforce simp: lookup_def Option.bind_eq_Some_conv split: if_splits)
next
  case (put q' m' now)
  with assms(3) have "q' \<noteq> q" by auto
  then have "e_key (set_entry q' m' now) \<noteq> cache_key q" using cache_key_inject by (auto simp: set_entry_def)
  from store_entry_lookup(1) [OF put(2) assms(4) this] show ?thesis .
next
  case (negative q' rc now e)
  with store_entry_lookup(1) [OF negative(3) assms(4)] show ?thesis by (simp add: negative_not_cache_key)
next
  case clear
  with assms(4) show ?thesis by (simp add: lookup_def entry_of_def)
next
  case (clean now)
  with assms(4) show ?thesis
    by (auto simp: lookup_def Option.bind_eq_Some_conv dest!: entry_of_filter [OF key_entries_distinct [OF assms(1)]]
        split: if_splits)
qed

interpretation dns_cache: answer_store cache_ok lookup "cache_step L" stored for L
proof unfold_locales
  show "cache_ok c \<Longrightarrow> cache_step L x c = Some c' \<Longrightarrow> cache_ok c'" for c x c'
    using cache_step_ok by blast
qed (fact cache_step_stores, fact cache_step_keeps)

lemma lookup_new [simp]: "lookup (new_cache sz) q t = None"
proof -
  have "nth_shard (new_cache sz) key = new_shard" for key
    using getShard_in_range [of key] by (simp add: nth_shard_def new_cache_def del: getShard_in_range)
  then show ?thesis by (simp add: lookup_def key_entries_def new_shard_def entries_def entry_of_def)
qed

lemma cache_get_lookup:
  assumes "cache_ok c"
  shows "snd (cache_get c q rid now) = map_option (\<lambda>m. m\<lparr>mId := rid\<rparr>) (lookup c q now)"
  by (rule cache_get_refines [OF assms, of q rid now]) simp

lemma hit_was_set:
  assumes "run (cache_step L) ops (new_cache sz) = Some c" "snd (cache_get c q rid t) = Some r"
  shows "\<exists>us m t0 vs. ops = us @ OpSet q m t0 # vs \<and> r = m\<lparr>mId := rid\<rparr> \<and>
    t < t0 + seconds (cache_ttl m) \<and> (\<forall>m' t'. OpSet q m' t' \<notin> set vs)"
proof -
  have ok: "cache_ok c" by (rule dns_cache.run_ok [OF assms(1) cache_ok_new])
  from assms(2) obtain m where m: "lookup c q t = Some m" "r = m\<lparr>mId := rid\<rparr>"
    by (auto simp: cache_get_lookup [OF ok])
  from dns_cache.found_was_stored [OF assms(1) cache_ok_new m(1)] obtain us x vs e
    where x: "ops = us @ x # vs" "stored x = Some (q, m, e)" "t < e"
    and last: "\<forall>y \<in> set vs. \<forall>m' e'. stored y \<noteq> Some (q, m', e')" by auto
  from x(2) obtain t0 where t0: "x = OpSet q m t0" "e = t0 + seconds (cache_ttl m)"
    by (cases x) auto
  have "\<forall>m' t'. OpSet q m' t' \<notin> set vs" using last by fastforce
  with x t0 m(2) show ?thesis by blast
qed

text \<open>
  C7: the cache serves the last answer stored for the question, and not past its time. Whatever
  sequence of calls a cache has gone through since it was created, a hit for a question is the
  message of the last \<open>set\<close> for exactly that question, with the identifier of the request, at a
  time before the expiry computed when it was stored. A negative entry is never served.
\<close>

theorem cache_serves_last_set:
  assumes "run (cache_step L) ops (new_cache sz) = Some c" "snd (cache_get c q rid t) = Some r"
  shows "\<exists>us m t0 vs. ops = us @ OpSet q m t0 # vs \<and> r = m\<lparr>mId := rid\<rparr> \<and>
    t < t0 + seconds (cache_ttl m) \<and> (\<forall>m' t'. OpSet q m' t' \<notin> set vs)"
  by (rule hit_was_set [OF assms])

text \<open>
  C36: what is stored can be found. In a consistent cache of at least 32 entries, after \<open>set\<close> the
  next \<open>get\<close> for the same question returns the stored message with the identifier of the request
  until its time to live is over, and nothing from then on.
\<close>

theorem set_get_roundtrip:
  assumes "cache_ok c" "32 \<le> maxSize c"
  shows "\<exists>c'. cache_set c q m now = Some c' \<and> cache_ok c' \<and>
    snd (cache_get c' q rid t) = (if t < now + seconds (cache_ttl m) then Some (m\<lparr>mId := rid\<rparr>) else None)"
proof -
  have "0 < shard_cap (maxSize c)"
    using assms(2) by (simp add: shard_cap_def numShards_def signed_divide_int_def sgn_if)
  from cache_set_stores [OF assms(1) this, of q m now] obtain c'
    where s: "cache_set c q m now = Some c'" "store_entry (maxSize c) (set_entry q m now) c c'" by blast
  then have ok: "cache_ok c'" by (simp add: store_entry_def)
  have "lookup c' q t = (if t < now + seconds (cache_ttl m) then Some m else None)"
    using store_entry_lookup(2) [OF s(2), of q t] by (simp add: set_entry_def)
  with s(1) ok show ?thesis by (auto simp: cache_get_lookup [OF ok])
qed

section \<open>Bounds\<close>

lemma map_onto_range:
  assumes "map f xs = [0..<n]" "i < n"
  shows "\<exists>x. f x = i"
proof -
  from assms have "i \<in> set (map f xs)" by simp
  then show ?thesis by auto
qed

lemma all_shards_have_keys: "i < numShards \<Longrightarrow> \<exists>key. getShard key = i"
proof -
  let ?ns = "[5, 30, 19, 20, 9, 2, 7, 24, 29, 22, 11, 12, 1, 26, 31, 16,
    21, 14, 3, 4, 25, 18, 23, 8, 13, 6, 27, 28, 17, 10, 15, 0] :: nat list"
  assume i: "i < numShards"
  have "map (\<lambda>n. getShard [char_of n]) ?ns = [0..<numShards]" by code_simp
  from map_onto_range [OF this i] show ?thesis by blast
qed

definition bounded :: "DNSCache \<Rightarrow> bool" where
  "bounded c \<longleftrightarrow> (\<forall>key. length (key_entries c key) \<le> shard_cap (maxSize c))"

lemma length_other_keys: "length (other_keys key es) \<le> length es"
  by (simp add: other_keys_def)

lemma length_other_keys_less: "e \<in> set es \<Longrightarrow> e_key e = key \<Longrightarrow> length (other_keys key es) < length es"
  unfolding other_keys_def by (rule length_filter_less) auto

lemma cache_step_bounded:
  assumes "cache_ok c" "bounded c" "cache_step L x c = Some c'"
  shows "bounded c'"
proof -
  have stored_bounded: "bounded c'" if "store_entry (maxSize c) e c c'" "0 < shard_cap (maxSize c)" for e
    unfolding bounded_def
  proof
    fix key
    have "length (other_keys (e_key e) (take (shard_cap (maxSize c) - 1) (key_entries c key))) \<le> shard_cap (maxSize c) - 1"
      by (rule order_trans [OF length_other_keys]) simp
    with that assms(2) show "length (key_entries c' key) \<le> shard_cap (maxSize c')"
      by (auto simp: store_entry_def bounded_def)
  qed
  from assms(1,3) show ?thesis
  proof (cases rule: cache_step_cases)
    case (get q rid now)
    have "length (key_entries c' key) \<le> length (key_entries c key)" for key
    proof (cases "entry_of (cache_key q) (key_entries c key)")
      case (Some e)
      then have "length (other_keys (cache_key q) (key_entries c key)) < length (key_entries c key)"
        by (auto simp: entry_of_Some [OF key_entries_distinct [OF assms(1)]] intro: length_other_keys_less)
      with Some show ?thesis by (simp add: get(4) [of key])
    qed (simp add: get(4) [of key])
    with assms(2) get(3) show ?thesis by (auto simp: bounded_def intro: order_trans)
  next
    case (put q m now)
    with step_has_room [OF assms(3)] stored_bounded show ?thesis by blast
  next
    case (negative q rc now e)
    with step_has_room [OF assms(3)] stored_bounded show ?thesis by blast
  next
    case clear
    then show ?thesis by (simp add: bounded_def)
  next
    case (clean now)
    have "length (key_entries c' key) \<le> length (key_entries c key)" for key by (simp add: clean(4))
    with assms(2) clean(3) show ?thesis by (auto simp: bounded_def intro: order_trans)
  qed
qed

lemma run_bounded:
  "run (cache_step L) ops c = Some c' \<Longrightarrow> cache_ok c \<Longrightarrow> bounded c \<Longrightarrow> bounded c' \<and> maxSize c' = maxSize c"
proof (induction ops arbitrary: c)
  case (Cons x ops)
  then obtain c1 where "cache_step L x c = Some c1" "run (cache_step L) ops c1 = Some c'"
    by (auto simp: Option.bind_eq_Some_conv)
  with Cons cache_step_ok cache_step_bounded show ?case by metis
qed simp

lemma run_size:
  assumes "run (cache_step L) ops (new_cache sz) = Some c" "0 \<le> sz"
  shows "int (cache_Size c) \<le> sz"
proof -
  have ok: "cache_ok c" by (rule dns_cache.run_ok [OF assms(1) cache_ok_new])
  have "bounded (new_cache sz)"
  proof -
    have "nth_shard (new_cache sz) key = new_shard" for key
      using getShard_in_range [of key] by (simp add: nth_shard_def new_cache_def del: getShard_in_range)
    then show ?thesis by (simp add: bounded_def key_entries_def new_shard_def entries_def)
  qed
  from run_bounded [OF assms(1) cache_ok_new this] have b: "bounded c" and sz: "maxSize c = sz"
    by (simp_all add: new_cache_def)
  have "length (sh_items sh) \<le> shard_cap sz" if "sh \<in> set (shards c)" for sh
  proof -
    from that ok obtain i where i: "i < numShards" "sh = shards c ! i" by (auto simp: in_set_conv_nth cache_ok_def)
    from all_shards_have_keys [OF i(1)] obtain key where "getShard key = i" by blast
    with b i sz have "length (entries sh) \<le> shard_cap sz" by (auto simp: bounded_def key_entries_def nth_shard_def)
    with ok i shard_ok_facts(1) [of sh] show ?thesis by (simp add: cache_ok_def)
  qed
  then have "cache_Size c \<le> sum_list (map (\<lambda>_. shard_cap sz) (shards c))"
    unfolding cache_Size_def by (intro sum_list_mono) auto
  also have "\<dots> = numShards * shard_cap sz" using ok by (simp add: cache_ok_def sum_list_triv)
  also have "int \<dots> = 32 * (sz div 32)"
    using assms(2) by (simp add: shard_cap_def numShards_def signed_divide_int_def sgn_if)
  also have "\<dots> \<le> sz" by simp
  finally show ?thesis by simp
qed

text \<open>
  The cache stays within its maximum size: after any sequence of calls on a new cache, the
  number of entries over all shards is at most \<open>maxSize\<close>.
\<close>

theorem cache_size_bounded:
  assumes "run (cache_step L) ops (new_cache sz) = Some c" "0 \<le> sz"
  shows "int (cache_Size c) \<le> sz"
  by (rule run_size [OF assms])

section \<open>How long an answer stays\<close>

text \<open>The entry of a key, with at most \<open>n\<close> more recently used entries in its shard.\<close>

definition held :: "DNSCache \<Rightarrow> string \<Rightarrow> nat \<Rightarrow> Msg \<Rightarrow> int \<Rightarrow> bool" where
  "held c key n m x \<longleftrightarrow> (\<exists>us e vs. key_entries c key = us @ e # vs \<and> length us \<le> n \<and>
     e_key e = key \<and> e_msg e = m \<and> e_expires e = x)"

text \<open>Calls that do not replace the answer of \<open>q\<close> and do not come after its expiry \<open>x\<close>.\<close>

fun leaves :: "Question \<Rightarrow> int \<Rightarrow> cache_op \<Rightarrow> bool" where
  "leaves q x (OpGet q' rid t) \<longleftrightarrow> q' = q \<longrightarrow> t < x"
| "leaves q x (OpSet q' m t) \<longleftrightarrow> q' \<noteq> q"
| "leaves q x (OpSetNegative q' rc t) \<longleftrightarrow> True"
| "leaves q x OpClear \<longleftrightarrow> False"
| "leaves q x (OpClean t) \<longleftrightarrow> t \<le> x"

lemma other_keys_append: "other_keys key (us @ vs) = other_keys key us @ other_keys key vs"
  by (simp add: other_keys_def)

lemma other_keys_Cons: "other_keys key (e # es) = (if e_key e = key then other_keys key es else e # other_keys key es)"
  by (simp add: other_keys_def)

lemma held_store:
  assumes "store_entry sz e c c'" "e_key e \<noteq> key" "held c key n m x" "n < shard_cap sz - 1"
  shows "held c' key (Suc n) m x"
proof -
  from assms(3) obtain us e0 vs where h: "key_entries c key = us @ e0 # vs" "length us \<le> n"
    "e_key e0 = key" "e_msg e0 = m" "e_expires e0 = x" by (auto simp: held_def)
  show ?thesis
  proof (cases "getShard key = getShard (e_key e)")
    case True
    obtain ws where "take (shard_cap sz - 1) (us @ e0 # vs) = us @ e0 # ws"
      using h(2) assms(4) by (cases "shard_cap sz - Suc (length us)") simp_all
    with True assms(1,2) h have "key_entries c' key = (e # other_keys (e_key e) us) @ e0 # other_keys (e_key e) ws"
      by (auto simp: store_entry_def other_keys_append other_keys_Cons)
    moreover have "length (e # other_keys (e_key e) us) \<le> Suc n" using length_other_keys [of "e_key e" us] h(2) by simp
    ultimately show ?thesis using h(3-5) unfolding held_def by blast
  next
    case False
    with assms(1) h show ?thesis by (auto simp: store_entry_def held_def intro!: exI [of _ us])
  qed
qed

lemma held_step:
  assumes ok: "cache_ok c" and s: "cache_step L op c = Some c'" and l: "leaves q x op"
    and h: "held c (cache_key q) n m x" and n: "n < shard_cap (maxSize c) - 1"
  shows "held c' (cache_key q) (Suc n) m x"
proof -
  let ?k = "cache_key q"
  from h obtain us e vs where e: "key_entries c ?k = us @ e # vs" "length us \<le> n"
    "e_key e = ?k" "e_msg e = m" "e_expires e = x" by (auto simp: held_def)
  from ok s show ?thesis
  proof (cases rule: cache_step_cases)
    case (get q' rid now)
    show ?thesis
    proof (cases "q' = q")
      case True
      have "entry_of ?k (key_entries c ?k) = Some e"
        unfolding entry_of_Some [OF key_entries_distinct [OF ok]] using e by simp
      with True get l e have "key_entries c' ?k = bump e # other_keys ?k (key_entries c ?k)" by simp
      with e show ?thesis by (auto simp: held_def bump_def intro!: exI [of _ "[]"])
    next
      case False
      then have k: "cache_key q' \<noteq> ?k" using cache_key_inject by blast
      show ?thesis
      proof (cases "getShard ?k = getShard (cache_key q') \<and> entry_of (cache_key q') (key_entries c ?k) \<noteq> None")
        case True
        then obtain y where "entry_of (cache_key q') (key_entries c ?k) = Some y" by blast
        with True get(4) [of ?k] have "key_entries c' ?k =
            (if now < e_expires y then [bump y] else []) @ other_keys (cache_key q') (key_entries c ?k)" by simp
        moreover have "length (if now < e_expires y then [bump y] else []) \<le> 1" by simp
        ultimately obtain ws where ws: "length ws \<le> 1" "key_entries c' ?k = ws @ other_keys (cache_key q') (key_entries c ?k)"
          by blast
        with e k have "key_entries c' ?k = (ws @ other_keys (cache_key q') us) @ e # other_keys (cache_key q') vs"
          by (auto simp: other_keys_append other_keys_Cons)
        moreover have "length (ws @ other_keys (cache_key q') us) \<le> Suc n"
          using ws(1) length_other_keys [of "cache_key q'" us] e(2) by simp
        ultimately show ?thesis using e(3-5) unfolding held_def by blast
      next
        case False
        with get(4) [of ?k] have "key_entries c' ?k = key_entries c ?k" by auto
        with e show ?thesis by (auto simp: held_def intro!: exI [of _ us])
      qed
    qed
  next
    case (put q' m' now)
    with l have "e_key (set_entry q' m' now) \<noteq> ?k" using cache_key_inject by (auto simp: set_entry_def)
    from held_store [OF put(2) this h n] show ?thesis .
  next
    case (negative q' rc now e')
    then show ?thesis using held_store [OF negative(3) _ h n] negative_not_cache_key by simp
  next
    case clear
    with l show ?thesis by simp
  next
    case (clean now)
    with l e have "key_entries c' ?k = filter (\<lambda>e. now \<le> e_expires e) us @ e # filter (\<lambda>e. now \<le> e_expires e) vs"
      by simp
    moreover have "length (filter (\<lambda>e. now \<le> e_expires e) us) \<le> Suc n"
      using length_filter_le [of "\<lambda>e. now \<le> e_expires e" us] e(2) by (rule order_trans [OF _ le_SucI])
    ultimately show ?thesis using e(3-5) unfolding held_def by blast
  qed
qed

lemma held_run:
  "run (cache_step L) ops c = Some c' \<Longrightarrow> cache_ok c \<Longrightarrow> held c (cache_key q) n m x \<Longrightarrow>
     list_all (leaves q x) ops \<Longrightarrow> n + length ops < shard_cap (maxSize c) \<Longrightarrow>
     cache_ok c' \<and> held c' (cache_key q) (n + length ops) m x"
proof (induction ops arbitrary: c n)
  case (Cons op ops)
  then obtain c1 where c1: "cache_step L op c = Some c1" "run (cache_step L) ops c1 = Some c'"
    by (auto simp: Option.bind_eq_Some_conv)
  with Cons.prems cache_step_ok [OF Cons.prems(2) c1(1)] held_step [OF Cons.prems(2) c1(1)]
    Cons.IH [OF c1(2), of "Suc n"] show ?case by simp
qed simp

lemma held_lookup: "cache_ok c \<Longrightarrow> held c (cache_key q) n m x \<Longrightarrow> lookup c q t = (if t < x then Some m else None)"
proof -
  assume ok: "cache_ok c" and "held c (cache_key q) n m x"
  then obtain us e vs where e: "key_entries c (cache_key q) = us @ e # vs" "e_key e = cache_key q" "e_msg e = m" "e_expires e = x"
    by (auto simp: held_def)
  then have "e \<in> set (key_entries c (cache_key q))" by simp
  with e(2) have "entry_of (cache_key q) (key_entries c (cache_key q)) = Some e"
    by (simp add: entry_of_Some [OF key_entries_distinct [OF ok]])
  with e show ?thesis by (simp add: lookup_def)
qed

text \<open>
  C26: least recently used entries go first. An answer that was just stored is still served, until
  it expires, after any calls that do not store an answer for its question again and do not clear
  the cache, as long as they are fewer than the entries a shard may hold.
\<close>

theorem cache_retains:
  assumes "cache_ok c" "cache_set c q m now = Some c1" "run (cache_step L) ops c1 = Some c2"
    and "list_all (leaves q (now + seconds (cache_ttl m))) ops" "length ops < shard_cap (maxSize c)"
    and "t < now + seconds (cache_ttl m)"
  shows "snd (cache_get c2 q rid t) = Some (m\<lparr>mId := rid\<rparr>)"
proof -
  have "0 < shard_cap (maxSize c)" using assms(5) by simp
  from cache_set_stores [OF assms(1) this, of q m now] assms(2)
  have s: "store_entry (maxSize c) (set_entry q m now) c c1" by auto
  then have c1: "cache_ok c1" "maxSize c1 = maxSize c" by (simp_all add: store_entry_def)
  from s have "held c1 (cache_key q) 0 m (now + seconds (cache_ttl m))"
    by (auto simp: store_entry_def held_def set_entry_def intro!: exI [of _ "[]"])
  from held_run [OF assms(3) c1(1) this assms(4)] assms(5) c1(2)
  have "cache_ok c2" "held c2 (cache_key q) (length ops) m (now + seconds (cache_ttl m))" by simp_all
  from held_lookup [OF this, of t] assms(6) cache_get_lookup [OF this(1), of q rid t] show ?thesis by simp
qed

section \<open>Times to live\<close>

text \<open>
  The time to live of an answer. It is between one minute and one hour; if no record of any
  section has a smaller TTL than a minute, it is at most the TTL of every record, and it is the
  smallest of them if that is at most an hour.
\<close>

theorem cache_ttl_bounds:
  shows "60 \<le> cache_ttl msg \<and> cache_ttl msg \<le> 3600 \<and>
    ((\<forall>rr \<in> set (mAnswer msg @ mNs msg @ mExtra msg). 60 \<le> hTtl (Header rr)) \<longrightarrow>
       cache_ttl msg = Min (insert 3600 ((\<lambda>rr. hTtl (Header rr)) ` set (mAnswer msg @ mNs msg @ mExtra msg))))"
proof -
  let ?rrs = "mAnswer msg @ mNs msg @ mExtra msg"
  let ?m = "min_over (\<lambda>rr. hTtl (Header rr)) (3600 :: u32) ?rrs"
  have le: "?m \<le> 3600" by (rule min_over_le_init)
  have big: "\<not> ?m > 86400" using le by (auto simp: not_less intro: order_trans)
  have ttl: "cache_ttl msg = (if ?m = 0 then 300 else if ?m < 60 then 60 else ?m)"
    using big by (auto simp: cache_ttl_def Let_def)
  have "60 \<le> cache_ttl msg" "cache_ttl msg \<le> 3600" using le by (simp_all add: ttl not_less)
  moreover have "cache_ttl msg = ?m" if "\<forall>rr \<in> set ?rrs. 60 \<le> hTtl (Header rr)"
  proof -
    have "60 \<le> ?m" unfolding le_min_over_iff using that by simp
    moreover have "?m \<noteq> 0"
    proof
      assume "?m = 0"
      with \<open>60 \<le> ?m\<close> show False by simp
    qed
    ultimately show ?thesis by (simp add: ttl leD)
  qed
  ultimately show ?thesis unfolding min_over_Min by blast
qed

section \<open>The questions in the cache\<close>

definition keys_ok :: "DNSCache \<Rightarrow> bool" where
  "keys_ok c \<longleftrightarrow> (\<forall>key. \<forall>e \<in> set (key_entries c key). \<exists>q. e_key e = cache_key q \<or> e_key e = negative_key q)"

lemma cache_step_keys:
  assumes "cache_ok c" "keys_ok c" "cache_step L x c = Some c'"
  shows "keys_ok c'"
proof -
  have stored: "keys_ok c'" if "store_entry sz e c c'" "\<exists>q. e_key e = cache_key q \<or> e_key e = negative_key q" for sz e
    using assms(2) that unfolding keys_ok_def store_entry_def
    by (auto simp: set_other_keys dest!: in_set_takeD split: if_splits)
  from assms(1,3) show ?thesis
  proof (cases rule: cache_step_cases)
    case (get q rid now)
    have "e_key e \<in> e_key ` set (key_entries c key)" if "e \<in> set (key_entries c' key)" for e key
      using that
      by (auto simp: get(4) [of key] set_other_keys bump_def entry_of_Some [OF key_entries_distinct [OF assms(1)]]
          intro: rev_image_eqI split: if_splits option.splits)
    with assms(2) show ?thesis unfolding keys_ok_def by (metis imageE)
  next
    case (put q m now)
    have "e_key (set_entry q m now) = cache_key q" by (simp add: set_entry_def)
    with put(2) stored show ?thesis by blast
  next
    case (negative q rc now e)
    with stored show ?thesis by blast
  next
    case clear
    then show ?thesis by (simp add: keys_ok_def)
  next
    case (clean now)
    with assms(2) show ?thesis by (auto simp: keys_ok_def)
  qed
qed

lemma run_keys:
  "run (cache_step L) ops c = Some c' \<Longrightarrow> cache_ok c \<Longrightarrow> keys_ok c \<Longrightarrow> keys_ok c'"
proof (induction ops arbitrary: c)
  case (Cons x ops)
  then obtain c1 where "cache_step L x c = Some c1" "run (cache_step L) ops c1 = Some c'"
    by (auto simp: Option.bind_eq_Some_conv)
  with Cons cache_step_ok cache_step_keys show ?case by metis
qed simp

lemma new_cache_shard: "nth_shard (new_cache sz) key = new_shard"
  using getShard_in_range [of key] by (simp add: nth_shard_def new_cache_def del: getShard_in_range)

lemma keys_ok_new: "keys_ok (new_cache sz)"
  by (simp add: keys_ok_def key_entries_def new_cache_shard) (simp add: new_shard_def entries_def)

lemma items_entries:
  assumes "shard_ok sh"
  shows "(\<exists>p. (key, p) \<in> set (sh_items sh) \<and> sh_heap sh p = e) \<longleftrightarrow> e \<in> set (entries sh) \<and> e_key e = key"
  unfolding items_lookup [OF assms] lruMap_lookup [OF assms] by (auto simp: entries_def)

lemma set_map_filter: "x \<in> set (List.map_filter f xs) \<longleftrightarrow> (\<exists>y \<in> set xs. f y = Some x)"
  by (induction xs) (auto simp: map_filter_simps split: option.splits)

lemma getAllDomains_shards:
  "q \<in> set (getAllDomains c now) \<longleftrightarrow> (\<exists>sh \<in> set (shards c). \<exists>key e.
     (\<exists>p. (key, p) \<in> set (sh_items sh) \<and> sh_heap sh p = e) \<and> now < e_expires e \<and> parse_key key = Some q)"
  unfolding getAllDomains_def set_concat set_map UN_iff set_map_filter image_iff
  by (auto simp: Bex_def set_map_filter split: if_splits)

lemma getAllDomains_entries:
  assumes "cache_ok c"
  shows "q \<in> set (getAllDomains c now) \<longleftrightarrow>
    (\<exists>key. \<exists>e \<in> set (key_entries c key). now < e_expires e \<and> parse_key (e_key e) = Some q)"
    (is "?L \<longleftrightarrow> ?R")
proof
  assume ?L
  then obtain sh key e where sh: "sh \<in> set (shards c)" "\<exists>p. (key, p) \<in> set (sh_items sh) \<and> sh_heap sh p = e"
    "now < e_expires e" "parse_key key = Some q" unfolding getAllDomains_shards by blast
  from sh(1) assms obtain i where i: "i < numShards" "sh = shards c ! i" "shard_ok sh"
    by (auto simp: in_set_conv_nth cache_ok_def)
  from all_shards_have_keys [OF i(1)] obtain k where "getShard k = i" by blast
  with i have "key_entries c k = entries sh" by (simp add: key_entries_def nth_shard_def)
  with sh items_entries [OF i(3)] show ?R by (metis (no_types))
next
  assume ?R
  then obtain key e where e: "e \<in> set (key_entries c key)" "now < e_expires e" "parse_key (e_key e) = Some q" by blast
  let ?sh = "nth_shard c key"
  have "?sh \<in> set (shards c)" using assms by (simp add: nth_shard_def cache_ok_def)
  moreover have "\<exists>p. (e_key e, p) \<in> set (sh_items ?sh) \<and> sh_heap ?sh p = e"
    unfolding items_entries [OF cache_ok_shard [OF assms]] using e(1) by (simp add: key_entries_def)
  ultimately show ?L unfolding getAllDomains_shards using e by blast
qed

lemma getAllDomains_live:
  assumes "run (cache_step L) ops (new_cache sz) = Some c"
  shows "q \<in> set (getAllDomains c now) \<longleftrightarrow> CHR ''-'' \<notin> set (qName q) \<and> lookup c q now \<noteq> None"
proof -
  have ok: "cache_ok c" by (rule dns_cache.run_ok [OF assms cache_ok_new])
  have keys: "keys_ok c" by (rule run_keys [OF assms cache_ok_new keys_ok_new])
  have "(\<exists>key. \<exists>e \<in> set (key_entries c key). now < e_expires e \<and> parse_key (e_key e) = Some q)
      \<longleftrightarrow> (\<exists>e \<in> set (key_entries c (cache_key q)). now < e_expires e \<and> e_key e = cache_key q \<and> CHR ''-'' \<notin> set (qName q))"
    (is "?L \<longleftrightarrow> ?R")
  proof
    assume ?L
    then obtain key e where e: "e \<in> set (key_entries c key)" "now < e_expires e" "parse_key (e_key e) = Some q" by blast
    with keys obtain q' where "e_key e = cache_key q' \<or> e_key e = negative_key q'" unfolding keys_ok_def by blast
    with e(3) have "e_key e = cache_key q" "CHR ''-'' \<notin> set (qName q)"
      by (auto simp: parse_cache_key parse_negative_key split: if_splits)
    moreover from this(1) cache_ok_same_shard [OF ok e(1)] have "key_entries c key = key_entries c (cache_key q)"
      by (intro key_entries_shard) simp
    ultimately show ?R using e by auto
  next
    assume ?R
    then obtain e where "e \<in> set (key_entries c (cache_key q))" "now < e_expires e" "parse_key (e_key e) = Some q"
      by (auto simp: parse_cache_key)
    then show ?L by blast
  qed
  also have "\<dots> \<longleftrightarrow> CHR ''-'' \<notin> set (qName q) \<and> lookup c q now \<noteq> None"
  proof (cases "entry_of (cache_key q) (key_entries c (cache_key q))")
    case None
    then have "e_key e \<noteq> cache_key q" if "e \<in> set (key_entries c (cache_key q))" for e
      using that by (metis entry_of_None imageI)
    with None show ?thesis by (auto simp: lookup_def)
  next
    case (Some e)
    have uniq: "e' = e" if "e' \<in> set (key_entries c (cache_key q))" "e_key e' = cache_key q" for e'
      using that Some entry_of_Some [OF key_entries_distinct [OF ok, of "cache_key q"], of "cache_key q" e'] by simp
    from Some have mem: "e \<in> set (key_entries c (cache_key q))" "e_key e = cache_key q"
      unfolding entry_of_Some [OF key_entries_distinct [OF ok]] by simp_all
    have "(\<exists>e \<in> set (key_entries c (cache_key q)). now < e_expires e \<and> e_key e = cache_key q \<and> CHR ''-'' \<notin> set (qName q))
        \<longleftrightarrow> CHR ''-'' \<notin> set (qName q) \<and> now < e_expires e"
      using uniq mem by blast
    with Some show ?thesis by (simp add: lookup_def)
  qed
  finally show ?thesis unfolding getAllDomains_entries [OF ok] .
qed

text \<open>
  The questions offered for refreshing. After any sequence of calls, \<open>getAllDomains\<close> lists
  exactly the questions that have a live answer in the cache and whose name has no hyphen.
\<close>

theorem getAllDomains_exact:
  assumes "run (cache_step L) ops (new_cache sz) = Some c"
  shows "set (getAllDomains c now) = {q. CHR ''-'' \<notin> set (qName q) \<and> lookup c q now \<noteq> None}"
  using getAllDomains_live [OF assms] by blast

section \<open>The properties at a concrete cache\<close>

definition ex_question :: "string \<Rightarrow> Question" where
  "ex_question name = \<lparr>qName = name, qQtype = TypeA, qQclass = 1\<rparr>"

definition ex_reply :: Msg where
  "ex_reply = new_Msg\<lparr>mId := 1, mAnswer := [\<lparr>Header = \<lparr>hName = ''a.'', hRrtype = TypeA, hClass = 1, hTtl = 100\<rparr>, Rdata = A_R ''192.0.2.1''\<rparr>]\<rparr>"

lemma ex_cap: "shard_cap (maxSize (new_cache 64)) = 2"
  by (simp add: shard_cap_def new_cache_def numShards_def signed_divide_int_def)

lemma ex_ttl: "cache_ttl ex_reply = 100"
  by code_simp

lemma ex_stored:
  obtains c where "cache_set (new_cache 64) (ex_question ''a.'') ex_reply 0 = Some c"
    "run (cache_step plain_lib) [OpSet (ex_question ''a.'') ex_reply 0] (new_cache 64) = Some c"
    "snd (cache_get c (ex_question ''a.'') 7 5) = Some (ex_reply\<lparr>mId := 7\<rparr>)"
proof -
  have "0 < shard_cap (maxSize (new_cache 64))" by (simp add: ex_cap)
  from cache_set_stores [OF cache_ok_new this, of "ex_question ''a.''" ex_reply 0] obtain c
    where c: "cache_set (new_cache 64) (ex_question ''a.'') ex_reply 0 = Some c"
      "store_entry (maxSize (new_cache 64)) (set_entry (ex_question ''a.'') ex_reply 0) (new_cache 64) c" by blast
  then have ok: "cache_ok c" by (simp add: store_entry_def)
  from store_entry_lookup(2) [OF c(2), of "ex_question ''a.''" 5]
  have "lookup c (ex_question ''a.'') 5 = Some ex_reply" by (simp add: set_entry_def seconds_def ex_ttl)
  with c(1) ok that show ?thesis by (simp add: cache_get_lookup)
qed

theorem set_returns_iff_witness:
  "\<exists>c'. cache_set (new_cache 64) (ex_question ''a.'') ex_reply 0 = Some c'"
  unfolding set_returns_iff [OF cache_ok_new] by (simp add: new_cache_def)

theorem set_get_roundtrip_witness:
  "\<exists>c'. cache_set (new_cache 64) (ex_question ''a.'') ex_reply 0 = Some c' \<and> cache_ok c' \<and>
    snd (cache_get c' (ex_question ''a.'') 7 5) = Some (ex_reply\<lparr>mId := 7\<rparr>)"
  using set_get_roundtrip [OF cache_ok_new, of 64 "ex_question ''a.''" ex_reply 0 7 5]
  by (simp add: new_cache_def [of 64]) (simp add: seconds_def ex_ttl)

theorem cache_serves_last_set_witness:
  "\<exists>c r. run (cache_step plain_lib) [OpSet (ex_question ''a.'') ex_reply 0] (new_cache 64) = Some c \<and>
     snd (cache_get c (ex_question ''a.'') 7 5) = Some r \<and> r = ex_reply\<lparr>mId := 7\<rparr>"
proof -
  obtain c where c: "run (cache_step plain_lib) [OpSet (ex_question ''a.'') ex_reply 0] (new_cache 64) = Some c"
    "snd (cache_get c (ex_question ''a.'') 7 5) = Some (ex_reply\<lparr>mId := 7\<rparr>)" by (rule ex_stored)
  from cache_serves_last_set [OF c] c show ?thesis by blast
qed

theorem cache_size_bounded_witness:
  "\<exists>c. run (cache_step plain_lib) [OpSet (ex_question ''a.'') ex_reply 0] (new_cache 64) = Some c \<and> int (cache_Size c) \<le> 64"
proof -
  obtain c where c: "run (cache_step plain_lib) [OpSet (ex_question ''a.'') ex_reply 0] (new_cache 64) = Some c"
    by (rule ex_stored)
  from cache_size_bounded [OF c] c show ?thesis by simp
qed

theorem cache_retains_witness:
  "\<exists>c c1. cache_set (new_cache 64) (ex_question ''a.'') ex_reply 0 = Some c \<and>
     run (cache_step plain_lib) [OpGet (ex_question ''b.'') 3 4] c = Some c1 \<and>
     snd (cache_get c1 (ex_question ''a.'') 7 5) = Some (ex_reply\<lparr>mId := 7\<rparr>)"
proof -
  obtain c where c: "cache_set (new_cache 64) (ex_question ''a.'') ex_reply 0 = Some c" by (rule ex_stored)
  let ?op = "OpGet (ex_question ''b.'') 3 4"
  obtain c1 where c1: "run (cache_step plain_lib) [?op] c = Some c1" by simp
  have "list_all (leaves (ex_question ''a.'') (0 + seconds (cache_ttl ex_reply))) [?op]"
    by (simp add: seconds_def ex_ttl)
  from cache_retains [OF cache_ok_new c c1 this, of 5 7] c c1 show ?thesis
    by (simp add: ex_cap seconds_def ex_ttl)
qed

theorem getAllDomains_exact_witness:
  "\<exists>c. run (cache_step plain_lib) [OpSet (ex_question ''a.'') ex_reply 0] (new_cache 64) = Some c \<and>
     set (getAllDomains c 5) = {q. CHR ''-'' \<notin> set (qName q) \<and> lookup c q 5 \<noteq> None}"
proof -
  obtain c where c: "run (cache_step plain_lib) [OpSet (ex_question ''a.'') ex_reply 0] (new_cache 64) = Some c"
    by (rule ex_stored)
  from getAllDomains_exact [OF c, of 5] c show ?thesis by blast
qed

theorem cache_ttl_bounds_witness:
  "60 \<le> cache_ttl ex_reply \<and> cache_ttl ex_reply =
     Min (insert 3600 ((\<lambda>rr. hTtl (Header rr)) ` set (mAnswer ex_reply @ mNs ex_reply @ mExtra ex_reply)))"
proof -
  have "\<forall>rr \<in> set (mAnswer ex_reply @ mNs ex_reply @ mExtra ex_reply). 60 \<le> hTtl (Header rr)" by code_simp
  with cache_ttl_bounds [of ex_reply] show ?thesis by blast
qed

section \<open>Where the cache falls short\<close>

text \<open>The OPT pseudo-record carries flags where other records have a TTL; without flags it counts as TTL 0.\<close>

theorem opt_record_extends_ttl:
  "cache_ttl (ex_reply\<lparr>mExtra := [\<lparr>Header = \<lparr>hName = ''.'', hRrtype = TypeOPT, hClass = 4096, hTtl = 0\<rparr>, Rdata = OPT_R []\<rparr>]\<rparr>) = 300"
  by code_simp

text \<open>A question for which no answer was stored is a miss, whatever was stored for it as negative.\<close>

theorem negative_entries_never_hit:
  assumes "run (cache_step L) ops (new_cache sz) = Some c" "\<And>m t. OpSet q m t \<notin> set ops"
  shows "snd (cache_get c q rid now) = None"
proof -
  have ok: "cache_ok c" by (rule dns_cache.run_ok [OF assms(1) cache_ok_new])
  have "stored x \<noteq> Some (q, m, e)" if "x \<in> set ops" for x m e
    using that assms(2) by (cases x rule: cache_op.exhaust) auto
  with dns_cache.found_was_stored [OF assms(1) cache_ok_new, of q now]
  have "lookup c q now = None" by (cases "lookup c q now") fastforce+
  then show ?thesis by (simp add: cache_get_lookup [OF ok])
qed

end
