(* ===== verification/Domain.thy ===== *)
theory Domain
  imports Records Plain_Lib
begin

text \<open>
  The domain walker of \<open>domain.go\<close>: a name with the offsets of its labels and a position in
  them, which the resolver moves from the root to the whole name. The lemmas show that the
  walk never slices out of range, which name each position stands for, that winding to a name
  above finds it, and what the gap to a deeper name consists of.
\<close>

section \<open>State and operations\<close>

record domain =
  d_name :: string
  labelIndexes :: "int list"
  currentIdx :: nat

definition newDomain :: "dnslib \<Rightarrow> string \<Rightarrow> domain" where
  "newDomain L d0 =
     (let d = CanonicalName L d0;
          idxs = Split L d @ [int (length d) - 1]
      in \<lparr>d_name = d, labelIndexes = rev idxs, currentIdx = 0\<rparr>)"

definition d_current :: "domain \<Rightarrow> string option" where
  "d_current d =
     (if currentIdx d \<ge> length (labelIndexes d) then Some (d_name d)
      else slice_from (d_name d) (labelIndexes d ! currentIdx d))"

definition d_next :: "domain \<Rightarrow> domain" where
  "d_next d = d\<lparr>currentIdx := currentIdx d + 1\<rparr>"

definition d_more :: "domain \<Rightarrow> bool" where
  "d_more d \<longleftrightarrow> currentIdx d \<le> length (labelIndexes d)"

definition d_last :: "domain \<Rightarrow> bool" where
  "d_last d \<longleftrightarrow> int (currentIdx d) \<ge> int (length (labelIndexes d)) - 1"

text \<open>The loop of \<open>windTo\<close>; the second component is the error it returns, if any.\<close>

function windTo_loop :: "string \<Rightarrow> domain \<Rightarrow> (domain \<times> error option) option" where
  "windTo_loop target d =
     (if d_more d then
        (case d_current d of
           None \<Rightarrow> None
         | Some c \<Rightarrow> if c = target then Some (d, None) else windTo_loop target (d_next d))
      else Some (d, Some (Errorf [])))"
  by pat_completeness auto
termination
  by (relation "measure (\<lambda>(target, d). Suc (length (labelIndexes d)) - currentIdx d)")
    (auto simp: d_more_def d_next_def)

declare windTo_loop.simps [simp del]

definition windTo :: "dnslib \<Rightarrow> string \<Rightarrow> domain \<Rightarrow> (domain \<times> error option) option" where
  "windTo L target0 d =
     (let target = CanonicalName L target0
      in if \<not> IsSubDomain L target (d_name d) then Some (d, Some (Errorf []))
         else windTo_loop target d)"

text \<open>The loop of \<open>gap\<close>, from index \<open>i\<close> for \<open>n\<close> rounds.\<close>

fun gap_loop :: "domain \<Rightarrow> nat \<Rightarrow> nat \<Rightarrow> string list option" where
  "gap_loop d i 0 = Some []"
| "gap_loop d i (Suc n) = do {
     idx \<leftarrow> at (labelIndexes d) (int i);
     s \<leftarrow> slice_from (d_name d) idx;
     rest \<leftarrow> gap_loop d (Suc i) n;
     Some (s # rest)
   }"

definition d_gap :: "dnslib \<Rightarrow> domain \<Rightarrow> string \<Rightarrow> string list option" where
  "d_gap L d target =
     (if \<not> IsSubDomain L target (d_name d) then Some []
      else do {
        c \<leftarrow> d_current d;
        let missing = CountLabel L target - CountLabel L c;
        if missing \<le> 0 then Some [] else gap_loop d (currentIdx d) (nat missing)
      })"

section \<open>Well-formed walkers\<close>

text \<open>
  A walker over the canonical name \<open>s\<close>: its offsets are those of \<^const>\<open>newDomain\<close>, its
  position is anywhere.
\<close>

definition walker :: "dnslib \<Rightarrow> string \<Rightarrow> domain \<Rightarrow> bool" where
  "walker L s d \<longleftrightarrow> d_name d = s \<and> labelIndexes d = rev (Split L s @ [int (length s) - 1])"

lemma walker_new: "walker L (CanonicalName L d) (newDomain L d)"
  by (simp add: walker_def newDomain_def Let_def)

lemma walker_next [simp]: "walker L s (d_next d) = walker L s d"
  by (simp add: walker_def d_next_def)

lemma walker_idx [simp]: "walker L s (d\<lparr>currentIdx := k\<rparr>) = walker L s d"
  by (simp add: walker_def)

lemma walker_length: "walker L s d \<Longrightarrow> length (labelIndexes d) = length (ancestors L s)"
  by (simp add: walker_def)

text \<open>Slicing at the \<open>k\<close>-th offset gives the \<open>k\<close>-th name above.\<close>

lemma walker_slice:
  assumes "label_laws L s" "walker L s d" "k < length (ancestors L s)"
  shows "slice_from (d_name d) (labelIndexes d ! k) = Some (ancestors L s ! k)"
proof (cases k)
  case 0
  with assms show ?thesis
    by (cases s) (simp_all add: walker_def ancestors_def label_laws_def slice_from_def nat_diff_distrib)
next
  case (Suc j)
  with assms(3) have j: "j < length (Split L s)" by simp
  then have mem: "Split L s ! (length (Split L s) - Suc j) \<in> set (Split L s)" by simp
  from Suc j assms(2) have "labelIndexes d ! k = Split L s ! (length (Split L s) - Suc j)"
    by (simp add: walker_def rev_nth)
  with label_laws_bounds [OF assms(1) mem] Suc j assms(2) show ?thesis
    by (simp add: walker_def slice_from_def ancestors_nth_Suc)
qed

text \<open>The name a position stands for: past the end it is the whole name again.\<close>

definition walk_name :: "dnslib \<Rightarrow> string \<Rightarrow> nat \<Rightarrow> string" where
  "walk_name L s k = (if k < length (ancestors L s) then ancestors L s ! k else s)"

lemma d_current_walker:
  assumes "label_laws L s" "walker L s d"
  shows "d_current d = Some (walk_name L s (currentIdx d))"
  using walker_slice [OF assms] assms(2) walker_length [OF assms(2)]
  by (auto simp: d_current_def walk_name_def walker_def)

lemma gap_loop_walker:
  assumes "label_laws L s" "walker L s d" "i + n \<le> length (ancestors L s)"
  shows "gap_loop d i n = Some (map (\<lambda>k. ancestors L s ! k) [i..<i + n])"
  using assms(3)
proof (induction n arbitrary: i)
  case 0
  then show ?case by simp
next
  case (Suc n)
  then have i: "i < length (ancestors L s)" and le: "Suc i + n \<le> length (ancestors L s)" by simp_all
  have "at (labelIndexes d) (int i) = Some (labelIndexes d ! i)"
    using i walker_length [OF assms(2)] by (simp add: go_simps)
  moreover note walker_slice [OF assms(1,2) i] Suc.IH [OF le]
  ultimately show ?case by (simp add: upt_conv_Cons del: upt_Suc)
qed

lemma windTo_loop_found:
  assumes "label_laws L s" "walker L s d" "currentIdx d \<le> k" "k < length (ancestors L s)"
  shows "windTo_loop (ancestors L s ! k) d = Some (d\<lparr>currentIdx := k\<rparr>, None)"
  using assms(2,3)
proof (induction "k - currentIdx d" arbitrary: d)
  case 0
  then have k: "currentIdx d = k" by simp
  with 0 assms(4) walker_length [OF 0(2)] show ?case
    by (simp add: windTo_loop.simps [of _ d] d_more_def d_current_walker [OF assms(1)] walk_name_def)
next
  case (Suc n)
  let ?c = "currentIdx d"
  from Suc.hyps(2) have lt: "?c < k" by simp
  then have more: "d_more d" and c: "?c < length (ancestors L s)"
    using assms(4) walker_length [OF Suc.prems(1)] by (simp_all add: d_more_def)
  have neq: "ancestors L s ! ?c \<noteq> ancestors L s ! k"
    using ancestors_inj [OF assms(1) c assms(4)] lt by auto
  have "windTo_loop (ancestors L s ! k) (d_next d) = Some ((d_next d)\<lparr>currentIdx := k\<rparr>, None)"
    using Suc lt by (intro Suc.hyps(1)) (simp_all add: d_next_def)
  with more neq c show ?case
    by (simp add: windTo_loop.simps [of _ d] d_current_walker [OF assms(1) Suc.prems(1)]
        walk_name_def d_next_def)
qed

section \<open>Properties\<close>

lemma walker_funpow [simp]: "walker L s ((d_next ^^ k) d) = walker L s d"
  by (induction k) simp_all

lemma currentIdx_funpow [simp]: "currentIdx ((d_next ^^ k) d) = k + currentIdx d"
  by (induction k) (simp_all add: d_next_def)

lemma currentIdx_new [simp]: "currentIdx (newDomain L d) = 0"
  by (simp add: newDomain_def Let_def)

lemma walk_name_count:
  assumes "label_laws L s"
  shows "CountLabel L (walk_name L s k) = int (min k (length (Split L s)))"
  using ancestors_count [OF assms, of k] label_laws_count [OF assms]
  by (auto simp: walk_name_def)

lemma walk_name_ancestor: "label_laws L s \<Longrightarrow> walk_name L s k \<in> set (ancestors L s)"
  using ancestors_last [of L s] nth_mem [of "length (Split L s)" "ancestors L s"]
  by (auto simp: walk_name_def)

lemma ancestor_IsSubDomain:
  "name_laws L d \<Longrightarrow> a \<in> set (ancestors L (CanonicalName L d)) \<Longrightarrow> IsSubDomain L a d"
  by (auto simp: name_laws_def canonical_laws_def)

lemma count_canonical:
  "name_laws L d \<Longrightarrow> CountLabel L d = int (length (Split L (CanonicalName L d)))"
  using label_laws_count [of L "CanonicalName L d"]
  by (auto simp: name_laws_def canonical_laws_def)


text \<open>
  \<open>windTo\<close> on a new domain returns without an error exactly when the target is the name or
  lies above it, and then the walker stands at the target, as many labels deep as the target has.
\<close>

theorem windTo_finds:
  assumes "name_laws L d"
  shows "\<exists>d' e. windTo L target (newDomain L d) = Some (d', e)
           \<and> (e = None \<longleftrightarrow> IsSubDomain L target d)
           \<and> (e = None \<longrightarrow> d_current d' = Some (CanonicalName L target)
                \<and> int (currentIdx d') = CountLabel L target)"
proof -
  let ?s = "CanonicalName L d" and ?t = "CanonicalName L target"
  from assms have lab: "label_laws L ?s" and can: "canonical_laws L d" by (rule name_lawsD)+
  have w: "walker L ?s (newDomain L d)" by (rule walker_new)
  then have nm: "d_name (newDomain L d) = ?s" by (simp add: walker_def)
  have sub: "IsSubDomain L ?t ?s \<longleftrightarrow> ?t \<in> set (ancestors L ?s)"
    and sub': "IsSubDomain L target d \<longleftrightarrow> ?t \<in> set (ancestors L ?s)"
    using can by (auto simp: canonical_laws_def)
  show ?thesis
  proof (cases "?t \<in> set (ancestors L ?s)")
    case False
    with sub sub' nm show ?thesis by (auto simp: windTo_def Let_def)
  next
    case True
    then obtain k where k: "k < length (ancestors L ?s)" "ancestors L ?s ! k = ?t"
      by (auto simp: in_set_conv_nth)
    let ?d = "(newDomain L d)\<lparr>currentIdx := k\<rparr>"
    have "windTo_loop ?t (newDomain L d) = Some (?d, None)"
      using windTo_loop_found [OF lab w _ k(1)] k(2) by simp
    moreover have "d_current ?d = Some ?t"
      using d_current_walker [OF lab, of ?d] w k by (simp add: walk_name_def)
    moreover have "int k = CountLabel L target"
      using ancestors_count [OF lab k(1)] k(2) can by (simp add: canonical_laws_def)
    ultimately show ?thesis
      using True sub sub' nm by (auto simp: windTo_def Let_def)
  qed
qed

text \<open>
  \<open>gap\<close> never slices out of range, at any position of a walk. For a target above the name it
  returns the names of the walk from the current one up to, and without, the target: one per
  missing label, each one label deeper than the last.
\<close>

theorem gap_names:
  assumes "name_laws L d"
  shows "\<exists>gs. d_gap L ((d_next ^^ k) (newDomain L d)) target = Some gs
           \<and> int (length gs) = (if IsSubDomain L target d
                then max 0 (CountLabel L target - min (int k) (CountLabel L d)) else 0)
           \<and> (\<forall>j < length gs. CountLabel L (gs ! j) = int (k + j) \<and> IsSubDomain L (gs ! j) d)"
proof -
  let ?s = "CanonicalName L d" and ?d = "(d_next ^^ k) (newDomain L d)"
  from assms have lab: "label_laws L ?s" and can: "canonical_laws L d" by (rule name_lawsD)+
  have w: "walker L ?s ?d" by (simp add: walker_new)
  then have nm: "d_name ?d = ?s" by (simp add: walker_def)
  have count: "CountLabel L d = int (length (Split L ?s))" by (rule count_canonical [OF assms])
  have cur: "d_current ?d = Some (walk_name L ?s k)" using d_current_walker [OF lab w] by simp
  have wc: "CountLabel L (walk_name L ?s k) = min (int k) (CountLabel L d)"
    using walk_name_count [OF lab, of k] count by simp
  have sub: "IsSubDomain L target ?s = IsSubDomain L target d"
    using can by (simp add: canonical_laws_def)
  let ?m = "CountLabel L target - min (int k) (CountLabel L d)"
  show ?thesis
  proof (cases "IsSubDomain L target d \<and> 0 < ?m")
    case False
    then show ?thesis by (auto simp: d_gap_def nm cur wc sub)
  next
    case True
    then have le: "CountLabel L target \<le> CountLabel L d"
      using IsSubDomain_count(2) [OF assms] by simp
    with True have k: "int k < CountLabel L d" by (auto simp: min_def split: if_splits)
    with True le count have fits: "k + nat ?m \<le> length (ancestors L ?s)" by simp arith
    let ?gs = "map ((!) (ancestors L ?s)) [k..<k + nat ?m]"
    have "d_gap L ?d target = Some ?gs"
      using True gap_loop_walker [OF lab w fits] by (simp add: d_gap_def nm cur wc sub)
    moreover have "\<forall>j < length ?gs. CountLabel L (?gs ! j) = int (k + j) \<and> IsSubDomain L (?gs ! j) d"
      using fits ancestors_count [OF lab] ancestor_IsSubDomain [OF assms] by simp
    ultimately show ?thesis using True by auto
  qed
qed

section \<open>The properties at a concrete name\<close>


theorem windTo_finds_witness:
  "name_laws plain_lib ''A.b.c'' \<and>
   (\<exists>d'. windTo plain_lib ''C'' (newDomain plain_lib ''A.b.c'') = Some (d', None)
      \<and> d_current d' = Some ''c.'')"
proof -
  have "IsSubDomain plain_lib ''C'' ''A.b.c''" "CanonicalName plain_lib ''C'' = ''c.''"
    by code_simp+
  then show ?thesis
    using windTo_finds [OF name_laws_example, of "''C''"] name_laws_example by auto
qed

theorem gap_names_witness:
  "name_laws plain_lib ''A.b.c'' \<and>
   (\<exists>gs. d_gap plain_lib ((d_next ^^ 1) (newDomain plain_lib ''A.b.c'')) ''a.b.c.'' = Some gs
      \<and> length gs = 2)"
proof -
  have "IsSubDomain plain_lib ''a.b.c.'' ''A.b.c''" "CountLabel plain_lib ''A.b.c'' = 3"
    "CountLabel plain_lib ''a.b.c.'' = 3"
    by code_simp+
  then show ?thesis
    using gap_names [OF name_laws_example, of 1 "''a.b.c.''"] name_laws_example by auto
qed

end
