(* ===== verification/Signatures.thy ===== *)
theory Signatures
  imports Records AuthResult Plain_Lib "HOL-Library.AList"
begin

text \<open>
  Signature sets: \<open>dnssec/signatures.go\<close> and \<open>dnssec/authenticate_rrset.go\<close>. A signature pairs an
  RRSIG record with the records it covers; \<open>authenticate\<close> builds the signatures of a section and
  checks each of them against the keys of the zone, \<open>Verify\<close> applies one of two policies to a set.
  The library calls \<open>Verify\<close>, \<open>KeyTag\<close>, \<open>ToDS\<close> and \<open>ValidityPeriod\<close> are fields of the library
  parameter; the clock is read once per call (\<open>now\<close>, in seconds).
\<close>

section \<open>Signatures\<close>

record signature =
  sg_zone :: string
  sg_name :: string
  sg_rtype :: u16
  sg_ttl :: u32
  sg_key :: "DNSKEY option"
  sg_rrsig :: RRSIG
  sg_rrset :: "RR list"
  sg_wildcard :: bool
  sg_verified :: bool
  sg_err :: "error option"
  sg_dsSha256 :: string

type_synonym signatures = "signature list"

definition filterOnType :: "signatures \<Rightarrow> u16 \<Rightarrow> signatures" where
  "filterOnType ss rtype = filter (\<lambda>sig. sg_rtype sig = rtype) ss"

text \<open>The size of a Go map used as a set is the number of distinct keys inserted.\<close>

definition countNameTypeCombinations :: "signatures \<Rightarrow> nat" where
  "countNameTypeCombinations ss = length (remdups (map (\<lambda>sig. (sg_name sig, sg_rtype sig)) ss))"

section \<open>Policies\<close>

text \<open>The error of a signature that is not verified, with the default where it has none.\<close>

definition sig_error :: "signature \<Rightarrow> error" where
  "sig_error s = (case sg_err s of None \<Rightarrow> DErr ErrUnableToVerify | Some e \<Rightarrow> e)"

text \<open>
  The per-type states of \<open>verifyOneOrMoreRRSigPerRRSet\<close>: whether a verified signature was seen, and
  the errors. The map is an association list in insertion order; the final loop ranges over it,
  and since Go's order is unspecified only the presence of an error is meaningful, not its shape.
\<close>

type_synonym rrsetState = "bool \<times> error option"

definition rrsetState_step :: "signature \<Rightarrow> rrsetState \<Rightarrow> rrsetState" where
  "rrsetState_step s state =
     (fst state \<or> sg_verified s,
      if sg_verified s then snd state
      else (case snd state of
              None \<Rightarrow> Some (sig_error s)
            | Some e \<Rightarrow> Some (Errorf [e, sig_error s])))"

fun states_loop :: "(u16 \<times> rrsetState) list \<Rightarrow> signatures \<Rightarrow> (u16 \<times> rrsetState) list" where
  "states_loop states [] = states"
| "states_loop states (s # ss) =
     (let state = (case map_of states (sg_rtype s) of None \<Rightarrow> (False, None) | Some st \<Rightarrow> st)
      in states_loop (AList.update (sg_rtype s) (rrsetState_step s state) states) ss)"

fun states_error :: "error option \<Rightarrow> (u16 \<times> rrsetState) list \<Rightarrow> error option" where
  "states_error err [] = err"
| "states_error err ((rtype, verifiedSigSeen, serr) # states) =
     (if \<not> verifiedSigSeen then
        states_error (Some (Errorf [
          (case err of None \<Rightarrow> DErr ErrVerifyFailed | Some e \<Rightarrow> e),
          (case serr of None \<Rightarrow> DErr ErrUnableToVerify | Some e \<Rightarrow> e)])) states
      else states_error err states)"

definition verifyOneOrMoreRRSigPerRRSet :: "signatures \<Rightarrow> error option" where
  "verifyOneOrMoreRRSigPerRRSet ss =
     (case ss of
        [] \<Rightarrow> Some (DErr ErrSignatureSetEmpty)
      | [s] \<Rightarrow> if sg_verified s then None else Some (Errorf [DErr ErrVerifyFailed, sig_error s])
      | _ \<Rightarrow> states_error None (states_loop [] ss))"

fun verifyAll_loop :: "error option \<Rightarrow> signatures \<Rightarrow> error option" where
  "verifyAll_loop err [] = err"
| "verifyAll_loop err (s # ss) =
     (if \<not> sg_verified s then
        verifyAll_loop (Some (Errorf [
          (case err of None \<Rightarrow> DErr ErrVerifyFailed | Some e \<Rightarrow> e), sig_error s])) ss
      else verifyAll_loop err ss)"

definition verifyAllRRSigsPerRRSet :: "signatures \<Rightarrow> error option" where
  "verifyAllRRSigsPerRRSet ss =
     (if length ss = 0 then Some (DErr ErrSignatureSetEmpty) else verifyAll_loop None ss)"

text \<open>\<open>requireAll\<close> is the package variable \<open>RequireAllSignaturesValid\<close>.\<close>

definition Verify :: "bool \<Rightarrow> signatures \<Rightarrow> error option" where
  "Verify requireAll ss =
     (if requireAll then verifyAllRRSigsPerRRSet ss else verifyOneOrMoreRRSigPerRRSet ss)"

definition Valid :: "bool \<Rightarrow> signatures \<Rightarrow> bool" where
  "Valid requireAll ss \<longleftrightarrow> Verify requireAll ss = None"

definition extractDSRecords :: "signatures \<Rightarrow> DS list" where
  "extractDSRecords ss =
     concat (map (\<lambda>s. extractRecords as_DS (sg_rrset s)) (filterOnType ss TypeDS))"

definition extractNSECRecords :: "signatures \<Rightarrow> NSEC list" where
  "extractNSECRecords ss =
     concat (map (\<lambda>s. extractRecords as_NSEC (sg_rrset s)) (filterOnType ss TypeNSEC))"

definition extractNSEC3Records :: "signatures \<Rightarrow> NSEC3 list" where
  "extractNSEC3Records ss =
     concat (map (\<lambda>s. extractRecords as_NSEC3 (sg_rrset s)) (filterOnType ss TypeNSEC3))"

section \<open>Authenticating a section\<close>

text \<open>The loop over the keys: it stops at the first key that verifies the signature.\<close>

fun keys_loop :: "dnslib \<Rightarrow> signature \<Rightarrow> DNSKEY list \<Rightarrow> signature option" where
  "keys_loop L sig [] = Some sig"
| "keys_loop L sig (key # keys) =
     (let rrsig = snd (sg_rrsig sig)
      in if keyAlgorithm (snd key) = sigAlgorithm rrsig \<and> KeyTag L key = sigKeyTag rrsig
            \<and> CanonicalName L (hName (fst key)) = CanonicalName L (sigSignerName rrsig)
         then (case VerifySig L (sg_rrsig sig) key (sg_rrset sig) of
                 Some e \<Rightarrow> keys_loop L (sig\<lparr>sg_err := Some (Errorf [DErr ErrInvalidSignature, e])\<rparr>) keys
               | None \<Rightarrow> do {
                   ds \<leftarrow> ToDS L key SHA256;
                   Some (sig\<lparr>sg_err := None, sg_key := Some key, sg_verified := True,
                             sg_dsSha256 := dsDigest (snd ds)\<rparr>)
                 })
         else keys_loop L sig keys)"

text \<open>
  The seconds left before a signature expires, by the serial-number arithmetic of the library's
  \<open>ValidityPeriod\<close>: Go's division truncates, the conversion to \<open>uint32\<close> wraps.
\<close>

definition year68 :: int where
  "year68 = 2 ^ 31"

definition sig_delta :: "u32 \<Rightarrow> int \<Rightarrow> u32" where
  "sig_delta expiration utc =
     (let mode = (uint expiration - utc) sdiv year68;
          te = uint expiration + mode * year68
      in word_of_int (te - utc))"

text \<open>One round of the loop over the RRSIG records.\<close>

definition authenticate_rrsig ::
  "dnslib \<Rightarrow> int \<Rightarrow> string \<Rightarrow> RR list \<Rightarrow> DNSKEY list \<Rightarrow> RRSIG \<Rightarrow> signature option" where
  "authenticate_rrsig L now zone rrsets dnskeys rrsig =
     (let owner = hName (fst rrsig);
          sig = \<lparr>sg_zone = zone, sg_name = owner, sg_rtype = sigTypeCovered (snd rrsig),
                 sg_ttl = min (hTtl (fst rrsig)) (sigOrigTtl (snd rrsig)),
                 sg_key = None, sg_rrsig = rrsig,
                 sg_rrset = extractRecordsOfNameAndType rrsets owner (sigTypeCovered (snd rrsig)),
                 sg_wildcard = False, sg_verified = False, sg_err = None, sg_dsSha256 = []\<rparr>
      in if CanonicalName L (sg_zone sig) \<noteq> CanonicalName L (sigSignerName (snd rrsig))
         then Some (sig\<lparr>sg_err := Some (Errorf [DErr ErrAuthSignerNameMismatch])\<rparr>)
         else if CountLabel L owner < uint (sigLabels (snd rrsig))
         then Some (sig\<lparr>sg_err := Some (Errorf [DErr ErrInvalidLabelCount])\<rparr>)
         else if \<not> ValidityPeriod L rrsig now
         then Some (sig\<lparr>sg_err := Some (Errorf [DErr ErrInvalidTime])\<rparr>)
         else do {
           let ttl = min (sg_ttl sig) (sig_delta (sigExpiration (snd rrsig)) now);
           let sig1 = sig\<lparr>sg_wildcard := CountLabel L owner > uint (sigLabels (snd rrsig)),
                          sg_ttl := min_over rr_ttl ttl (sg_rrset sig)\<rparr>;
           sig2 \<leftarrow> keys_loop L sig1 dnskeys;
           Some (if \<not> sg_verified sig2 \<and> sg_err sig2 = None
                 then sig2\<lparr>sg_err := Some (DErr ErrNoKeyFoundForSignature)\<rparr> else sig2)
         })"

fun mapM :: "('a \<Rightarrow> 'b option) \<Rightarrow> 'a list \<Rightarrow> 'b list option" where
  "mapM f [] = Some []"
| "mapM f (x # xs) = do { y \<leftarrow> f x; ys \<leftarrow> mapM f xs; Some (y # ys) }"

text \<open>The name and type combinations of a section that must be signed.\<close>

definition combinations :: "RR list \<Rightarrow> signatures \<Rightarrow> section_kind \<Rightarrow> (string \<times> u16) list" where
  "combinations rrsets ss sec =
     map (\<lambda>rr. (rr_name rr, rr_type rr))
       (filter (\<lambda>rr. rr_type rr \<noteq> TypeRRSIG \<and>
           \<not> (sec = authoritySection \<and> rr_type rr = TypeNS \<and> length (filterOnType ss TypeNS) = 0))
         rrsets)"

definition authenticate ::
  "dnslib \<Rightarrow> int \<Rightarrow> string \<Rightarrow> RR list \<Rightarrow> DNSKEY list \<Rightarrow> section_kind \<Rightarrow> (signatures \<times> error option) option" where
  "authenticate L now zone0 rrsets dnskeys sec = do {
     let zone = CanonicalName L zone0;
     ss \<leftarrow> mapM (authenticate_rrsig L now zone rrsets dnskeys) (extractRecords as_RRSIG rrsets);
     Some (ss, if length (remdups (combinations rrsets ss sec)) \<noteq> countNameTypeCombinations ss
               then Some (Errorf [DErr ErrUnexpectedSignatureCount]) else None)
   }"

section \<open>What the policies accept\<close>

lemma states_error_None: "states_error err states = None \<longleftrightarrow> err = None \<and> (\<forall>(t, seen, e) \<in> set states. seen)"
  by (induction err states rule: states_error.induct) auto

lemma states_loop_invariant:
  assumes "distinct (map fst states)"
  shows "distinct (map fst (states_loop states ss))
    \<and> (\<forall>t. map_option fst (map_of (states_loop states ss) t) =
        (case map_of states t of
           Some st \<Rightarrow> Some (fst st \<or> (\<exists>s \<in> set ss. sg_rtype s = t \<and> sg_verified s))
         | None \<Rightarrow> if \<exists>s \<in> set ss. sg_rtype s = t
                   then Some (\<exists>s \<in> set ss. sg_rtype s = t \<and> sg_verified s) else None))"
  using assms
proof (induction ss arbitrary: states)
  case Nil
  then show ?case by (auto split: option.splits)
next
  case (Cons s ss)
  let ?st = "case map_of states (sg_rtype s) of None \<Rightarrow> (False, None) | Some st \<Rightarrow> st"
  let ?states = "AList.update (sg_rtype s) (rrsetState_step s ?st) states"
  have "distinct (map fst ?states)" using Cons.prems by (rule distinct_update)
  note IH = Cons.IH [OF this]
  show ?case
  proof (intro conjI allI)
    show "distinct (map fst (states_loop states (s # ss)))" using IH by (simp add: Let_def)
    fix t
    show "map_option fst (map_of (states_loop states (s # ss)) t) =
        (case map_of states t of
           Some st \<Rightarrow> Some (fst st \<or> (\<exists>x \<in> set (s # ss). sg_rtype x = t \<and> sg_verified x))
         | None \<Rightarrow> if \<exists>x \<in> set (s # ss). sg_rtype x = t
                   then Some (\<exists>x \<in> set (s # ss). sg_rtype x = t \<and> sg_verified x) else None)"
      using IH [THEN conjunct2, rule_format, of t]
      by (auto simp: Let_def update_conv' rrsetState_step_def split: option.splits)
  qed
qed

lemma states_loop_seen:
  "(\<forall>(t, seen, e) \<in> set (states_loop [] ss). seen) \<longleftrightarrow>
     (\<forall>s \<in> set ss. \<exists>s' \<in> set ss. sg_rtype s' = sg_rtype s \<and> sg_verified s')"
proof -
  let ?st = "states_loop [] ss"
  from states_loop_invariant [of "[]" ss] have d: "distinct (map fst ?st)"
    and m: "\<And>t. map_option fst (map_of ?st t) =
      (if \<exists>s \<in> set ss. sg_rtype s = t then Some (\<exists>s \<in> set ss. sg_rtype s = t \<and> sg_verified s) else None)"
    by auto
  have "(\<forall>(t, seen, e) \<in> set ?st. seen) \<longleftrightarrow> (\<forall>t st. map_of ?st t = Some st \<longrightarrow> fst st)"
    using d by (auto simp: map_of_eq_Some_iff)
  also have "\<dots> \<longleftrightarrow> (\<forall>t. map_option fst (map_of ?st t) \<noteq> Some False)"
    by (auto simp: map_option_case split: option.splits)
  also have "\<dots> \<longleftrightarrow> (\<forall>s \<in> set ss. \<exists>s' \<in> set ss. sg_rtype s' = sg_rtype s \<and> sg_verified s')"
    by (auto simp: m)
  finally show ?thesis .
qed

lemma verifyAll_loop_None: "verifyAll_loop err ss = None \<longleftrightarrow> err = None \<and> (\<forall>s \<in> set ss. sg_verified s)"
  by (induction err ss rule: verifyAll_loop.induct) auto

lemma Verify_None_iff:
  "Verify requireAll ss = None \<longleftrightarrow>
     ss \<noteq> [] \<and>
     (if requireAll then \<forall>s \<in> set ss. sg_verified s
      else \<forall>s \<in> set ss. \<exists>s' \<in> set ss. sg_rtype s' = sg_rtype s \<and> sg_verified s')"
proof (cases requireAll)
  case True
  then show ?thesis by (simp add: Verify_def verifyAllRRSigsPerRRSet_def verifyAll_loop_None)
next
  case False
  show ?thesis
  proof (cases ss)
    case Nil
    with False show ?thesis by (simp add: Verify_def verifyOneOrMoreRRSigPerRRSet_def)
  next
    case (Cons s ss')
    then show ?thesis
      using False
      by (cases ss') (simp_all add: Verify_def verifyOneOrMoreRRSigPerRRSet_def states_error_None
          states_loop_seen del: states_loop.simps)
  qed
qed

lemma Verify_has_verified: "Verify requireAll ss = None \<Longrightarrow> \<exists>s \<in> set ss. sg_verified s"
  by (cases ss) (auto simp: Verify_None_iff split: if_splits)

section \<open>What \<open>authenticate\<close> establishes\<close>

lemma mapM_Some_iff: "mapM f xs = Some ys \<longleftrightarrow> list_all2 (\<lambda>x y. f x = Some y) xs ys"
proof (induction xs arbitrary: ys)
  case Nil
  then show ?case by auto
next
  case (Cons x xs)
  then show ?case by (cases ys) (auto simp: Option.bind_eq_Some_conv)
qed

lemma mapM_mem: "mapM f xs = Some ys \<Longrightarrow> y \<in> set ys \<Longrightarrow> \<exists>x \<in> set xs. f x = Some y"
  by (auto simp: mapM_Some_iff list_all2_conv_all_nth in_set_conv_nth) (metis nth_mem)

text \<open>A key is a candidate for a signature when algorithm, tag and owner agree.\<close>

definition candidate :: "dnslib \<Rightarrow> RRSIG \<Rightarrow> DNSKEY \<Rightarrow> bool" where
  "candidate L rrsig key \<longleftrightarrow>
     keyAlgorithm (snd key) = sigAlgorithm (snd rrsig) \<and> KeyTag L key = sigKeyTag (snd rrsig) \<and>
     CanonicalName L (hName (fst key)) = CanonicalName L (sigSignerName (snd rrsig))"

lemma keys_loop_frame:
  "keys_loop L sig keys = Some sig' \<Longrightarrow>
     sg_rrsig sig' = sg_rrsig sig \<and> sg_rrset sig' = sg_rrset sig \<and> sg_ttl sig' = sg_ttl sig \<and>
     sg_name sig' = sg_name sig \<and> sg_rtype sig' = sg_rtype sig \<and> sg_wildcard sig' = sg_wildcard sig \<and>
     sg_zone sig' = sg_zone sig"
  by (induction keys arbitrary: sig)
    (auto simp: Let_def split: if_splits option.splits Option.bind_splits)

lemma keys_loop_verified:
  assumes "keys_loop L sig keys = Some sig'" "\<not> sg_verified sig"
  shows "sg_verified sig' \<longleftrightarrow>
    (\<exists>key \<in> set keys. candidate L (sg_rrsig sig) key \<and> VerifySig L (sg_rrsig sig) key (sg_rrset sig) = None)"
  using assms
  by (induction keys arbitrary: sig)
    (auto simp: Let_def candidate_def split: if_splits option.splits Option.bind_splits)

lemma keys_loop_key:
  assumes "keys_loop L sig keys = Some sig'" "\<not> sg_verified sig" "sg_verified sig'"
    and "sg_rrsig sig = q" "sg_rrset sig = rrs"
  shows "\<exists>key \<in> set keys. sg_key sig' = Some key \<and> sg_err sig' = None \<and> candidate L q key
           \<and> VerifySig L q key rrs = None"
  using assms
proof (induction keys arbitrary: sig)
  case Nil
  then show ?case by simp
next
  case (Cons k keys)
  show ?case
  proof (cases "candidate L q k \<and> VerifySig L q k rrs = None")
    case True
    with Cons.prems show ?thesis by (auto simp: Let_def candidate_def split: Option.bind_splits)
  next
    case False
    with Cons.prems obtain e where "keys_loop L (sig\<lparr>sg_err := e\<rparr>) keys = Some sig'"
      by (cases "candidate L q k")
        (fastforce simp: Let_def candidate_def intro: that [of "sg_err sig"])+
    from Cons.IH [OF this] Cons.prems show ?thesis by auto
  qed
qed

text \<open>The checks before a signature is tried against the keys.\<close>

definition sig_checks :: "dnslib \<Rightarrow> int \<Rightarrow> string \<Rightarrow> RRSIG \<Rightarrow> bool" where
  "sig_checks L now zone rrsig \<longleftrightarrow>
     CanonicalName L zone = CanonicalName L (sigSignerName (snd rrsig)) \<and>
     uint (sigLabels (snd rrsig)) \<le> CountLabel L (hName (fst rrsig)) \<and>
     ValidityPeriod L rrsig now"

lemma authenticate_rrsig_frame:
  assumes "authenticate_rrsig L now zone rrsets dnskeys rrsig = Some s"
  shows "sg_rrsig s = rrsig \<and> sg_name s = hName (fst rrsig) \<and> sg_rtype s = sigTypeCovered (snd rrsig)
    \<and> sg_rrset s = extractRecordsOfNameAndType rrsets (hName (fst rrsig)) (sigTypeCovered (snd rrsig))"
  using assms
  by (auto simp: authenticate_rrsig_def Let_def dest!: keys_loop_frame
      split: if_splits Option.bind_splits)

lemma authenticate_rrsig_verified:
  assumes "authenticate_rrsig L now zone rrsets dnskeys rrsig = Some s"
  shows "sg_verified s \<longleftrightarrow> sig_checks L now zone rrsig \<and>
    (\<exists>key \<in> set dnskeys. candidate L rrsig key \<and> VerifySig L rrsig key (sg_rrset s) = None)"
  unfolding authenticate_rrsig_frame [OF assms, THEN conjunct2, THEN conjunct2, THEN conjunct2]
  using assms
  by (auto simp: authenticate_rrsig_def Let_def sig_checks_def dest!: keys_loop_verified
      split: if_splits Option.bind_splits)

lemma authenticate_rrsig_key:
  assumes "authenticate_rrsig L now zone rrsets dnskeys rrsig = Some s" "sg_verified s"
  shows "\<exists>key \<in> set dnskeys. sg_key s = Some key \<and> sg_err s = None \<and> candidate L rrsig key
           \<and> VerifySig L rrsig key (sg_rrset s) = None"
  unfolding authenticate_rrsig_frame [OF assms(1), THEN conjunct2, THEN conjunct2, THEN conjunct2]
  using assms
  by (auto simp: authenticate_rrsig_def Let_def dest!: keys_loop_key
      split: if_splits Option.bind_splits)

text \<open>
  The signature policies. The default policy accepts a set exactly when it is not empty and
  every record type that occurs in it has some verified signature; the strict policy accepts
  exactly a set that is not empty and all verified.
\<close>

theorem Verify_policy:
  "Verify requireAll ss = None \<longleftrightarrow>
     ss \<noteq> [] \<and>
     (if requireAll then list_all sg_verified ss
      else list_all (\<lambda>s. list_ex (\<lambda>s'. sg_rtype s' = sg_rtype s \<and> sg_verified s') ss) ss)"
  by (simp add: Verify_None_iff list_all_iff list_ex_iff)

text \<open>
  C15: a verified signature is one. If \<open>authenticate\<close> marks a signature as verified, the signer is
  the zone, the owner has at least as many labels as the signature counts, the clock is within the
  validity period, and a key of the given set with the signature's algorithm, tag and signer
  verifies it over exactly the records of the section with the signature's owner and covered type;
  and every signature that passes these tests is marked.
\<close>

theorem authenticate_verified_iff:
  assumes "authenticate L now zone rrsets dnskeys sec = Some (ss, err)" "s \<in> set ss"
  shows "sg_verified s \<longleftrightarrow>
    CanonicalName L (CanonicalName L zone) = CanonicalName L (sigSignerName (snd (sg_rrsig s))) \<and>
    uint (sigLabels (snd (sg_rrsig s))) \<le> CountLabel L (sg_name s) \<and>
    ValidityPeriod L (sg_rrsig s) now \<and>
    (\<exists>key \<in> set dnskeys.
       keyAlgorithm (snd key) = sigAlgorithm (snd (sg_rrsig s)) \<and>
       KeyTag L key = sigKeyTag (snd (sg_rrsig s)) \<and>
       CanonicalName L (hName (fst key)) = CanonicalName L (sigSignerName (snd (sg_rrsig s))) \<and>
       VerifySig L (sg_rrsig s) key
         (extractRecordsOfNameAndType rrsets (sg_name s) (sg_rtype s)) = None)"
proof -
  from assms have "mapM (authenticate_rrsig L now (CanonicalName L zone) rrsets dnskeys)
      (extractRecords as_RRSIG rrsets) = Some ss"
    by (auto simp: authenticate_def split: Option.bind_splits)
  from mapM_mem [OF this assms(2)] obtain rrsig
    where s: "authenticate_rrsig L now (CanonicalName L zone) rrsets dnskeys rrsig = Some s" by blast
  show ?thesis
    using authenticate_rrsig_verified [OF s] authenticate_rrsig_frame [OF s]
    by (auto simp: sig_checks_def candidate_def)
qed

text \<open>Within 68 years of the expiration the serial arithmetic is plain subtraction.\<close>

lemma sig_delta_window:
  assumes "now \<le> uint e" "uint e < now + 2 ^ 31"
  shows "uint (sig_delta e now) = uint e - now"
proof -
  have z: "(uint e - now) sdiv year68 = 0"
    using assms by (simp add: year68_def signed_divide_int_def sgn_if)
  have d: "sig_delta e now = word_of_int (uint e - now)"
    unfolding sig_delta_def Let_def by (simp only: z mult_zero_left add_0_right)
  show ?thesis unfolding d uint_word_of_int using assms by simp
qed

lemma authenticate_rrsig_ttl:
  assumes "authenticate_rrsig L now zone rrsets dnskeys rrsig = Some s"
  shows "sg_ttl s \<le> min (hTtl (fst rrsig)) (sigOrigTtl (snd rrsig)) \<and>
    (sg_verified s \<longrightarrow> sg_ttl s \<le> sig_delta (sigExpiration (snd rrsig)) now
       \<and> (\<forall>rr \<in> set (sg_rrset s). sg_ttl s \<le> rr_ttl rr))"
proof (cases "sig_checks L now zone rrsig")
  case False
  with assms show ?thesis
    by (auto simp: authenticate_rrsig_def Let_def sig_checks_def split: if_splits)
next
  case True
  let ?rrs = "extractRecordsOfNameAndType rrsets (hName (fst rrsig)) (sigTypeCovered (snd rrsig))"
  from assms True have "sg_ttl s = min_over rr_ttl (min (min (hTtl (fst rrsig)) (sigOrigTtl (snd rrsig)))
      (sig_delta (sigExpiration (snd rrsig)) now)) ?rrs"
    by (auto simp: authenticate_rrsig_def Let_def sig_checks_def dest!: keys_loop_frame
        split: if_splits Option.bind_splits)
  then show ?thesis
    using authenticate_rrsig_frame [OF assms] le_min_over_iff [of "sg_ttl s" rr_ttl _ ?rrs]
    by (metis min.bounded_iff order_refl)
qed

text \<open>
  The TTL of a signature. It never exceeds the TTL of the RRSIG record or its original-TTL
  field; for a verified signature it exceeds neither the TTL of any record it covers nor, within
  the 68 years of serial arithmetic, the seconds left until the signature expires. (RFC 4035,
  5.3.3.)
\<close>

theorem authenticate_ttl_bound:
  assumes "authenticate L now zone rrsets dnskeys sec = Some (ss, err)" "s \<in> set ss"
  shows "sg_ttl s \<le> hTtl (fst (sg_rrsig s)) \<and> sg_ttl s \<le> sigOrigTtl (snd (sg_rrsig s)) \<and>
    (sg_verified s \<longrightarrow> (\<forall>rr \<in> set (sg_rrset s). sg_ttl s \<le> rr_ttl rr) \<and>
       (now \<le> uint (sigExpiration (snd (sg_rrsig s))) \<and> uint (sigExpiration (snd (sg_rrsig s))) < now + 2 ^ 31
          \<longrightarrow> uint (sg_ttl s) \<le> uint (sigExpiration (snd (sg_rrsig s))) - now))"
proof -
  from assms have "mapM (authenticate_rrsig L now (CanonicalName L zone) rrsets dnskeys)
      (extractRecords as_RRSIG rrsets) = Some ss"
    by (auto simp: authenticate_def split: Option.bind_splits)
  from mapM_mem [OF this assms(2)] obtain rrsig
    where s: "authenticate_rrsig L now (CanonicalName L zone) rrsets dnskeys rrsig = Some s" by blast
  then have eq: "sg_rrsig s = rrsig" using authenticate_rrsig_frame by blast
  have "uint (sg_ttl s) \<le> uint (sig_delta (sigExpiration (snd rrsig)) now)" if "sg_verified s"
    using authenticate_rrsig_ttl [OF s] that by (simp add: word_le_def)
  then show ?thesis
    using authenticate_rrsig_ttl [OF s] sig_delta_window [of now "sigExpiration (snd rrsig)"]
    by (auto simp: eq)
qed

section \<open>The properties at concrete records\<close>

text \<open>A library in which exactly the signatures that read \<open>good\<close> verify, over a non-empty set.\<close>

definition sig_lib :: dnslib where
  "sig_lib = plain_lib\<lparr>
     KeyTag := (\<lambda>k. 7),
     ToDS := (\<lambda>k t. if t = SHA256 then
        Some (fst k, \<lparr>dsKeyTag = 7, dsAlgorithm = 13, dsDigestType = t, dsDigest = ''ab''\<rparr>) else None),
     VerifySig := (\<lambda>sig k rrs. if sigSignature (snd sig) = ''good'' \<and> rrs \<noteq> [] then None
        else Some (LibErr ''bad signature''))\<rparr>"

definition ex_rr :: "string \<Rightarrow> u16 \<Rightarrow> rdata \<Rightarrow> RR" where
  "ex_rr owner t d = \<lparr>Header = \<lparr>hName = owner, hRrtype = t, hClass = 1, hTtl = 300\<rparr>, Rdata = d\<rparr>"

definition ex_rrsig :: "string \<Rightarrow> u16 \<Rightarrow> u8 \<Rightarrow> string \<Rightarrow> RR" where
  "ex_rrsig owner t labels sig = ex_rr owner TypeRRSIG
     (RRSIG_R \<lparr>sigTypeCovered = t, sigAlgorithm = 13, sigLabels = labels, sigOrigTtl = 600,
        sigExpiration = 1000, sigInception = 0, sigKeyTag = 7, sigSignerName = ''e.'', sigSignature = sig\<rparr>)"

definition ex_key :: DNSKEY where
  "ex_key = (\<lparr>hName = ''e.'', hRrtype = TypeDNSKEY, hClass = 1, hTtl = 300\<rparr>,
     \<lparr>keyFlags = 257, keyProtocol = 3, keyAlgorithm = 13, keyPublicKey = ''k''\<rparr>)"

definition ex_answer :: "RR list" where
  "ex_answer = [ex_rr ''w.e.'' TypeA (A_R ''192.0.2.1''), ex_rrsig ''w.e.'' TypeA 2 ''good'']"

definition ex_sig :: signature where
  "ex_sig = \<lparr>sg_zone = ''e.'', sg_name = ''w.e.'', sg_rtype = TypeA, sg_ttl = 100, sg_key = Some ex_key,
     sg_rrsig = the (as_RRSIG (ex_rrsig ''w.e.'' TypeA 2 ''good'')),
     sg_rrset = [ex_rr ''w.e.'' TypeA (A_R ''192.0.2.1'')], sg_wildcard = False, sg_verified = True,
     sg_err = None, sg_dsSha256 = ''ab''\<rparr>"

lemma ex_authenticate: "authenticate sig_lib 900 ''E'' ex_answer [ex_key] answerSection = Some ([ex_sig], None)"
  by code_simp

theorem authenticate_verified_iff_witness:
  "authenticate sig_lib 900 ''E'' ex_answer [ex_key] answerSection = Some ([ex_sig], None)
   \<and> sg_verified ex_sig \<and> ValidityPeriod sig_lib (sg_rrsig ex_sig) 900"
proof -
  have "ex_sig \<in> set [ex_sig]" by simp
  from authenticate_verified_iff [OF ex_authenticate this] show ?thesis
    using ex_authenticate by (simp add: ex_sig_def)
qed

theorem authenticate_ttl_bound_witness:
  "authenticate sig_lib 900 ''E'' ex_answer [ex_key] answerSection = Some ([ex_sig], None)
   \<and> uint (sg_ttl ex_sig) \<le> 1000 - 900"
proof -
  have "ex_sig \<in> set [ex_sig]" by simp
  moreover have "sg_verified ex_sig" "uint (sigExpiration (snd (sg_rrsig ex_sig))) = 1000"
    by code_simp+
  ultimately show ?thesis
    using authenticate_ttl_bound [OF ex_authenticate] ex_authenticate by simp
qed

section \<open>Where the checks fall short\<close>

text \<open>
  The states of the default policy are kept per record type, not per record set, and the
  combinations are counted, not compared. A section with a good signature over one name, and
  records of another name under a signature that no key verifies, passes both checks.
\<close>

definition forged_answer :: "RR list" where
  "forged_answer = ex_answer @
     [ex_rr ''v.e.'' TypeA (A_R ''203.0.113.66''), ex_rrsig ''v.e.'' TypeA 2 ''forged'']"

theorem unverified_rrset_accepted:
  "\<exists>ss. authenticate sig_lib 900 ''e.'' forged_answer [ex_key] answerSection = Some (ss, None)
      \<and> Verify False ss = None
      \<and> (\<exists>s \<in> set ss. sg_name s = ''v.e.'' \<and> \<not> sg_verified s \<and> sg_rrset s \<noteq> [])"
proof -
  obtain ss where ss: "authenticate sig_lib 900 ''e.'' forged_answer [ex_key] answerSection = Some (ss, None)"
    and "Verify False ss = None" "list_ex (\<lambda>s. sg_name s = ''v.e.'' \<and> \<not> sg_verified s \<and> sg_rrset s \<noteq> []) ss"
  proof -
    have "case authenticate sig_lib 900 ''e.'' forged_answer [ex_key] answerSection of
        Some (ss, None) \<Rightarrow> Verify False ss = None
          \<and> list_ex (\<lambda>s. sg_name s = ''v.e.'' \<and> \<not> sg_verified s \<and> sg_rrset s \<noteq> []) ss
      | _ \<Rightarrow> False"
      by code_simp
    then show ?thesis using that by (auto split: option.splits)
  qed
  then show ?thesis by (auto simp: list_ex_iff)
qed

end
