(* ===== verification/Doe.thy ===== *)
theory Doe
  imports Records Plain_Lib
begin

text \<open>
  Denial of existence, the package \<open>dnssec/doe\<close>: the canonical order of names, the proofs from
  NSEC records and the proofs from NSEC3 records. The NSEC3 hash comparisons \<open>Match\<close> and \<open>Cover\<close>
  are operations of the DNS library.

  The first section models \<open>functions.go\<close> and shows that \<open>canonicalCmp\<close> is the three-way
  comparison of a linear preorder, the lexicographic order of the reversed, decoded labels.
  The next two hold the operations of \<open>nsec.go\<close> and \<open>nsec3.go\<close>; each loop is characterised by
  the records it looks for.
\<close>

section \<open>The canonical order of names\<close>

definition canonicalIsDigit :: "char \<Rightarrow> bool" where
  "canonicalIsDigit b \<longleftrightarrow> CHR ''0'' \<le> b \<and> b \<le> CHR ''9''"

text \<open>\<open>string(rune(n))\<close> is the UTF-8 encoding of \<open>n\<close>; three decimal digits stay below 2048.\<close>

definition rune_utf8 :: "nat \<Rightarrow> string" where
  "rune_utf8 n =
     (if n < 128 then [char_of n] else [char_of (192 + n div 64), char_of (128 + n mod 64)])"

definition digit_value :: "char \<Rightarrow> nat" where
  "digit_value c = of_char c - 48"

fun canonicalDecodeEscaped :: "string \<Rightarrow> string" where
  "canonicalDecodeEscaped [] = []"
| "canonicalDecodeEscaped (x # rest) =
     (case rest of
        a # b # c # rest' \<Rightarrow>
          if x = CHR 0x5C \<and> canonicalIsDigit a \<and> canonicalIsDigit b \<and> canonicalIsDigit c
          then rune_utf8 (100 * digit_value a + 10 * digit_value b + digit_value c)
                 @ canonicalDecodeEscaped rest'
          else rune_utf8 (of_char x) @ canonicalDecodeEscaped rest
      | _ \<Rightarrow> rune_utf8 (of_char x) @ canonicalDecodeEscaped rest)"

text \<open>A label as the loop of \<open>canonicalCmp\<close> compares it.\<close>

definition canonicalLabel :: "string \<Rightarrow> string" where
  "canonicalLabel l = (if CHR 0x5C \<in> set l then canonicalDecodeEscaped l else l)"

text \<open>The loop over the labels from the right: the first difference decides.\<close>

fun canonicalCmp_loop :: "(string \<times> string) list \<Rightarrow> int option" where
  "canonicalCmp_loop [] = None"
| "canonicalCmp_loop ((a, b) # ps) =
     (let labelA = canonicalLabel a; labelB = canonicalLabel b
      in if labelA \<noteq> labelB then (if labelA < labelB then Some (-1) else Some 1)
         else canonicalCmp_loop ps)"

definition canonicalCmp :: "dnslib \<Rightarrow> string \<Rightarrow> string \<Rightarrow> int" where
  "canonicalCmp L a b =
     (let labelsA = SplitDomainName L (CanonicalName L a);
          labelsB = SplitDomainName L (CanonicalName L b)
      in case canonicalCmp_loop (zip (rev labelsA) (rev labelsB)) of
           Some r \<Rightarrow> r
         | None \<Rightarrow> if length labelsA < length labelsB then -1
                   else if length labelsA > length labelsB then 1 else 0)"

text \<open>The reference order: lexicographic on the decoded labels, the rightmost label first.\<close>

definition order_key :: "dnslib \<Rightarrow> string \<Rightarrow> string list" where
  "order_key L a = map canonicalLabel (rev (SplitDomainName L (CanonicalName L a)))"

lemma canonicalCmp_labels:
  "(case canonicalCmp_loop (zip as bs) of
      Some r \<Rightarrow> r
    | None \<Rightarrow> if length as < length bs then -1 else if length as > length bs then 1 else 0)
   = (if map canonicalLabel as < map canonicalLabel bs then -1
      else if map canonicalLabel bs < map canonicalLabel as then 1 else (0::int))"
proof (induction as bs rule: list_induct2')
  case 1
  then show ?case by simp
next
  case (2 x xs)
  then show ?case by simp
next
  case (3 y ys)
  then show ?case by simp
next
  case (4 x xs y ys)
  show ?case
  proof (cases "canonicalLabel x = canonicalLabel y")
    case True
    with 4 show ?thesis by (simp add: Let_def split del: if_split cong: if_cong option.case_cong)
  next
    case False
    then show ?thesis by (auto simp: Let_def)
  qed
qed

lemma canonicalCmp_key:
  "canonicalCmp L a b =
     (if order_key L a < order_key L b then -1
      else if order_key L b < order_key L a then 1 else 0)"
  unfolding canonicalCmp_def order_key_def Let_def
  using canonicalCmp_labels [of "rev (SplitDomainName L (CanonicalName L a))"
      "rev (SplitDomainName L (CanonicalName L b))"]
  by (simp only: length_rev)

text \<open>The contract of a three-way comparison.\<close>

locale three_way =
  fixes cmp :: "'a \<Rightarrow> 'a \<Rightarrow> int"
  assumes cmp_range: "cmp a b \<in> {-1, 0, 1}"
    and cmp_sym: "cmp b a = - cmp a b"
    and cmp_trans: "cmp a b < 0 \<Longrightarrow> cmp b c < 0 \<Longrightarrow> cmp a c < 0"
    and cmp_cong: "cmp a b = 0 \<Longrightarrow> cmp a c = cmp b c"
begin

lemma cmp_refl: "cmp a a = 0"
  using cmp_sym [of a a] by simp

lemma cmp_irrefl: "\<not> cmp a a < 0"
  by (simp add: cmp_refl)

lemma cmp_asym: "cmp a b < 0 \<Longrightarrow> \<not> cmp b a < 0"
  using cmp_sym [of a b] by simp

lemma cmp_cong_right: "cmp a b = 0 \<Longrightarrow> cmp c a = cmp c b"
  using cmp_cong [of a b c] cmp_sym [of c a] cmp_sym [of c b] by simp

text \<open>A value strictly between two others is equivalent to neither.\<close>

lemma between_neq: "cmp a x < 0 \<Longrightarrow> cmp x b < 0 \<Longrightarrow> cmp a x \<noteq> 0 \<and> cmp b x \<noteq> 0 \<and> cmp a b < 0"
  using cmp_trans [of a x b] cmp_sym [of x b] by simp

text \<open>A value that falls in a gap of a sorted chain is equivalent to no member of the chain.\<close>

lemma chain_gap:
  assumes sorted: "sorted_wrt (\<lambda>a b. cmp a b < 0) ns" and i: "i < length ns"
    and lo: "cmp (ns ! i) x < 0" and hi: "Suc i < length ns \<Longrightarrow> cmp x (ns ! Suc i) < 0"
    and n: "n \<in> set ns"
  shows "cmp n x \<noteq> 0"
proof
  assume eq: "cmp n x = 0"
  from n obtain j where j: "j < length ns" "n = ns ! j" by (auto simp: in_set_conv_nth)
  have less: "cmp (ns ! a) (ns ! b) < 0" if "a < b" "b < length ns" for a b
    using sorted that by (simp add: sorted_wrt_iff_nth_less)
  consider "j = i" | "j < i" | "j = Suc i" | "Suc i < j" by linarith
  then show False
  proof cases
    case 1
    with eq lo j show False by simp
  next
    case 2
    with less [of j i] i lo cmp_trans [of n "ns ! i" x] eq j show False by simp
  next
    case 3
    with hi j cmp_sym [of x n] eq show False by simp
  next
    case 4
    with hi less [of "Suc i" j] cmp_trans [of x "ns ! Suc i" n] cmp_sym [of x n] eq j
    show False by simp
  qed
qed

end

interpretation canonical: three_way "canonicalCmp L" for L
  by unfold_locales (auto simp: canonicalCmp_key split: if_splits)

section \<open>Proofs from NSEC records\<close>

record DenialOfExistenceNSEC =
  nsecZone :: string
  nsecRecords :: "NSEC list"

definition NewDenialOfExistenceNSEC :: "string \<Rightarrow> NSEC list \<Rightarrow> DenialOfExistenceNSEC" where
  "NewDenialOfExistenceNSEC zone records = \<lparr>nsecZone = zone, nsecRecords = records\<rparr>"

definition nsec_Empty :: "DenialOfExistenceNSEC \<Rightarrow> bool" where
  "nsec_Empty doe \<longleftrightarrow> length (nsecRecords doe) = 0"

text \<open>The test both covering loops make of a record.\<close>

definition nsec_covers :: "dnslib \<Rightarrow> string \<Rightarrow> string \<Rightarrow> NSEC \<Rightarrow> bool" where
  "nsec_covers L zone name nsec \<longleftrightarrow>
     canonicalCmp L (hName (fst nsec)) name < 0 \<and>
     (CanonicalName L (nsecNextDomain (snd nsec)) = zone \<or>
      canonicalCmp L name (nsecNextDomain (snd nsec)) < 0)"

definition nsec_verifyQNameCovered :: "dnslib \<Rightarrow> DenialOfExistenceNSEC \<Rightarrow> string \<Rightarrow> bool" where
  "nsec_verifyQNameCovered L doe qname =
     list_ex (nsec_covers L (nsecZone doe) (CanonicalName L qname)) (nsecRecords doe)"

definition nsec_verifyWildcardCovered ::
  "dnslib \<Rightarrow> DenialOfExistenceNSEC \<Rightarrow> string \<Rightarrow> bool option" where
  "nsec_verifyWildcardCovered L doe qname = do {
     wildcard \<leftarrow> wildcardName L (CanonicalName L qname);
     Some (list_ex (nsec_covers L (nsecZone doe) wildcard) (nsecRecords doe))
   }"

definition nsec_PerformQNameDoesNotExistProof ::
  "dnslib \<Rightarrow> DenialOfExistenceNSEC \<Rightarrow> string \<Rightarrow> bool option" where
  "nsec_PerformQNameDoesNotExistProof L doe qname =
     (if nsec_Empty doe \<or> \<not> nsec_verifyQNameCovered L doe qname then Some False
      else nsec_verifyWildcardCovered L doe qname)"

definition nsec_PerformExpandedWildcardProof ::
  "dnslib \<Rightarrow> DenialOfExistenceNSEC \<Rightarrow> string \<Rightarrow> bool option" where
  "nsec_PerformExpandedWildcardProof L doe qname =
     (if nsec_Empty doe \<or> \<not> nsec_verifyQNameCovered L doe qname then Some False
      else map_option Not (nsec_verifyWildcardCovered L doe qname))"

text \<open>The loop of both \<open>TypeBitMapContainsAnyOf\<close>, over the records that match the name.\<close>

fun bitmap_loop :: "('r \<Rightarrow> bool) \<Rightarrow> ('r \<Rightarrow> u16 list) \<Rightarrow> u16 list \<Rightarrow> bool \<Rightarrow> 'r list \<Rightarrow> bool \<times> bool" where
  "bitmap_loop matches bitmap types nameSeen [] = (nameSeen, False)"
| "bitmap_loop matches bitmap types nameSeen (r # rs) =
     (if \<not> matches r then bitmap_loop matches bitmap types nameSeen rs
      else if list_ex (\<lambda>t. t \<in> set (bitmap r)) types then (True, True)
      else bitmap_loop matches bitmap types True rs)"

definition nsec_TypeBitMapContainsAnyOf ::
  "dnslib \<Rightarrow> DenialOfExistenceNSEC \<Rightarrow> string \<Rightarrow> u16 list \<Rightarrow> bool \<times> bool" where
  "nsec_TypeBitMapContainsAnyOf L doe name types =
     bitmap_loop (\<lambda>nsec. name = CanonicalName L (hName (fst nsec)))
       (\<lambda>nsec. nsecTypeBitMap (snd nsec)) types False (nsecRecords doe)"

section \<open>Proofs from NSEC3 records\<close>

record DenialOfExistenceNSEC3 =
  n3Zone :: string
  n3Records :: "NSEC3 list"

definition NewDenialOfExistenceNSEC3 :: "string \<Rightarrow> NSEC3 list \<Rightarrow> DenialOfExistenceNSEC3" where
  "NewDenialOfExistenceNSEC3 zone records =
     \<lparr>n3Zone = zone,
      n3Records = filter (\<lambda>r. n3Hash (snd r) = SHA1 \<and> \<not> (n3Flags (snd r) < 0 \<or> n3Flags (snd r) > 1)) records\<rparr>"

definition nsec3_Empty :: "DenialOfExistenceNSEC3 \<Rightarrow> bool" where
  "nsec3_Empty doe \<longleftrightarrow> length (n3Records doe) = 0"

fun nsec3_wildcard_loop :: "dnslib \<Rightarrow> string \<Rightarrow> bool \<Rightarrow> NSEC3 list \<Rightarrow> bool" where
  "nsec3_wildcard_loop L wildcard wildcardProof [] = wildcardProof"
| "nsec3_wildcard_loop L wildcard wildcardProof (nsec3 # rs) =
     (if Match L nsec3 wildcard then False
      else nsec3_wildcard_loop L wildcard
             (if Cover L nsec3 wildcard then True else wildcardProof) rs)"

definition nsec3_verifyWildcardCovered :: "dnslib \<Rightarrow> DenialOfExistenceNSEC3 \<Rightarrow> string \<Rightarrow> bool" where
  "nsec3_verifyWildcardCovered L doe closestEncloser =
     nsec3_wildcard_loop L (''*.'' @ closestEncloser) False (n3Records doe)"

definition nsec3_verifyWildcardMatched :: "dnslib \<Rightarrow> DenialOfExistenceNSEC3 \<Rightarrow> string \<Rightarrow> bool" where
  "nsec3_verifyWildcardMatched L doe closestEncloser =
     list_ex (\<lambda>nsec3. Match L nsec3 (''*.'' @ closestEncloser)) (n3Records doe)"

fun nsec3_next_closer_loop ::
  "dnslib \<Rightarrow> string \<Rightarrow> bool \<Rightarrow> bool \<Rightarrow> NSEC3 list \<Rightarrow> bool \<times> bool" where
  "nsec3_next_closer_loop L ncn optedOut proof [] = (optedOut, proof)"
| "nsec3_next_closer_loop L ncn optedOut proof (nsec3 # rs) =
     (if Match L nsec3 ncn then (False, False)
      else if Cover L nsec3 ncn
      then nsec3_next_closer_loop L ncn (optedOut \<or> n3Flags (snd nsec3) = 1) True rs
      else nsec3_next_closer_loop L ncn optedOut proof rs)"

definition nsec3_verifyNextCloserNameCovered ::
  "dnslib \<Rightarrow> DenialOfExistenceNSEC3 \<Rightarrow> string \<Rightarrow> bool \<times> bool" where
  "nsec3_verifyNextCloserNameCovered L doe nextCloserName =
     nsec3_next_closer_loop L nextCloserName False False (n3Records doe)"

definition nsec3_TypeBitMapContainsAnyOf ::
  "dnslib \<Rightarrow> DenialOfExistenceNSEC3 \<Rightarrow> string \<Rightarrow> u16 list \<Rightarrow> bool \<times> bool" where
  "nsec3_TypeBitMapContainsAnyOf L doe name types =
     bitmap_loop (\<lambda>nsec3. Match L nsec3 name)
       (\<lambda>nsec3. n3TypeBitMap (snd nsec3)) types False (n3Records doe)"

text \<open>
  The inner loop of \<open>FindClosestEncloser\<close> over the label offsets: \<open>Some None\<close> when the record
  gives no contender. The two \<open>continue\<close>s leave \<open>last\<close> as it is.
\<close>

fun closest_encloser_loop ::
  "dnslib \<Rightarrow> string \<Rightarrow> string \<Rightarrow> NSEC3 \<Rightarrow> int \<Rightarrow> int list \<Rightarrow> (string \<times> string) option option" where
  "closest_encloser_loop L zone qname nsec3 last_i [] = Some None"
| "closest_encloser_loop L zone qname nsec3 last_i (i # is') = do {
     name \<leftarrow> slice_from qname i;
     if \<not> IsSubDomain L zone name then Some None
     else if Match L nsec3 name then
       (if TypeDNAME \<in> set (n3TypeBitMap (snd nsec3))
        then closest_encloser_loop L zone qname nsec3 last_i is'
        else if TypeNS \<in> set (n3TypeBitMap (snd nsec3)) \<and> TypeSOA \<notin> set (n3TypeBitMap (snd nsec3))
        then closest_encloser_loop L zone qname nsec3 last_i is'
        else do {
          ncn \<leftarrow> slice_from qname last_i;
          Some (Some (name, ncn))
        })
     else closest_encloser_loop L zone qname nsec3 i is'
   }"

fun contenders :: "dnslib \<Rightarrow> string \<Rightarrow> string \<Rightarrow> NSEC3 list \<Rightarrow> (string \<times> string) list option" where
  "contenders L zone qname [] = Some []"
| "contenders L zone qname (nsec3 # rs) = do {
     c \<leftarrow> closest_encloser_loop L zone qname nsec3 0 (Split L qname);
     cs \<leftarrow> contenders L zone qname rs;
     Some (case c of None \<Rightarrow> cs | Some p \<Rightarrow> p # cs)
   }"

definition longest :: "string \<times> string \<Rightarrow> (string \<times> string) list \<Rightarrow> string \<times> string" where
  "longest p ps = foldl (\<lambda>best c. if length (fst c) > length (fst best) then c else best) p ps"

text \<open>The result \<open>None\<close> inside the outer option is the code's \<open>ok = false\<close>.\<close>

definition FindClosestEncloser ::
  "dnslib \<Rightarrow> DenialOfExistenceNSEC3 \<Rightarrow> string \<Rightarrow> (string \<times> string) option option" where
  "FindClosestEncloser L doe qname = do {
     cs \<leftarrow> contenders L (n3Zone doe) qname (n3Records doe);
     Some (case cs of [] \<Rightarrow> None | p # ps \<Rightarrow> Some (longest p ps))
   }"

text \<open>Opted out, closest encloser proved, next closer name covered, wildcard covered.\<close>

definition PerformClosestEncloserProof ::
  "dnslib \<Rightarrow> DenialOfExistenceNSEC3 \<Rightarrow> string \<Rightarrow> (bool \<times> bool \<times> bool \<times> bool) option" where
  "PerformClosestEncloserProof L doe name =
     (if nsec3_Empty doe then Some (False, False, False, False)
      else do {
        found \<leftarrow> FindClosestEncloser L doe name;
        Some (case found of
          None \<Rightarrow> (False, False, False, False)
        | Some (closestEncloser, nextCloserName) \<Rightarrow>
            let wildcardProof = nsec3_verifyWildcardCovered L doe closestEncloser;
                (optedOut, nextCloserNameProof) = nsec3_verifyNextCloserNameCovered L doe nextCloserName
            in (optedOut, True, nextCloserNameProof, wildcardProof))
      })"

definition nsec3_PerformExpandedWildcardProof ::
  "dnslib \<Rightarrow> DenialOfExistenceNSEC3 \<Rightarrow> string \<Rightarrow> u8 \<Rightarrow> bool option" where
  "nsec3_PerformExpandedWildcardProof L doe sigName sigNameLabels = do {
     let labelIndexs = Split L sigName;
     let closestEncloserIndex = int (length labelIndexs) - uint sigNameLabels;
     ci \<leftarrow> at labelIndexs closestEncloserIndex;
     closestEncloser \<leftarrow> slice_from sigName ci;
     ni \<leftarrow> at labelIndexs (closestEncloserIndex - 1);
     nextCloserName \<leftarrow> slice_from sigName ni;
     let wildcardProof = nsec3_verifyWildcardCovered L doe closestEncloser
                           \<or> nsec3_verifyWildcardMatched L doe closestEncloser;
     let (_, nextCloserNameProof) = nsec3_verifyNextCloserNameCovered L doe nextCloserName;
     Some (\<not> wildcardProof \<and> nextCloserNameProof)
   }"

section \<open>What the loops look for\<close>

lemma bitmap_loop_spec [loop_specs]:
  "bitmap_loop matches bitmap types seen rs =
     (seen \<or> (\<exists>r \<in> set rs. matches r),
      \<exists>r \<in> set rs. matches r \<and> (\<exists>t \<in> set types. t \<in> set (bitmap r)))"
  by (induction rs arbitrary: seen) (auto simp: list_ex_iff)

lemma nsec3_wildcard_loop_spec [loop_specs]:
  "nsec3_wildcard_loop L w p rs \<longleftrightarrow>
     (\<forall>r \<in> set rs. \<not> Match L r w) \<and> (p \<or> (\<exists>r \<in> set rs. Cover L r w))"
  by (induction rs arbitrary: p) auto

lemma nsec3_next_closer_loop_spec [loop_specs]:
  "nsec3_next_closer_loop L ncn opt p rs =
     ((\<forall>r \<in> set rs. \<not> Match L r ncn) \<and> (opt \<or> (\<exists>r \<in> set rs. Cover L r ncn \<and> n3Flags (snd r) = 1)),
      (\<forall>r \<in> set rs. \<not> Match L r ncn) \<and> (p \<or> (\<exists>r \<in> set rs. Cover L r ncn)))"
  by (induction rs arbitrary: opt p) auto

lemma nsec3_NextCloser_spec:
  "nsec3_verifyNextCloserNameCovered L doe ncn =
     ((\<forall>r \<in> set (n3Records doe). \<not> Match L r ncn)
        \<and> (\<exists>r \<in> set (n3Records doe). Cover L r ncn \<and> n3Flags (snd r) = 1),
      (\<forall>r \<in> set (n3Records doe). \<not> Match L r ncn) \<and> (\<exists>r \<in> set (n3Records doe). Cover L r ncn))"
  by (simp add: nsec3_verifyNextCloserNameCovered_def nsec3_next_closer_loop_spec)

lemma nsec_verifyQNameCovered_iff:
  "nsec_verifyQNameCovered L doe qname \<longleftrightarrow>
     (\<exists>r \<in> set (nsecRecords doe). nsec_covers L (nsecZone doe) (CanonicalName L qname) r)"
  by (simp add: nsec_verifyQNameCovered_def list_ex_iff)

section \<open>The closest encloser\<close>

text \<open>A record that RFC 5155 lets stand for a closest encloser.\<close>

definition eligible :: "NSEC3 \<Rightarrow> bool" where
  "eligible r \<longleftrightarrow> TypeDNAME \<notin> set (n3TypeBitMap (snd r)) \<and>
     \<not> (TypeNS \<in> set (n3TypeBitMap (snd r)) \<and> TypeSOA \<notin> set (n3TypeBitMap (snd r)))"

text \<open>
  \<open>encloses\<close>: the suffix of \<open>qname\<close> at offset \<open>i\<close> is in the zone, with every longer suffix
  (those at the offsets \<open>pre\<close>), and the record \<open>r\<close> is eligible and matches it.
\<close>

definition encloses :: "dnslib \<Rightarrow> string \<Rightarrow> string \<Rightarrow> NSEC3 \<Rightarrow> int list \<Rightarrow> int \<Rightarrow> bool" where
  "encloses L zone qname r pre i \<longleftrightarrow>
     eligible r \<and> Match L r (drop (nat i) qname) \<and>
     (\<forall>j \<in> set (pre @ [i]). IsSubDomain L zone (drop (nat j) qname))"

lemma closest_encloser_loop_total:
  assumes "0 \<le> last_i" "last_i \<le> int (length qname)"
    and "\<forall>i \<in> set idxs. 0 \<le> i \<and> i \<le> int (length qname)"
  shows "closest_encloser_loop L zone qname r last_i idxs \<noteq> None"
  using assms
  by (induction idxs arbitrary: last_i) (auto simp: go_simps)

lemma closest_encloser_loop_Some:
  assumes "closest_encloser_loop L zone qname r last_i idxs = Some (Some (ce, ncn))"
  shows "\<exists>pre i post. idxs = pre @ i # post \<and> ce = drop (nat i) qname \<and> encloses L zone qname r pre i
           \<and> (\<forall>j \<in> set pre. \<not> Match L r (drop (nat j) qname))
           \<and> ncn = drop (nat (if pre = [] then last_i else last pre)) qname"
  using assms
proof (induction idxs arbitrary: last_i)
  case Nil
  then show ?case by simp
next
  case (Cons i idxs)
  from Cons.prems obtain name where name: "slice_from qname i = Some name"
    and nm: "name = drop (nat i) qname" and zone: "IsSubDomain L zone name"
    by (auto simp: slice_from_Some_iff split: if_splits Option.bind_splits)
  show ?case
  proof (cases "Match L r name")
    case True
    show ?thesis
    proof (cases "eligible r")
      case el: True
      with Cons.prems name zone True have "ce = name" "slice_from qname last_i = Some ncn"
        by (auto simp: eligible_def split: if_splits Option.bind_splits)
      with True el zone nm show ?thesis
        by (intro exI [of _ "[]"] exI [of _ i] exI [of _ idxs])
          (auto simp: encloses_def slice_from_Some_iff)
    next
      case False
      with Cons.prems name zone True
      have "closest_encloser_loop L zone qname r last_i idxs = Some (Some (ce, ncn))"
        by (auto simp: eligible_def split: if_splits)
      with Cons.IH False show ?thesis by (fastforce simp: encloses_def)
    qed
  next
    case False
    with Cons.prems name zone
    have "closest_encloser_loop L zone qname r i idxs = Some (Some (ce, ncn))" by simp
    with Cons.IH obtain pre k post where IH: "idxs = pre @ k # post" "ce = drop (nat k) qname"
      "encloses L zone qname r pre k" "\<forall>j \<in> set pre. \<not> Match L r (drop (nat j) qname)"
      "ncn = drop (nat (if pre = [] then i else last pre)) qname"
      by blast
    with False zone nm show ?thesis
      by (intro exI [of _ "i # pre"] exI [of _ k] exI [of _ post]) (auto simp: encloses_def)
  qed
qed

lemma closest_encloser_loop_None:
  assumes "closest_encloser_loop L zone qname r last_i idxs = Some None"
  shows "\<not> (\<exists>pre i post. idxs = pre @ i # post \<and> encloses L zone qname r pre i)"
  using assms
proof (induction idxs arbitrary: last_i)
  case Nil
  then show ?case by simp
next
  case (Cons i idxs)
  show ?case
  proof
    assume "\<exists>pre k post. i # idxs = pre @ k # post \<and> encloses L zone qname r pre k"
    then obtain pre k post where eq: "i # idxs = pre @ k # post" and enc: "encloses L zone qname r pre k"
      by blast
    then have el: "eligible r" and zone: "IsSubDomain L zone (drop (nat i) qname)"
      by (auto simp: encloses_def Cons_eq_append_conv)
    with Cons.prems have nomatch: "\<not> Match L r (drop (nat i) qname)"
      and rest: "closest_encloser_loop L zone qname r i idxs = Some None"
      by (auto simp: eligible_def slice_from_Some_iff split: if_splits Option.bind_splits)
    with eq enc obtain pre' where "pre = i # pre'" and "idxs = pre' @ k # post"
      by (auto simp: encloses_def Cons_eq_append_conv)
    with enc have "encloses L zone qname r pre' k" by (simp add: encloses_def)
    with Cons.IH [OF rest] \<open>idxs = pre' @ k # post\<close> show False by blast
  qed
qed

lemma contenders_total:
  assumes "\<forall>i \<in> set (Split L qname). 0 \<le> i \<and> i \<le> int (length qname)"
  shows "contenders L zone qname rs \<noteq> None"
proof (induction rs)
  case Nil
  then show ?case by simp
next
  case (Cons r rs)
  obtain c where "closest_encloser_loop L zone qname r 0 (Split L qname) = Some c"
    using closest_encloser_loop_total [OF _ _ assms, of 0] by fastforce
  with Cons show ?case by auto
qed

lemma contenders_set:
  assumes "contenders L zone qname rs = Some cs"
  shows "set cs = {c. \<exists>r \<in> set rs. closest_encloser_loop L zone qname r 0 (Split L qname) = Some (Some c)}"
  using assms
  by (induction rs arbitrary: cs) (auto split: option.splits Option.bind_splits)

lemma contenders_all_Some:
  assumes "contenders L zone qname rs = Some cs" "r \<in> set rs"
  shows "\<exists>c. closest_encloser_loop L zone qname r 0 (Split L qname) = Some c"
  using assms by (induction rs arbitrary: cs) (auto split: Option.bind_splits)

lemma longest_spec:
  "longest p ps \<in> set (p # ps) \<and> (\<forall>c \<in> set (p # ps). length (fst c) \<le> length (fst (longest p ps)))"
proof (induction ps arbitrary: p)
  case Nil
  then show ?case by (simp add: longest_def)
next
  case (Cons c ps)
  let ?b = "if length (fst c) > length (fst p) then c else p"
  have "longest p (c # ps) = longest ?b ps" by (simp add: longest_def)
  with Cons.IH [of ?b] show ?case by (auto split: if_splits)
qed

text \<open>The suffixes of \<open>qname\<close> that enclose it according to some record.\<close>

definition enclosers :: "dnslib \<Rightarrow> DenialOfExistenceNSEC3 \<Rightarrow> string \<Rightarrow> string set" where
  "enclosers L doe qname =
     {e. \<exists>r \<in> set (n3Records doe). \<exists>pre i post. Split L qname = pre @ i # post
           \<and> encloses L (n3Zone doe) qname r pre i \<and> e = drop (nat i) qname}"

lemma split_prefix_longer:
  assumes "label_laws L q" "Split L q = pre @ i # post" "Split L q = pre' @ i' # post'"
    and "length pre \<le> length pre'"
  shows "length (drop (nat i') q) \<le> length (drop (nat i) q)"
proof -
  have "i = Split L q ! length pre" "i' = Split L q ! length pre'"
    using assms(2,3) by (metis nth_append_length)+
  moreover have "length pre' < length (Split L q)" using assms(3) by simp
  ultimately have "i \<le> i'"
    using assms(1,4) by (auto simp: label_laws_def le_less sorted_wrt_iff_nth_less)
  then show ?thesis by simp
qed

text \<open>A contender is at least as long as everything its own record encloses.\<close>

lemma contender_longest_of_record:
  assumes laws: "label_laws L q"
    and c: "closest_encloser_loop L zone q r 0 (Split L q) = Some (Some (ce, ncn))"
    and e: "Split L q = pre @ i # post" "encloses L zone q r pre i"
  shows "length (drop (nat i) q) \<le> length ce"
proof -
  from closest_encloser_loop_Some [OF c] obtain pre' k post' where k: "Split L q = pre' @ k # post'"
    "ce = drop (nat k) q" "\<forall>j \<in> set pre'. \<not> Match L r (drop (nat j) q)" by blast
  have "length pre' \<le> length pre"
  proof (rule ccontr)
    assume "\<not> ?thesis"
    then have lt: "length pre < length pre'" by simp
    then have "pre' ! length pre = Split L q ! length pre" using k(1) by (simp add: nth_append)
    also have "\<dots> = i" using e(1) by simp
    finally have "i \<in> set pre'" using lt by (metis nth_mem)
    with k(3) e(2) show False by (auto simp: encloses_def)
  qed
  with split_prefix_longer [OF laws k(1) e(1)] k(2) show ?thesis by simp
qed

lemma encloser_has_contender:
  assumes laws: "label_laws L qname"
    and cs: "contenders L (n3Zone doe) qname (n3Records doe) = Some cs"
    and e: "e \<in> enclosers L doe qname"
  shows "\<exists>c \<in> set cs. length e \<le> length (fst c)"
proof -
  let ?loop = "\<lambda>r. closest_encloser_loop L (n3Zone doe) qname r 0 (Split L qname)"
  from e obtain r pre i post where r: "r \<in> set (n3Records doe)" "Split L qname = pre @ i # post"
    "encloses L (n3Zone doe) qname r pre i" "e = drop (nat i) qname"
    by (auto simp: enclosers_def)
  from contenders_all_Some [OF cs r(1)] obtain c where c: "?loop r = Some c" by blast
  from r(2,3) closest_encloser_loop_None [of L "n3Zone doe" qname r 0 "Split L qname"]
  have "?loop r \<noteq> Some None" by blast
  with c obtain p where p: "?loop r = Some (Some p)" by (cases c) auto
  then have "?loop r = Some (Some (fst p, snd p))" by simp
  from contender_longest_of_record [OF laws this r(2,3)] r(4) have "length e \<le> length (fst p)" by simp
  moreover from p r(1) contenders_set [OF cs] have "p \<in> set cs" by blast
  ultimately show ?thesis by blast
qed

lemma contender_encloses:
  assumes cs: "contenders L (n3Zone doe) qname (n3Records doe) = Some cs" and c: "c \<in> set cs"
  shows "fst c \<in> enclosers L doe qname \<and> (\<exists>pre i post. Split L qname = pre @ i # post \<and>
      fst c = drop (nat i) qname \<and> snd c = drop (nat (if pre = [] then 0 else last pre)) qname)"
proof -
  from c contenders_set [OF cs] obtain r where r: "r \<in> set (n3Records doe)"
    "closest_encloser_loop L (n3Zone doe) qname r 0 (Split L qname) = Some (Some (fst c, snd c))"
    by auto
  from closest_encloser_loop_Some [OF r(2)] r(1) show ?thesis
    unfolding enclosers_def by blast
qed

lemma FindClosestEncloser_spec:
  assumes "label_laws L qname"
  shows "case FindClosestEncloser L doe qname of
           None \<Rightarrow> False
         | Some None \<Rightarrow> enclosers L doe qname = {}
         | Some (Some (ce, ncn)) \<Rightarrow>
             ce \<in> enclosers L doe qname \<and> (\<forall>e \<in> enclosers L doe qname. length e \<le> length ce) \<and>
             (\<exists>pre i post. Split L qname = pre @ i # post \<and> ce = drop (nat i) qname \<and>
                ncn = drop (nat (if pre = [] then 0 else last pre)) qname)"
proof -
  from assms have "\<forall>i \<in> set (Split L qname). 0 \<le> i \<and> i \<le> int (length qname)"
    by (fastforce simp: label_laws_def)
  then obtain cs where cs: "contenders L (n3Zone doe) qname (n3Records doe) = Some cs"
    using contenders_total by blast
  show ?thesis
  proof (cases cs)
    case Nil
    with encloser_has_contender [OF assms cs] have "enclosers L doe qname = {}" by auto
    with Nil cs show ?thesis by (simp add: FindClosestEncloser_def)
  next
    case (Cons p ps)
    let ?c = "longest p ps"
    have c: "?c \<in> set cs" "\<forall>c \<in> set cs. length (fst c) \<le> length (fst ?c)"
      using longest_spec [of p ps] Cons by auto
    with encloser_has_contender [OF assms cs]
    have "\<forall>e \<in> enclosers L doe qname. length e \<le> length (fst ?c)" by (meson le_trans)
    moreover obtain ce ncn where cn: "?c = (ce, ncn)" by (cases ?c)
    with Cons cs have found: "FindClosestEncloser L doe qname = Some (Some (ce, ncn))"
      by (simp add: FindClosestEncloser_def)
    ultimately show ?thesis
      using contender_encloses [OF cs c(1)] unfolding found option.case prod.case cn fst_conv snd_conv
      by blast
  qed
qed

text \<open>
  C13: \<open>FindClosestEncloser\<close> is total and right: it reports no encloser exactly when no eligible
  NSEC3 record matches a suffix of the name inside the zone; otherwise it reports the longest of
  the suffixes that one does match, and as next closer name the suffix with one label more (or
  the name itself, when the name itself is matched).
\<close>

theorem FindClosestEncloser_longest:
  assumes "label_laws L qname"
  shows "case FindClosestEncloser L doe qname of
           None \<Rightarrow> False
         | Some None \<Rightarrow> enclosers L doe qname = {}
         | Some (Some (ce, ncn)) \<Rightarrow>
             ce \<in> enclosers L doe qname \<and> (\<forall>e \<in> enclosers L doe qname. length e \<le> length ce) \<and>
             (\<exists>pre i post. Split L qname = pre @ i # post \<and> ce = drop (nat i) qname \<and>
                ncn = drop (nat (if pre = [] then 0 else last pre)) qname)"
  by (rule FindClosestEncloser_spec [OF assms])

lemma label_laws_first:
  "label_laws L q \<Longrightarrow> Split L q = pre @ i # post \<Longrightarrow> length q \<le> length (drop (nat i) q) \<Longrightarrow> pre = []"
proof (rule ccontr)
  assume laws: "label_laws L q" and s: "Split L q = pre @ i # post"
    and len: "length q \<le> length (drop (nat i) q)" and pre: "pre \<noteq> []"
  from pre obtain a pre' where "pre = a # pre'" by (cases pre) auto
  with laws s have "a = 0" and "a < i" by (simp_all add: label_laws_def)
  moreover from laws s have "i < int (length q) - 1" by (auto simp: label_laws_def)
  ultimately show False using len \<open>a = 0\<close> by simp
qed

text \<open>
  C28: a name that exists is not denied. When an eligible NSEC3 record of the set matches the name
  itself and the name and its suffixes are in the zone, the closest encloser proof of that name
  succeeds in no covering of a next closer name and reports no opt-out, whatever the other
  records say.
\<close>

theorem closest_encloser_no_denial:
  assumes laws: "label_laws L qname" "Split L qname \<noteq> []"
    and r: "r \<in> set (n3Records doe)" "eligible r" "Match L r qname" "IsSubDomain L (n3Zone doe) qname"
  shows "\<exists>wildcardProof. PerformClosestEncloserProof L doe qname = Some (False, True, False, wildcardProof)"
proof -
  obtain post where post: "Split L qname = 0 # post"
    using laws by (cases "Split L qname") (auto simp: label_laws_def)
  with r have q: "qname \<in> enclosers L doe qname"
    unfolding enclosers_def encloses_def by (force intro: exI [of _ "[]"])
  from FindClosestEncloser_spec [OF laws(1), of doe] q
  obtain ce ncn where found: "FindClosestEncloser L doe qname = Some (Some (ce, ncn))"
    by (cases "FindClosestEncloser L doe qname") (auto split: option.splits)
  from FindClosestEncloser_spec [OF laws(1), of doe, unfolded found option.case prod.case] q
  obtain pre i post where i: "Split L qname = pre @ i # post" "ce = drop (nat i) qname"
    "length qname \<le> length ce" "ncn = drop (nat (if pre = [] then 0 else last pre)) qname"
    by blast
  with label_laws_first [OF laws(1) i(1)] have "ncn = qname" by simp
  with r(1,3) have "nsec3_verifyNextCloserNameCovered L doe ncn = (False, False)"
    by (auto simp: nsec3_NextCloser_spec)
  moreover have "\<not> nsec3_Empty doe" using r(1) by (auto simp: nsec3_Empty_def)
  ultimately show ?thesis using found by (simp add: PerformClosestEncloserProof_def)
qed

text \<open>
  C33: the expanded wildcard proof indexes the label offsets of the signature's owner. For an
  owner with more labels than the signature's label count, as its caller ensures, it panics
  exactly when the label count is zero.
\<close>

theorem expanded_wildcard_panics_iff:
  assumes laws: "label_laws L sigName" and less: "uint labels < CountLabel L sigName"
  shows "nsec3_PerformExpandedWildcardProof L doe sigName labels = None \<longleftrightarrow> labels = 0"
proof -
  let ?n = "int (length (Split L sigName))"
  have n: "CountLabel L sigName = ?n" by (rule label_laws_count [OF laws])
  have slice: "\<exists>s. slice_from sigName i = Some s" if "i \<in> set (Split L sigName)" for i
    using label_laws_bounds [OF laws that] by (simp add: slice_from_def)
  have bounds: "0 \<le> uint labels" by simp
  show ?thesis
  proof (cases "labels = 0")
    case True
    then show ?thesis by (simp add: nsec3_PerformExpandedWildcardProof_def at_def)
  next
    case False
    then have "0 < uint labels" using bounds by (simp add: less_le uint_0_iff)
    with less n obtain ci ni where at: "at (Split L sigName) (?n - uint labels) = Some ci"
      "at (Split L sigName) (?n - uint labels - 1) = Some ni" by (auto simp: at_def)
    then have "ci \<in> set (Split L sigName)" "ni \<in> set (Split L sigName)"
      by (auto simp: at_def split: if_splits)
    with slice obtain s s' where "slice_from sigName ci = Some s" "slice_from sigName ni = Some s'"
      by blast
    with at False show ?thesis
      by (simp add: nsec3_PerformExpandedWildcardProof_def split: prod.splits)
  qed
qed

section \<open>The NSEC proof against a zone\<close>

text \<open>
  The NSEC records of a zone (RFC 4034): its names in canonical order, each the owner of a record
  that points to the next, the last pointing back to the apex.
\<close>

definition nsec_chain :: "dnslib \<Rightarrow> string \<Rightarrow> string list \<Rightarrow> NSEC list \<Rightarrow> bool" where
  "nsec_chain L zone ns rs \<longleftrightarrow>
     sorted_wrt (\<lambda>a b. canonicalCmp L a b < 0) ns \<and>
     list_all (\<lambda>r. list_ex (\<lambda>i. hName (fst r) = ns ! i \<and>
        (if Suc i < length ns
         then nsecNextDomain (snd r) = ns ! Suc i \<and> CanonicalName L (nsecNextDomain (snd r)) \<noteq> zone
         else CanonicalName L (nsecNextDomain (snd r)) = zone)) [0..<length ns]) rs"

lemma nsec_covers_gap:
  assumes "nsec_chain L zone ns rs" "r \<in> set rs" "nsec_covers L zone x r" "n \<in> set ns"
  shows "canonicalCmp L n x \<noteq> 0"
proof -
  from assms(1,2) obtain i where "i \<in> set [0..<length ns]" and eq: "hName (fst r) = ns ! i \<and>
      (if Suc i < length ns
       then nsecNextDomain (snd r) = ns ! Suc i \<and> CanonicalName L (nsecNextDomain (snd r)) \<noteq> zone
       else CanonicalName L (nsecNextDomain (snd r)) = zone)"
    unfolding nsec_chain_def list_all_iff list_ex_iff by blast
  then have i: "i < length ns" "hName (fst r) = ns ! i"
    "Suc i < length ns \<Longrightarrow> nsecNextDomain (snd r) = ns ! Suc i \<and> CanonicalName L (nsecNextDomain (snd r)) \<noteq> zone"
    by (auto split: if_splits)
  show ?thesis
  proof (rule canonical.chain_gap [OF _ i(1)])
    show "sorted_wrt (\<lambda>a b. canonicalCmp L a b < 0) ns" using assms(1) by (simp add: nsec_chain_def)
    show "canonicalCmp L (ns ! i) x < 0" using assms(3) i(2) by (simp add: nsec_covers_def)
    show "canonicalCmp L x (ns ! Suc i) < 0" if "Suc i < length ns"
      using assms(3) i(3) [OF that] by (auto simp: nsec_covers_def)
    show "n \<in> set ns" by (rule assms(4))
  qed
qed

text \<open>
  C14: against the NSEC records of a zone, a successful proof that the name does not exist is
  right: the name, and the wildcard with the name's first label replaced, are equal to no name of
  the zone.
\<close>

theorem nsec_denial_sound:
  assumes chain: "nsec_chain L (nsecZone doe) ns (nsecRecords doe)"
    and pr: "nsec_PerformQNameDoesNotExistProof L doe qname = Some True" and n: "n \<in> set ns"
  shows "canonicalCmp L n (CanonicalName L qname) \<noteq> 0
    \<and> (\<exists>w. wildcardName L (CanonicalName L qname) = Some w \<and> canonicalCmp L n w \<noteq> 0)"
proof -
  from pr obtain w r r' where w: "wildcardName L (CanonicalName L qname) = Some w"
    and r: "r \<in> set (nsecRecords doe)" "nsec_covers L (nsecZone doe) (CanonicalName L qname) r"
    and r': "r' \<in> set (nsecRecords doe)" "nsec_covers L (nsecZone doe) w r'"
    by (auto simp: nsec_PerformQNameDoesNotExistProof_def nsec_verifyQNameCovered_iff
        nsec_verifyWildcardCovered_def list_ex_iff split: if_splits Option.bind_splits)
  show ?thesis
    using nsec_covers_gap [OF chain r n] nsec_covers_gap [OF chain r' n] w by blast
qed

text \<open>
  C34: \<open>canonicalCmp\<close> compares names by their decoded labels, the rightmost label first and a
  shorter name before its extensions; exchanging the arguments negates the result.
\<close>

theorem canonicalCmp_orders_labels:
  "(canonicalCmp L a b < 0) = (order_key L a < order_key L b)
   \<and> (canonicalCmp L a b = 0) = (order_key L a = order_key L b)
   \<and> canonicalCmp L b a = - canonicalCmp L a b"
  by (auto simp: canonicalCmp_key)

section \<open>The properties at concrete records\<close>

text \<open>A library whose NSEC3 hash is the identity, and records over it.\<close>

definition doe_lib :: dnslib where
  "doe_lib = plain_lib\<lparr>Match := (\<lambda>r s. hName (fst r) = s),
     Cover := (\<lambda>r s. hName (fst r) < s \<and> s < n3NextDomain (snd r))\<rparr>"

definition ex_nsec3 :: "string \<Rightarrow> string \<Rightarrow> u16 list \<Rightarrow> NSEC3" where
  "ex_nsec3 owner nxt types =
     (\<lparr>hName = owner, hRrtype = TypeNSEC3, hClass = 1, hTtl = 300\<rparr>,
      \<lparr>n3Hash = 1, n3Flags = 0, n3Iterations = 0, n3Salt = [], n3NextDomain = nxt, n3TypeBitMap = types\<rparr>)"

definition ex_doe3 :: DenialOfExistenceNSEC3 where
  "ex_doe3 = NewDenialOfExistenceNSEC3 ''c.'' [ex_nsec3 ''b.c.'' ''x.c.'' [TypeA], ex_nsec3 ''c.'' ''b.c.'' [TypeNS, TypeSOA]]"

lemma label_laws_doe_lib: "label_laws doe_lib s = label_laws plain_lib s"
  by (simp add: label_laws_def doe_lib_def)

lemma label_laws_doe_example: "label_laws doe_lib ''a.b.c.''"
  using label_laws_example by (simp add: label_laws_doe_lib plain_canonical_example)

theorem FindClosestEncloser_longest_witness:
  "label_laws doe_lib ''a.b.c.'' \<and> FindClosestEncloser doe_lib ex_doe3 ''a.b.c.'' = Some (Some (''b.c.'', ''a.b.c.''))
   \<and> ''b.c.'' \<in> enclosers doe_lib ex_doe3 ''a.b.c.''"
proof -
  have f: "FindClosestEncloser doe_lib ex_doe3 ''a.b.c.'' = Some (Some (''b.c.'', ''a.b.c.''))"
    by code_simp
  from FindClosestEncloser_longest [OF label_laws_doe_example, of ex_doe3] show ?thesis
    using f label_laws_doe_example by auto
qed

theorem closest_encloser_no_denial_witness:
  "\<exists>w. PerformClosestEncloserProof doe_lib ex_doe3 ''b.c.'' = Some (False, True, False, w)"
proof (rule closest_encloser_no_denial [where r = "ex_nsec3 ''b.c.'' ''x.c.'' [TypeA]"])
  show "label_laws doe_lib ''b.c.''" unfolding label_laws_doe_lib by code_simp
  show "Split doe_lib ''b.c.'' \<noteq> []" by code_simp
  show "ex_nsec3 ''b.c.'' ''x.c.'' [TypeA] \<in> set (n3Records ex_doe3)" by code_simp
  show "eligible (ex_nsec3 ''b.c.'' ''x.c.'' [TypeA])" by code_simp
  show "Match doe_lib (ex_nsec3 ''b.c.'' ''x.c.'' [TypeA]) ''b.c.''" by code_simp
  show "IsSubDomain doe_lib (n3Zone ex_doe3) ''b.c.''" by code_simp
qed

theorem expanded_wildcard_panics_iff_witness:
  "nsec3_PerformExpandedWildcardProof doe_lib ex_doe3 ''a.b.c.'' 0 = None
   \<and> nsec3_PerformExpandedWildcardProof doe_lib ex_doe3 ''a.b.c.'' 2 \<noteq> None"
proof -
  have "uint (0::u8) < CountLabel doe_lib ''a.b.c.''" "uint (2::u8) < CountLabel doe_lib ''a.b.c.''"
    by code_simp+
  with expanded_wildcard_panics_iff [OF label_laws_doe_example, of 0 ex_doe3]
    expanded_wildcard_panics_iff [OF label_laws_doe_example, of 2 ex_doe3]
  show ?thesis by simp
qed

definition ex_nsec :: "string \<Rightarrow> string \<Rightarrow> u16 list \<Rightarrow> NSEC" where
  "ex_nsec owner nxt types =
     (\<lparr>hName = owner, hRrtype = TypeNSEC, hClass = 1, hTtl = 300\<rparr>,
      \<lparr>nsecNextDomain = nxt, nsecTypeBitMap = types\<rparr>)"

text \<open>A zone \<open>e.\<close> with a wildcard and a name \<open>z.e.\<close>, and the record that the wildcard owns.\<close>

definition ex_zone :: "string list" where
  "ex_zone = [''e.'', ''*.e.'', ''z.e.'']"

definition ex_doe :: DenialOfExistenceNSEC where
  "ex_doe = NewDenialOfExistenceNSEC ''e.'' [ex_nsec ''*.e.'' ''z.e.'' [TypeA]]"

lemma ex_chain: "nsec_chain plain_lib (nsecZone ex_doe) ex_zone (nsecRecords ex_doe)"
  by code_simp

lemma ex_denied: "nsec_PerformQNameDoesNotExistProof plain_lib ex_doe ''a.b.e.'' = Some True"
  by code_simp

theorem nsec_denial_sound_witness:
  "canonicalCmp plain_lib ''z.e.'' (CanonicalName plain_lib ''a.b.e.'') \<noteq> 0"
proof -
  have "''z.e.'' \<in> set ex_zone" by (simp add: ex_zone_def)
  from nsec_denial_sound [OF ex_chain ex_denied this] show ?thesis by blast
qed

section \<open>Where the proofs fall short\<close>

text \<open>
  The NSEC proof looks at the wildcard beside the name only, not at the wildcard below the closest
  encloser. In the zone above, which has the wildcard \<open>*.e.\<close>, the record that the wildcard owns is
  accepted as a proof that \<open>a.b.e.\<close> does not exist, although the wildcard answers for it.
\<close>

theorem nsec_denial_ignores_enclosing_wildcard:
  "nsec_chain plain_lib (nsecZone ex_doe) ex_zone (nsecRecords ex_doe)
   \<and> ''*.e.'' \<in> set ex_zone
   \<and> nsec_PerformQNameDoesNotExistProof plain_lib ex_doe ''a.b.e.'' = Some True"
  using ex_chain ex_denied by (simp add: ex_zone_def)

text \<open>
  An escape of the form backslash and character, such as the one for an opening parenthesis, is
  not decoded: the label with octets \<open>a(\<close> sorts after \<open>a-\<close>, although its octets sort before.
\<close>

theorem escaped_character_misordered:
  "canonicalCmp plain_lib (''a'' @ [CHR 0x5C] @ ''(.x.'') ''a-.x.'' = 1 \<and> ''a('' < ''a-''"
  by code_simp

end
