(* ===== verification/Verify.thy ===== *)
theory Verify
  imports Signatures Doe
begin

text \<open>
  Verifying one response of a zone: \<open>dnssec/verify.go\<close> and the five steps it calls
  (\<open>verify_dnskey.go\<close>, \<open>verify_rrset.go\<close>, \<open>verify_delegating.go\<close>, \<open>verify_positive.go\<close>,
  \<open>verify_negative.go\<close>), with the \<open>result\<close> record of \<open>types.go\<close> that the steps fill in.
  A step returns the result it leaves behind, its status and its error. The function table
  \<open>verifier\<close> is the one that \<open>NewAuth\<close> builds, so the steps are called directly.
\<close>

section \<open>State\<close>

text \<open>
  A zone as the package sees it: its name and what its \<open>GetDNSKEYRecords\<close> returns. The call is
  made at most once for a response.
\<close>

record Zone =
  z_Name :: string
  z_DNSKEYs :: "RR list \<times> error option"

record result =
  rs_name :: string
  rs_zone :: Zone
  rs_msg :: Msg
  rs_keys :: signatures
  rs_answer :: signatures
  rs_authority :: signatures
  rs_err :: "error option"
  rs_dsRecords :: "DS list"
  rs_state :: AuthenticationResult
  rs_doe :: DenialOfExistenceState

type_synonym step = "(result \<times> AuthenticationResult \<times> error option) option"

text \<open>The package variables of \<open>dnssec/config.go\<close>.\<close>

record dnssec_config =
  RootTrustAnchors :: "DS list"
  RequireAllSignaturesValid :: bool
  dnssec_MaxAllowedTTL :: u32

section \<open>DNSKEY records\<close>

text \<open>\<open>strings.EqualFold\<close> on the hexadecimal digests, whose letters are ASCII.\<close>

definition EqualFold :: "string \<Rightarrow> string \<Rightarrow> bool" where
  "EqualFold s t \<longleftrightarrow> map to_lower s = map to_lower t"

text \<open>
  The inner loop: the first key that a DS record stands for. The digest of the key is computed
  only where algorithm and tag agree, and a nil pointer from \<open>ToDS\<close> is dereferenced.
\<close>

fun key_for_DS :: "dnslib \<Rightarrow> DS \<Rightarrow> DNSKEY list \<Rightarrow> DNSKEY option option" where
  "key_for_DS L d [] = Some None"
| "key_for_DS L d (k # ks) =
     (if dsAlgorithm (snd d) = keyAlgorithm (snd k) \<and> dsKeyTag (snd d) = KeyTag L k then do {
        ds \<leftarrow> ToDS L k (dsDigestType (snd d));
        if EqualFold (dsDigest (snd d)) (dsDigest (snd ds)) then Some (Some k) else key_for_DS L d ks
      }
      else key_for_DS L d ks)"

fun keySigningKeys :: "dnslib \<Rightarrow> DNSKEY list \<Rightarrow> DS list \<Rightarrow> DNSKEY list option" where
  "keySigningKeys L zoneKeys [] = Some []"
| "keySigningKeys L zoneKeys (d # ds) = do {
     k \<leftarrow> key_for_DS L d zoneKeys;
     ks \<leftarrow> keySigningKeys L zoneKeys ds;
     Some (case k of None \<Rightarrow> ks | Some key \<Rightarrow> key # ks)
   }"

definition verifyDNSKEYs ::
  "dnslib \<Rightarrow> dnssec_config \<Rightarrow> int \<Rightarrow> result \<Rightarrow> RR list \<Rightarrow> DS list \<Rightarrow> step" where
  "verifyDNSKEYs L cfg now r keys dsRecordsFromParent =
     (let zoneKeys = extractRecords as_DNSKEY keys
      in if length zoneKeys = 0 then Some (r, Insecure, Some (DErr ErrKeysNotFound))
         else do {
           ksks \<leftarrow> keySigningKeys L zoneKeys dsRecordsFromParent;
           if length ksks = 0 then Some (r, Insecure, Some (DErr ErrKeysNotFound))
           else do {
             (keySignatures, err) \<leftarrow> authenticate L now (z_Name (rs_zone r)) keys ksks answerSection;
             (case err of
                Some e \<Rightarrow> Some (r, Bogus, Some (Errorf [DErr ErrBogusResultFound, e]))
              | None \<Rightarrow>
                  let r' = r\<lparr>rs_keys := keySignatures\<rparr>
                  in case Verify (RequireAllSignaturesValid cfg) keySignatures of
                       Some e \<Rightarrow> Some (r', Bogus, Some (Errorf [DErr ErrBogusResultFound, e]))
                     | None \<Rightarrow> Some (r', Unknown, None))
           }
         })"

section \<open>All other record sets\<close>

definition verifyRRSETs :: "dnslib \<Rightarrow> dnssec_config \<Rightarrow> int \<Rightarrow> result \<Rightarrow> DNSKEY list \<Rightarrow> step" where
  "verifyRRSETs L cfg now r keys = do {
     (answerSignatures, err) \<leftarrow> authenticate L now (z_Name (rs_zone r)) (mAnswer (rs_msg r)) keys answerSection;
     (case err of
        Some e \<Rightarrow> Some (r, Bogus, Some (Errorf [DErr ErrBogusResultFound, e]))
      | None \<Rightarrow> do {
          (authoritySignatures, err2) \<leftarrow> authenticate L now (z_Name (rs_zone r)) (mNs (rs_msg r)) keys authoritySection;
          (case err2 of
             Some e \<Rightarrow> Some (r, Bogus, Some (Errorf [DErr ErrBogusResultFound, e]))
           | None \<Rightarrow>
               (case Verify (RequireAllSignaturesValid cfg) (answerSignatures @ authoritySignatures) of
                  Some e \<Rightarrow> Some (r, Bogus, Some (Errorf [DErr ErrBogusResultFound, e]))
                | None \<Rightarrow> Some (r\<lparr>rs_answer := answerSignatures, rs_authority := authoritySignatures\<rparr>,
                                Unknown, None)))
        })
   }"

section \<open>The three kinds of response\<close>

definition r_nsec :: "result \<Rightarrow> DenialOfExistenceNSEC" where
  "r_nsec r = NewDenialOfExistenceNSEC (z_Name (rs_zone r)) (extractNSECRecords (rs_authority r))"

definition r_nsec3 :: "result \<Rightarrow> DenialOfExistenceNSEC3" where
  "r_nsec3 r = NewDenialOfExistenceNSEC3 (z_Name (rs_zone r)) (extractNSEC3Records (rs_authority r))"

text \<open>The nested test both record kinds make: the name is seen with NS, and without the others.\<close>

definition delegation_denied :: "(u16 list \<Rightarrow> bool \<times> bool) \<Rightarrow> bool" where
  "delegation_denied containsAnyOf \<longleftrightarrow>
     containsAnyOf [TypeNS] = (True, True) \<and>
     containsAnyOf [TypeCNAME, TypeDS, TypeSOA] = (True, False)"

definition validateDelegatingResponse :: "dnslib \<Rightarrow> result \<Rightarrow> step" where
  "validateDelegatingResponse L r0 =
     (let r = r0\<lparr>rs_dsRecords := extractDSRecords (rs_authority r0)\<rparr>;
          nsRecords = extractRecordsOfType (mNs (rs_msg r)) TypeNS;
          nsec = r_nsec r; nsec3 = r_nsec3 r
      in if length (rs_dsRecords r) > 0 then Some (r, Secure, None)
         else if \<not> recordsHaveTheSameOwner nsRecords
         then Some (r, Bogus, Some (Errorf [DErr ErrNSRecordsHaveMismatchingOwners]))
         else do {
           ns \<leftarrow> at nsRecords 0;
           let delegationName = rr_name ns;
           if \<not> nsec_Empty nsec \<and> delegation_denied (nsec_TypeBitMapContainsAnyOf L nsec delegationName)
           then Some (r\<lparr>rs_doe := NsecMissingDS\<rparr>, Secure, None)
           else if \<not> nsec3_Empty nsec3 then
             (if delegation_denied (nsec3_TypeBitMapContainsAnyOf L nsec3 delegationName)
              then Some (r\<lparr>rs_doe := Nsec3MissingDS\<rparr>, Secure, None)
              else do {
                (optedOut, _, _, _) \<leftarrow> PerformClosestEncloserProof L nsec3 delegationName;
                if optedOut then Some (r\<lparr>rs_doe := Nsec3OptOut\<rparr>, Secure, None)
                else Some (r, Bogus, Some (DErr ErrBogusDoeRecordsNotFound))
              })
           else Some (r, Bogus, Some (DErr ErrBogusDoeRecordsNotFound))
         })"

text \<open>
  The loop of \<open>validatePositiveResponse\<close> over the answer's signatures; \<open>seen\<close> and \<open>verified\<close> are
  its two flags. A second wildcard signature returns from the function.
\<close>

fun positive_loop ::
  "dnslib \<Rightarrow> DenialOfExistenceNSEC \<Rightarrow> DenialOfExistenceNSEC3 \<Rightarrow> bool \<Rightarrow> bool \<Rightarrow> result \<Rightarrow> signatures \<Rightarrow> step" where
  "positive_loop L nsec nsec3 seen verified r [] =
     (if \<not> seen \<or> verified then Some (r, Secure, None)
      else Some (r, Bogus, Some (DErr ErrBogusWildcardDoeNotFound)))"
| "positive_loop L nsec nsec3 seen verified r (sig # sigs) =
     (if sg_wildcard sig then
        (if seen then Some (r, Bogus, Some (DErr ErrMultipleWildcardSignatures))
         else do {
           nsecVerified \<leftarrow> (if nsec_Empty nsec then Some False
              else do {
                q \<leftarrow> at (mQuestion (rs_msg r)) 0;
                nsec_PerformExpandedWildcardProof L nsec (qName q)
              });
           let r1 = (if nsecVerified then r\<lparr>rs_doe := NsecWildcard\<rparr> else r);
           nsec3Verified \<leftarrow> (if nsec3_Empty nsec3 then Some False
              else nsec3_PerformExpandedWildcardProof L nsec3 (sg_name sig) (sigLabels (snd (sg_rrsig sig))));
           let r2 = (if nsec3Verified then r1\<lparr>rs_doe := Nsec3Wildcard\<rparr> else r1);
           positive_loop L nsec nsec3 True (nsecVerified \<or> nsec3Verified) r2 sigs
         })
      else positive_loop L nsec nsec3 seen verified r sigs)"

definition validatePositiveResponse :: "dnslib \<Rightarrow> result \<Rightarrow> step" where
  "validatePositiveResponse L r0 =
     (let r = r0\<lparr>rs_dsRecords := extractDSRecords (rs_answer r0)\<rparr>
      in positive_loop L (r_nsec r) (r_nsec3 r) False False r (rs_answer r))"

text \<open>The NSEC3 part of \<open>validateNegativeResponse\<close>.\<close>

definition negative_nsec3 :: "dnslib \<Rightarrow> result \<Rightarrow> string \<Rightarrow> u16 \<Rightarrow> step" where
  "negative_nsec3 L r qname qtype =
     (let nsec3 = r_nsec3 r; bogus = Some (r, Bogus, Some (DErr ErrBogusDoeRecordsNotFound))
      in if nsec3_Empty nsec3 then bogus
         else if nsec3_TypeBitMapContainsAnyOf L nsec3 qname [TypeCNAME, qtype] = (True, False)
         then Some (r\<lparr>rs_doe := Nsec3NoData\<rparr>, Secure, None)
         else do {
           (optout, closestEncloserProof, nextCloserNameProof, wildcardProof)
             \<leftarrow> PerformClosestEncloserProof L nsec3 qname;
           if optout \<and> qtype = TypeDS then Some (r\<lparr>rs_doe := Nsec3OptOut\<rparr>, Secure, None)
           else do {
             wildcardProof' \<leftarrow>
               (if closestEncloserProof \<and> nextCloserNameProof \<and> \<not> wildcardProof then do {
                  found \<leftarrow> FindClosestEncloser L nsec3 qname;
                  Some (case found of
                    None \<Rightarrow> wildcardProof
                  | Some (closestEncloser, _) \<Rightarrow>
                      wildcardProof \<or> nsec3_TypeBitMapContainsAnyOf L nsec3 (''*.'' @ closestEncloser)
                        [TypeCNAME, qtype] = (True, False))
                }
                else Some wildcardProof);
             if closestEncloserProof \<and> nextCloserNameProof \<and> wildcardProof'
             then Some (r\<lparr>rs_doe := Nsec3NxDomain\<rparr>, Secure, None)
             else bogus
           }
         })"

definition validateNegativeResponse :: "dnslib \<Rightarrow> result \<Rightarrow> step" where
  "validateNegativeResponse L r = do {
     q \<leftarrow> at (mQuestion (rs_msg r)) 0;
     let nsec = r_nsec r;
     if nsec_Empty nsec then negative_nsec3 L r (qName q) (qQtype q)
     else if nsec_TypeBitMapContainsAnyOf L nsec (qName q) [TypeCNAME, qQtype q] = (True, False)
     then Some (r\<lparr>rs_doe := NsecNoData\<rparr>, Secure, None)
     else do {
       denied \<leftarrow> nsec_PerformQNameDoesNotExistProof L nsec (qName q);
       if denied then Some (r\<lparr>rs_doe := NsecNxDomain\<rparr>, Secure, None)
       else negative_nsec3 L r (qName q) (qQtype q)
     }
   }"

section \<open>The whole response\<close>

text \<open>The result a verification starts from: the other fields have Go's zero values.\<close>

definition new_result :: "Zone \<Rightarrow> Msg \<Rightarrow> result" where
  "new_result zone msg = \<lparr>rs_name = z_Name zone, rs_zone = zone, rs_msg = msg, rs_keys = [],
     rs_answer = [], rs_authority = [], rs_err = None, rs_dsRecords = [], rs_state = Unknown,
     rs_doe = NotFound\<rparr>"

text \<open>The last part of \<open>verify\<close>: which kind of response the records make.\<close>

definition classify :: "dnslib \<Rightarrow> result \<Rightarrow> step" where
  "classify L r =
     (let soaFoundInAuthority = recordsOfTypeExist (mNs (rs_msg r)) TypeSOA
      in if \<not> soaFoundInAuthority \<and> length (mAnswer (rs_msg r)) = 0 \<and> recordsOfTypeExist (mNs (rs_msg r)) TypeNS
         then validateDelegatingResponse L r
         else if \<not> soaFoundInAuthority \<and> length (mAnswer (rs_msg r)) > 0
         then validatePositiveResponse L r
         else if soaFoundInAuthority then validateNegativeResponse L r
         else Some (r, Bogus, Some (DErr ErrFailsafeResponse)))"

definition verify :: "dnslib \<Rightarrow> dnssec_config \<Rightarrow> int \<Rightarrow> Zone \<Rightarrow> Msg \<Rightarrow> DS list \<Rightarrow> step" where
  "verify L cfg now zone msg dsRecordsFromParent =
     (let r = new_result zone msg
      in if length dsRecordsFromParent = 0 then Some (r, Insecure, None)
         else
           let (keys, kerr) = z_DNSKEYs zone
           in case kerr of
                Some e \<Rightarrow> Some (r, Bogus, Some e)
              | None \<Rightarrow> do {
                  (r1, status1, err1) \<leftarrow> verifyDNSKEYs L cfg now r keys dsRecordsFromParent;
                  if status1 \<noteq> Unknown \<or> err1 \<noteq> None then Some (r1, status1, err1)
                  else do {
                    (r2, status2, err2) \<leftarrow> verifyRRSETs L cfg now r1 (extractRecords as_DNSKEY keys);
                    if status2 \<noteq> Unknown \<or> err2 \<noteq> None then Some (r2, status2, err2)
                    else classify L r2
                  }
                })"

section \<open>Frames and statuses of the steps\<close>

text \<open>A step keeps the zone and the message of the result it fills in.\<close>

definition same_source :: "result \<Rightarrow> result \<Rightarrow> bool" where
  "same_source r r' \<longleftrightarrow> rs_zone r' = rs_zone r \<and> rs_msg r' = rs_msg r \<and> rs_name r' = rs_name r"

text \<open>The signatures are filled in before the kind of the response is looked at.\<close>

definition same_sigs :: "result \<Rightarrow> result \<Rightarrow> bool" where
  "same_sigs r r' \<longleftrightarrow> rs_keys r' = rs_keys r \<and> rs_answer r' = rs_answer r \<and> rs_authority r' = rs_authority r"

text \<open>A final status: never Unknown, an error exactly when Bogus.\<close>

definition final_status :: "AuthenticationResult \<Rightarrow> error option \<Rightarrow> bool" where
  "final_status st err \<longleftrightarrow> (st = Secure \<and> err = None) \<or> (st = Bogus \<and> err \<noteq> None)"

lemmas step_facts = same_source_def same_sigs_def final_status_def

lemma validateDelegatingResponse_facts:
  "validateDelegatingResponse L r = Some (r', st, err) \<Longrightarrow>
     same_source r r' \<and> same_sigs r r' \<and> final_status st err"
  by (auto simp: validateDelegatingResponse_def Let_def step_facts split: if_splits Option.bind_splits)

lemma positive_loop_facts:
  "positive_loop L nsec nsec3 seen verified r sigs = Some (r', st, err) \<Longrightarrow>
     same_source r r' \<and> same_sigs r r' \<and> final_status st err"
proof (induction sigs arbitrary: seen verified r)
  case Nil
  then show ?case by (auto simp: step_facts split: if_splits)
next
  case (Cons s sigs)
  show ?case
  proof (cases "sg_wildcard s \<and> \<not> seen")
    case False
    with Cons show ?thesis by (auto simp: step_facts split: if_splits)
  next
    case True
    with Cons.prems obtain d verified' where
      "positive_loop L nsec nsec3 True verified' (r\<lparr>rs_doe := d\<rparr>) sigs = Some (r', st, err)"
      by (auto simp: Let_def split: Option.bind_splits if_splits)
        (metis (no_types) result.surjective result.update_convs(10))+
    from Cons.IH [OF this] show ?thesis by (simp add: step_facts)
  qed
qed

lemma validatePositiveResponse_facts:
  "validatePositiveResponse L r = Some (r', st, err) \<Longrightarrow>
     same_source r r' \<and> same_sigs r r' \<and> final_status st err"
  using positive_loop_facts
  by (fastforce simp: validatePositiveResponse_def Let_def same_source_def same_sigs_def)

lemma negative_nsec3_facts:
  "negative_nsec3 L r qname qtype = Some (r', st, err) \<Longrightarrow>
     same_source r r' \<and> same_sigs r r' \<and> final_status st err"
  by (auto simp: negative_nsec3_def Let_def step_facts split: if_splits Option.bind_splits)

lemma validateNegativeResponse_facts:
  "validateNegativeResponse L r = Some (r', st, err) \<Longrightarrow>
     same_source r r' \<and> same_sigs r r' \<and> final_status st err"
  by (auto simp: validateNegativeResponse_def Let_def step_facts
      dest!: negative_nsec3_facts split: if_splits Option.bind_splits)

lemma classify_facts:
  "classify L r = Some (r', st, err) \<Longrightarrow> same_source r r' \<and> same_sigs r r' \<and> final_status st err"
  by (auto simp: classify_def Let_def dest: validateDelegatingResponse_facts
      validatePositiveResponse_facts validateNegativeResponse_facts split: if_splits)
    (auto simp: step_facts)

lemma verifyDNSKEYs_facts:
  assumes "verifyDNSKEYs L cfg now r keys ds = Some (r', st, err)"
  shows "same_source r r' \<and> st \<noteq> Secure \<and> (st = Unknown \<longleftrightarrow> err = None)
    \<and> (st = Insecure \<longrightarrow> err = Some (DErr ErrKeysNotFound))"
  using assms
  by (auto simp: verifyDNSKEYs_def Let_def same_source_def
      split: if_splits Option.bind_splits option.splits)

lemma verifyRRSETs_facts:
  assumes "verifyRRSETs L cfg now r keys = Some (r', st, err)"
  shows "same_source r r' \<and> rs_keys r' = rs_keys r \<and> (st = Unknown \<and> err = None \<or> st = Bogus \<and> err \<noteq> None)"
  using assms
  by (auto simp: verifyRRSETs_def same_source_def split: Option.bind_splits option.splits)

section \<open>The chain of trust through one response\<close>

text \<open>A key stands behind a DS record: same algorithm and tag, and its digest is the record's.\<close>

definition DS_matches :: "dnslib \<Rightarrow> DS \<Rightarrow> DNSKEY \<Rightarrow> bool" where
  "DS_matches L d k \<longleftrightarrow>
     dsAlgorithm (snd d) = keyAlgorithm (snd k) \<and> dsKeyTag (snd d) = KeyTag L k \<and>
     (\<exists>ds. ToDS L k (dsDigestType (snd d)) = Some ds \<and> EqualFold (dsDigest (snd d)) (dsDigest (snd ds)))"

lemma key_for_DS_matches:
  "key_for_DS L d ks = Some (Some k) \<Longrightarrow> k \<in> set ks \<and> DS_matches L d k"
  by (induction ks) (auto simp: DS_matches_def split: if_splits Option.bind_splits)

lemma keySigningKeys_match:
  "keySigningKeys L zoneKeys ds = Some ksks \<Longrightarrow> k \<in> set ksks \<Longrightarrow>
     k \<in> set zoneKeys \<and> (\<exists>d \<in> set ds. DS_matches L d k)"
  by (induction ds arbitrary: ksks)
    (auto dest: key_for_DS_matches split: Option.bind_splits option.splits)

text \<open>A signature that a key of a set verifies over the records it covers.\<close>

definition signed_by :: "dnslib \<Rightarrow> signature \<Rightarrow> DNSKEY \<Rightarrow> bool" where
  "signed_by L s k \<longleftrightarrow> sg_verified s \<and> sg_key s = Some k \<and> candidate L (sg_rrsig s) k \<and>
     VerifySig L (sg_rrsig s) k (sg_rrset s) = None"

lemma authenticate_signed_by:
  assumes "authenticate L now zone rrsets dnskeys sec = Some (ss, err)" "s \<in> set ss" "sg_verified s"
  shows "\<exists>k \<in> set dnskeys. signed_by L s k"
proof -
  from assms have "mapM (authenticate_rrsig L now (CanonicalName L zone) rrsets dnskeys)
      (extractRecords as_RRSIG rrsets) = Some ss"
    by (auto simp: authenticate_def split: Option.bind_splits)
  from mapM_mem [OF this assms(2)] obtain rrsig
    where s: "authenticate_rrsig L now (CanonicalName L zone) rrsets dnskeys rrsig = Some s" by blast
  from authenticate_rrsig_key [OF s assms(3)] authenticate_rrsig_frame [OF s] assms(3)
  show ?thesis by (auto simp: signed_by_def)
qed

lemma verifyDNSKEYs_passed:
  assumes "verifyDNSKEYs L cfg now r keys ds = Some (r', Unknown, err)"
  shows "\<exists>s \<in> set (rs_keys r'). \<exists>k \<in> set (extractRecords as_DNSKEY keys). \<exists>d \<in> set ds.
    signed_by L s k \<and> DS_matches L d k"
proof -
  from assms obtain ksks ss where k: "keySigningKeys L (extractRecords as_DNSKEY keys) ds = Some ksks"
    and ss: "authenticate L now (z_Name (rs_zone r)) keys ksks answerSection = Some (ss, None)"
    and v: "Verify (RequireAllSignaturesValid cfg) ss = None" and r': "rs_keys r' = ss"
    by (auto simp: verifyDNSKEYs_def Let_def split: if_splits Option.bind_splits option.splits)
  from Verify_has_verified [OF v] obtain s where s: "s \<in> set ss" "sg_verified s" by blast
  from authenticate_signed_by [OF ss s] obtain k where "k \<in> set ksks" "signed_by L s k" by blast
  with keySigningKeys_match [OF k] s(1) r' show ?thesis by blast
qed

lemma verifyRRSETs_passed:
  assumes "verifyRRSETs L cfg now r keys = Some (r', Unknown, err)"
    and s: "s \<in> set (rs_answer r' @ rs_authority r')"
  shows "\<exists>s' \<in> set (rs_answer r' @ rs_authority r'). \<exists>k \<in> set keys.
    sg_rtype s' = sg_rtype s \<and> signed_by L s' k"
proof -
  from assms(1) obtain as bs
    where as: "authenticate L now (z_Name (rs_zone r)) (mAnswer (rs_msg r)) keys answerSection = Some (as, None)"
    and bs: "authenticate L now (z_Name (rs_zone r)) (mNs (rs_msg r)) keys authoritySection = Some (bs, None)"
    and v: "Verify (RequireAllSignaturesValid cfg) (as @ bs) = None"
    and r': "rs_answer r' = as" "rs_authority r' = bs"
    by (auto simp: verifyRRSETs_def split: Option.bind_splits option.splits)
  from v s r' obtain s' where s': "s' \<in> set (as @ bs)" "sg_rtype s' = sg_rtype s" "sg_verified s'"
    by (auto simp: Verify_None_iff split: if_splits)
  with authenticate_signed_by [OF as, of s'] authenticate_signed_by [OF bs, of s'] r'
  show ?thesis by auto
qed

lemma verify_stages:
  assumes "verify L cfg now zone msg ds = Some (r, st, err)" "ds \<noteq> []" "st = Secure \<or> st = Unknown"
  obtains keys r1 r2 e1 e2 where "z_DNSKEYs zone = (keys, None)"
    "verifyDNSKEYs L cfg now (new_result zone msg) keys ds = Some (r1, Unknown, e1)"
    "verifyRRSETs L cfg now r1 (extractRecords as_DNSKEY keys) = Some (r2, Unknown, e2)"
    "classify L r2 = Some (r, st, err)"
proof -
  obtain keys kerr where z: "z_DNSKEYs zone = (keys, kerr)" by (cases "z_DNSKEYs zone")
  with assms have "kerr = None" by (auto simp: verify_def Let_def split: option.splits)
  with z assms obtain r1 st1 e1 where 1: "verifyDNSKEYs L cfg now (new_result zone msg) keys ds = Some (r1, st1, e1)"
    and rest: "(if st1 \<noteq> Unknown \<or> e1 \<noteq> None then Some (r1, st1, e1)
      else do { (r2, status2, err2) \<leftarrow> verifyRRSETs L cfg now r1 (extractRecords as_DNSKEY keys);
                if status2 \<noteq> Unknown \<or> err2 \<noteq> None then Some (r2, status2, err2) else classify L r2 })
      = Some (r, st, err)"
    by (auto simp: verify_def Let_def split: Option.bind_splits)
  from verifyDNSKEYs_facts [OF 1] rest assms(3) have st1: "st1 = Unknown" "e1 = None"
    by (auto split: if_splits)
  with rest obtain r2 st2 e2 where 2: "verifyRRSETs L cfg now r1 (extractRecords as_DNSKEY keys) = Some (r2, st2, e2)"
    and rest2: "(if st2 \<noteq> Unknown \<or> e2 \<noteq> None then Some (r2, st2, e2) else classify L r2) = Some (r, st, err)"
    by (auto split: Option.bind_splits)
  from verifyRRSETs_facts [OF 2] rest2 assms(3) have "st2 = Unknown" "classify L r2 = Some (r, st, err)"
    by (auto split: if_splits)
  with that 1 2 st1 z \<open>kerr = None\<close> show ?thesis by blast
qed

lemma verify_Secure:
  assumes "verify L cfg now zone msg ds = Some (r, Secure, err)"
  shows "err = None \<and> rs_zone r = zone \<and> rs_msg r = msg \<and>
    (\<exists>keys. z_DNSKEYs zone = (keys, None) \<and>
      (\<exists>s \<in> set (rs_keys r). \<exists>k \<in> set (extractRecords as_DNSKEY keys). \<exists>d \<in> set ds.
         signed_by L s k \<and> DS_matches L d k) \<and>
      (\<forall>s \<in> set (rs_answer r @ rs_authority r).
         \<exists>s' \<in> set (rs_answer r @ rs_authority r). \<exists>k \<in> set (extractRecords as_DNSKEY keys).
           sg_rtype s' = sg_rtype s \<and> signed_by L s' k))"
proof -
  from assms have "ds \<noteq> []" by (auto simp: verify_def Let_def)
  then obtain keys r1 r2 e1 e2 where st: "z_DNSKEYs zone = (keys, None)"
    "verifyDNSKEYs L cfg now (new_result zone msg) keys ds = Some (r1, Unknown, e1)"
    "verifyRRSETs L cfg now r1 (extractRecords as_DNSKEY keys) = Some (r2, Unknown, e2)"
    "classify L r2 = Some (r, Secure, err)"
    by (rule verify_stages [OF assms _ disjI1 [OF refl]]) (rule that)
  note facts = verifyDNSKEYs_facts [OF st(2)] verifyRRSETs_facts [OF st(3)] classify_facts [OF st(4)]
  then have "rs_zone r = zone \<and> rs_msg r = msg \<and> err = None" and sigs: "rs_keys r = rs_keys r1"
    "rs_answer r = rs_answer r2" "rs_authority r = rs_authority r2"
    by (auto simp: step_facts new_result_def)
  with st(1) show ?thesis
    unfolding sigs
    by (intro conjI exI [of _ keys] ballI verifyDNSKEYs_passed [OF st(2)] verifyRRSETs_passed [OF st(3)])
      simp_all
qed


lemma verify_status_facts:
  assumes "verify L cfg now zone msg ds = Some (r, st, err)"
  shows "st \<noteq> Unknown \<and> (st = Secure \<longrightarrow> err = None) \<and> (st = Bogus \<longrightarrow> err \<noteq> None)
    \<and> (st = Insecure \<longrightarrow> ds = [] \<or> err = Some (DErr ErrKeysNotFound))
    \<and> rs_zone r = zone \<and> rs_msg r = msg"
  using assms
  by (auto simp: verify_def Let_def new_result_def step_facts dest!: verifyDNSKEYs_facts
      verifyRRSETs_facts classify_facts split: if_splits Option.bind_splits option.splits prod.splits)

text \<open>
  The statuses of a verification. It always decides (never Unknown); Secure comes without an
  error and Bogus with one; Insecure means that no DS record was handed down, or that no key of
  the zone was found for those that were.
\<close>

theorem verify_status:
  assumes "verify L cfg now zone msg ds = Some (r, st, err)"
  shows "st \<noteq> Unknown \<and> (st = Secure \<longrightarrow> err = None) \<and> (st = Bogus \<longrightarrow> err \<noteq> None)
    \<and> (st = Insecure \<longrightarrow> ds = [] \<or> err = Some (DErr ErrKeysNotFound))
    \<and> rs_zone r = zone \<and> rs_msg r = msg"
  by (rule verify_status_facts [OF assms])

text \<open>
  A DS record whose digest type the library does not know crashes the verification: where it
  agrees in algorithm and tag with the first key of the zone, the nil result of \<open>ToDS\<close> is
  dereferenced.
\<close>

theorem unknown_digest_panics:
  assumes "z_DNSKEYs zone = (keys, None)" "extractRecords as_DNSKEY keys = k # ks"
    and "dsAlgorithm (snd d) = keyAlgorithm (snd k)" "dsKeyTag (snd d) = KeyTag L k"
    and "ToDS L k (dsDigestType (snd d)) = None"
  shows "verify L cfg now zone msg (d # ds) = None"
  using assms by (simp add: verify_def verifyDNSKEYs_def Let_def)


section \<open>The properties at concrete responses\<close>

definition ex_ds :: "u8 \<Rightarrow> DS" where
  "ex_ds t = (\<lparr>hName = ''e.'', hRrtype = TypeDS, hClass = 1, hTtl = 300\<rparr>,
     \<lparr>dsKeyTag = 7, dsAlgorithm = 13, dsDigestType = t, dsDigest = ''AB''\<rparr>)"

definition ex_Zone :: Zone where
  "ex_Zone = \<lparr>z_Name = ''e.'', z_DNSKEYs =
     ([ex_rr ''e.'' TypeDNSKEY (DNSKEY_R (snd ex_key)), ex_rrsig ''e.'' TypeDNSKEY 1 ''good''], None)\<rparr>"

definition ex_cfg :: dnssec_config where
  "ex_cfg = \<lparr>RootTrustAnchors = [], RequireAllSignaturesValid = False, dnssec_MaxAllowedTTL = 172800\<rparr>"

definition ex_msg :: "string \<Rightarrow> RR list \<Rightarrow> Msg" where
  "ex_msg q answer = new_Msg\<lparr>mQuestion := [\<lparr>qName = q, qQtype = TypeA, qQclass = 1\<rparr>], mAnswer := answer\<rparr>"

definition secure_case :: "step \<Rightarrow> bool" where
  "secure_case s = (case s of Some (r, Secure, None) \<Rightarrow> True | _ \<Rightarrow> False)"

lemma secure_case_iff: "secure_case s \<longleftrightarrow> (\<exists>r. s = Some (r, Secure, None))"
  by (auto simp: secure_case_def split: option.splits prod.splits AuthenticationResult.splits)

lemma ex_verify_secure: "\<exists>r. verify sig_lib ex_cfg 900 ex_Zone (ex_msg ''w.e.'' ex_answer) [ex_ds 2] = Some (r, Secure, None)"
  unfolding secure_case_iff [symmetric] by code_simp


theorem verify_status_witness:
  "\<exists>r. verify sig_lib ex_cfg 900 ex_Zone (ex_msg ''w.e.'' ex_answer) [ex_ds 2] = Some (r, Secure, None)
     \<and> rs_zone r = ex_Zone"
proof -
  from ex_verify_secure obtain r
    where r: "verify sig_lib ex_cfg 900 ex_Zone (ex_msg ''w.e.'' ex_answer) [ex_ds 2] = Some (r, Secure, None)" ..
  from verify_status [OF r] r show ?thesis by blast
qed

theorem unknown_digest_panics_witness:
  "verify sig_lib ex_cfg 900 ex_Zone (ex_msg ''w.e.'' ex_answer) [ex_ds 5] = None"
proof (rule unknown_digest_panics [where keys = "fst (z_DNSKEYs ex_Zone)" and k = ex_key and ks = "[]"])
  show "z_DNSKEYs ex_Zone = (fst (z_DNSKEYs ex_Zone), None)" by code_simp
  show "extractRecords as_DNSKEY (fst (z_DNSKEYs ex_Zone)) = [ex_key]" by code_simp
  show "dsAlgorithm (snd (ex_ds 5)) = keyAlgorithm (snd ex_key)" by code_simp
  show "dsKeyTag (snd (ex_ds 5)) = KeyTag sig_lib ex_key" by code_simp
  show "ToDS sig_lib ex_key (dsDigestType (snd (ex_ds 5))) = None" by code_simp
qed

text \<open>A negative response with an NSEC record that denies the type.\<close>

definition ex_negative :: result where
  "ex_negative = (new_result ex_Zone ((ex_msg ''w.e.'' [])\<lparr>mNs := [ex_rr ''e.'' TypeSOA (SOA_R [])]\<rparr>))
     \<lparr>rs_authority := [ex_sig\<lparr>sg_rtype := TypeNSEC, sg_rrset := [ex_rr ''w.e.'' TypeNSEC
        (NSEC_R \<lparr>nsecNextDomain = ''z.e.'', nsecTypeBitMap = [TypeNS]\<rparr>)]\<rparr>]\<rparr>"


section \<open>Where the verification falls short\<close>

text \<open>
  The response with the forged record set of \<^const>\<open>forged_answer\<close>, for the forged name, is Secure
  although no key verifies a signature over any record of that name.
\<close>

theorem forged_response_secure:
  "\<exists>r. verify sig_lib ex_cfg 900 ex_Zone (ex_msg ''v.e.'' forged_answer) [ex_ds 2] = Some (r, Secure, None)"
  unfolding secure_case_iff [symmetric] by code_simp

end
