(* ===== verification/Zones.thy ===== *)
theory Zones
  imports Pool Cache Domain Verify "HOL-Library.Sublist"
begin

text \<open>
  Zones and the store of known zones: \<open>zone.go\<close> and \<open>zones.go\<close>.

  Zones and pools are objects that several parts of the program point to: a cloned zone shares
  the pool of the zone it was cloned from, and the store holds the zones that a query in progress
  is using. A pointer is a number, and the state of the resolver has a heap for each of the two.
  The outside world is a state that the network changes; the clock reads it, in nanoseconds.
  Locks make an operation atomic and are left out. The goroutine that updates the package's
  \<open>Cache\<close> after an exchange is taken to run at once.
\<close>

section \<open>Environment and state\<close>

text \<open>The optional cache of the package, supplied by its user (\<open>cache.go\<close>).\<close>

record 'w CacheInterface =
  Cache_Get :: "'w \<Rightarrow> string \<Rightarrow> Question \<Rightarrow> 'w \<times> Msg option \<times> error option"
  Cache_Update :: "'w \<Rightarrow> string \<Rightarrow> Question \<Rightarrow> Msg \<Rightarrow> 'w \<times> error option"

text \<open>The package variables of \<open>config.go\<close>.\<close>

record config =
  MaxAllowedTTL :: u32
  MaxQueriesPerRequest :: u32
  DesireNumberOfNameserversPerZone :: int
  LazyEnrichment :: bool
  SuppressBogusResponseSections :: bool
  RemoveAuthoritySectionForPositiveAnswers :: bool
  RemoveAdditionalSectionForPositiveAnswers :: bool

text \<open>The default values.\<close>

definition default_config :: config where
  "default_config = \<lparr>MaxAllowedTTL = 172800, MaxQueriesPerRequest = 100, DesireNumberOfNameserversPerZone = 3, LazyEnrichment = False,
     SuppressBogusResponseSections = True, RemoveAuthoritySectionForPositiveAnswers = True,
     RemoveAdditionalSectionForPositiveAnswers = True\<rparr>"

record 'w env =
  E_lib :: dnslib
  E_net :: "'w network"
  E_clock :: "'w \<Rightarrow> int"
  E_v6 :: bool
  E_Cache :: "'w CacheInterface option"
  E_cfg :: config
  E_dnssec :: dnssec_config

record zoneImpl =
  zoneName :: string
  parentName :: string
  z_pool :: "nat option"
  z_calls :: u64
  dnskeyRecords :: "RR list"
  dnskeyExpiry :: "int option"

text \<open>
  The state of a resolver. \<open>rcache\<close> is its pointer to the answer cache. The last three fields are
  not of the resolver: \<open>session\<close> and \<open>started\<close> are the values that the context of a request carries
  (the number of iterations so far, counted without wrap-around, and the start), and the world.
\<close>

record 'w rstate =
  pools :: "nat \<Rightarrow> nameserverPool"
  next_pool :: nat
  zobjs :: "nat \<Rightarrow> zoneImpl"
  next_zone :: nat
  zmap :: "(string \<times> nat) list option"
  rcache :: "DNSCache option"
  session :: nat
  started :: int
  world :: 'w

definition now_ns :: "'w env \<Rightarrow> 'w rstate \<Rightarrow> int" where
  "now_ns E s = E_clock E (world s)"

definition now_unix :: "'w env \<Rightarrow> 'w rstate \<Rightarrow> int" where
  "now_unix E s = now_ns E s div 1000000000"

definition set_zone :: "nat \<Rightarrow> zoneImpl \<Rightarrow> 'w rstate \<Rightarrow> 'w rstate" where
  "set_zone z v s = s\<lparr>zobjs := (zobjs s)(z := v)\<rparr>"

definition set_pool :: "nat \<Rightarrow> nameserverPool \<Rightarrow> 'w rstate \<Rightarrow> 'w rstate" where
  "set_pool p v s = s\<lparr>pools := (pools s)(p := v)\<rparr>"

section \<open>Operations of a zone\<close>

text \<open>The pool of a zone is never nil where \<open>expired\<close> is called; a nil pool would panic.\<close>

definition zone_expired :: "'w env \<Rightarrow> 'w rstate \<Rightarrow> nat \<Rightarrow> bool option" where
  "zone_expired E s z = do {
     p \<leftarrow> z_pool (zobjs s z);
     Some (pool_expired (pools s p) (now_unix E s))
   }"

definition new_zone :: "zoneImpl \<Rightarrow> 'w rstate \<Rightarrow> 'w rstate \<times> nat" where
  "new_zone v s = (s\<lparr>zobjs := (zobjs s)(next_zone s := v), next_zone := Suc (next_zone s)\<rparr>, next_zone s)"

definition clone :: "'w env \<Rightarrow> 'w rstate \<Rightarrow> nat \<Rightarrow> string \<Rightarrow> string \<Rightarrow> ('w rstate \<times> nat) option" where
  "clone E s z name parent =
     (let L = E_lib E
      in if CanonicalName L name = CanonicalName L parent \<or> \<not> IsSubDomain L parent name then None
         else Some (new_zone \<lparr>zoneName = CanonicalName L name, parentName = CanonicalName L parent,
           z_pool = z_pool (zobjs s z), z_calls = 0, dnskeyRecords = [], dnskeyExpiry = None\<rparr> s))"

text \<open>Asking the package's cache first; an error of the cache is logged and ignored.\<close>

definition cache_first :: "'w env \<Rightarrow> 'w rstate \<Rightarrow> nat \<Rightarrow> Msg \<Rightarrow> ('w rstate \<times> Msg option) option" where
  "cache_first E s z m =
     (case E_Cache E of
        None \<Rightarrow> Some (s, None)
      | Some C \<Rightarrow> do {
          q \<leftarrow> at (mQuestion m) 0;
          let (w, msg, err) = Cache_Get C (world s) (zoneName (zobjs s z)) q;
          Some (s\<lparr>world := w\<rparr>, if err \<noteq> None then None else msg)
        })"

definition cache_after :: "'w env \<Rightarrow> 'w rstate \<Rightarrow> nat \<Rightarrow> Msg \<Rightarrow> Response \<Rightarrow> 'w rstate option" where
  "cache_after E s z m r =
     (case E_Cache E of
        None \<Rightarrow> Some s
      | Some C \<Rightarrow>
          (case (r_Msg r, r_Err r) of
             (Some msg, None) \<Rightarrow> do {
               q \<leftarrow> at (mQuestion m) 0;
               let (w, err) = Cache_Update C (world s) (zoneName (zobjs s z)) q
                 (msg\<lparr>mExtra := removeRecordsOfType (mExtra msg) TypeOPT\<rparr>);
               Some (s\<lparr>world := w\<rparr>)
             }
           | _ \<Rightarrow> Some s))"

definition zone_exchange :: "'w env \<Rightarrow> 'w rstate \<Rightarrow> nat \<Rightarrow> Msg \<Rightarrow> ('w rstate \<times> Response) option" where
  "zone_exchange E s z m = do {
     let v = zobjs s z;
     let s1 = set_zone z (v\<lparr>z_calls := z_calls v + 1\<rparr>) s;
     (s2, hit) \<leftarrow> cache_first E s1 z m;
     (case hit of
        Some msg \<Rightarrow> Some (s2, new_Response\<lparr>r_Msg := Some msg\<rparr>)
      | None \<Rightarrow>
          (case z_pool (zobjs s2 z) of
             None \<Rightarrow> Some (s2, newResponseError (Errorf [RErr ErrNoPoolConfiguredForZone]))
           | Some p \<Rightarrow> do {
               (pool, w, r) \<leftarrow> pool_exchange (E_v6 E) (E_net E) (pools s2 p) (world s2) m;
               let s3 = (set_pool p pool s2)\<lparr>world := w\<rparr>;
               s4 \<leftarrow> cache_after E s3 z m r;
               Some (s4, r)
             }))
   }"

text \<open>The question for the SOA of a name; the result is the record, if there is one, and the error.\<close>

definition zone_soa :: "'w env \<Rightarrow> 'w rstate \<Rightarrow> nat \<Rightarrow> string \<Rightarrow> ('w rstate \<times> (RR_Header \<times> string) option \<times> error option) option" where
  "zone_soa E s z name = do {
     let soaMsg = (SetQuestion (E_lib E) new_Msg (Fqdn (E_lib E) name) TypeSOA)\<lparr>mRecursionDesired := False\<rparr>;
     (s1, response) \<leftarrow> zone_exchange E s z soaMsg;
     (case r_Msg response of
        None \<Rightarrow> Some (s1, None, Some (RErr ErrEmptyResponse))
      | Some msg \<Rightarrow>
          if r_Err response \<noteq> None then Some (s1, None, r_Err response)
          else if \<not> recordsOfTypeExist (mAnswer msg) TypeSOA then Some (s1, None, None)
          else
            let soas = extractRecords as_SOA (mAnswer msg)
            in if length soas \<noteq> 1 then Some (s1, None, Some (Errorf []))
               else do { soa \<leftarrow> at soas 0; Some (s1, Some soa, None) })
   }"

text \<open>The DNSKEY records of a zone, kept until they expire.\<close>

definition zone_dnskeys :: "'w env \<Rightarrow> 'w rstate \<Rightarrow> nat \<Rightarrow> ('w rstate \<times> RR list \<times> error option) option" where
  "zone_dnskeys E s z =
     (let v = zobjs s z
      in if (case dnskeyExpiry v of None \<Rightarrow> False | Some x \<Rightarrow> \<not> x < now_ns E s)
         then Some (s, dnskeyRecords v, None)
         else do {
           let msg = (SetEdns0 (E_lib E) (SetQuestion (E_lib E) new_Msg (Fqdn (E_lib E) (zoneName v)) TypeDNSKEY) 4096 True)
             \<lparr>mRecursionDesired := False\<rparr>;
           (s1, response) \<leftarrow> zone_exchange E s z msg;
           (case (r_Err response, r_Msg response) of
              (Some e, _) \<Rightarrow> Some (s1, [], Some (Errorf [RErr ErrFailedToGetDNSKEYs, e]))
            | (None, None) \<Rightarrow> Some (s1, [], Some (Errorf [RErr ErrFailedToGetDNSKEYs]))
            | (None, Some rmsg) \<Rightarrow>
                let v1 = zobjs s1 z
                in if length (mAnswer rmsg) = 0
                   then Some (set_zone z (v1\<lparr>dnskeyExpiry := Some (now_ns E s1 + seconds 60)\<rparr>) s1, [], None)
                   else
                     let ttl = min_over rr_ttl (MaxAllowedTTL (E_cfg E)) (mAnswer rmsg)
                     in Some (set_zone z (v1\<lparr>dnskeyRecords := mAnswer rmsg,
                          dnskeyExpiry := Some (now_ns E s1 + seconds ttl)\<rparr>) s1, mAnswer rmsg, None))
         })"

section \<open>The store of zones\<close>

text \<open>One step of the loop of \<open>getZoneList\<close>; \<open>None\<close> inside stands for leaving the loop.\<close>

fun zone_list_loop :: "'w env \<Rightarrow> 'w rstate \<Rightarrow> (string \<times> nat) list \<Rightarrow> string \<Rightarrow> nat option \<Rightarrow> nat list \<Rightarrow> int list \<Rightarrow> nat list option" where
  "zone_list_loop E s zs name lastz result [] = Some result"
| "zone_list_loop E s zs name lastz result (idx # idxs) = do {
     zname \<leftarrow> slice_from name idx;
     (case map_of zs zname of
        None \<Rightarrow> zone_list_loop E s zs name lastz result idxs
      | Some z \<Rightarrow> do {
          ex \<leftarrow> zone_expired E s z;
          if ex then zone_list_loop E s zs name lastz result idxs
          else (case lastz of
                  Some l \<Rightarrow>
                    if parentName (zobjs s z) \<noteq> zoneName (zobjs s l) then Some result
                    else zone_list_loop E s zs name (Some z) (result @ [z]) idxs
                | None \<Rightarrow> zone_list_loop E s zs name (Some z) (result @ [z]) idxs)
        })
   }"

definition getZoneList :: "'w env \<Rightarrow> 'w rstate \<Rightarrow> string \<Rightarrow> nat list option" where
  "getZoneList E s name0 =
     (let name = CanonicalName (E_lib E) name0;
          indexes = rev (Split (E_lib E) name @ [int (length name) - 1])
      in case zmap s of
           None \<Rightarrow> Some []
         | Some zs \<Rightarrow> map_option rev (zone_list_loop E s zs name None [] indexes))"

definition zones_get :: "'w env \<Rightarrow> 'w rstate \<Rightarrow> string \<Rightarrow> nat option option" where
  "zones_get E s name =
     (case zmap s of
        None \<Rightarrow> Some None
      | Some zs \<Rightarrow>
          (case map_of zs (CanonicalName (E_lib E) name) of
             None \<Rightarrow> Some None
           | Some z \<Rightarrow> do { ex \<leftarrow> zone_expired E s z; Some (if ex then None else Some z) }))"

definition zones_add :: "'w env \<Rightarrow> 'w rstate \<Rightarrow> nat \<Rightarrow> 'w rstate" where
  "zones_add E s z =
     (let name = CanonicalName (E_lib E) (zoneName (zobjs s z));
          zs = (case zmap s of None \<Rightarrow> [] | Some zs \<Rightarrow> zs)
      in s\<lparr>zmap := Some (AList.update name z zs)\<rparr>)"

definition zones_count :: "'w rstate \<Rightarrow> nat" where
  "zones_count s = (case zmap s of None \<Rightarrow> 0 | Some zs \<Rightarrow> length zs)"

section \<open>The store as a map of names\<close>

text \<open>Every zone in the store has a pool.\<close>

definition known :: "'w rstate \<Rightarrow> (string \<times> nat) list" where
  "known s = (case zmap s of None \<Rightarrow> [] | Some zs \<Rightarrow> zs)"

definition store_ok :: "'w rstate \<Rightarrow> bool" where
  "store_ok s \<longleftrightarrow> (\<forall>z \<in> snd ` set (known s). z_pool (zobjs s z) \<noteq> None)"

definition live :: "'w env \<Rightarrow> 'w rstate \<Rightarrow> nat \<Rightarrow> bool" where
  "live E s z \<longleftrightarrow> zone_expired E s z = Some False"

lemma zone_expired_pool: "z_pool (zobjs s z) \<noteq> None \<Longrightarrow> zone_expired E s z = Some (\<not> live E s z)"
  by (auto simp: zone_expired_def live_def)

lemma store_ok_lookup: "store_ok s \<Longrightarrow> zmap s = Some zs \<Longrightarrow> map_of zs n = Some z \<Longrightarrow> z_pool (zobjs s z) \<noteq> None"
  by (force simp: store_ok_def known_def dest: map_of_SomeD)

text \<open>
  What a user of a store of named objects relies on: a lookup after an addition finds the added
  object under its name, and the objects under other names are as before.
\<close>

locale zone_store =
  fixes ok :: "'s \<Rightarrow> bool" and find_zone :: "'s \<Rightarrow> string \<Rightarrow> 'z option" and put_zone :: "'s \<Rightarrow> 'z \<Rightarrow> 's"
    and name_of :: "'s \<Rightarrow> 'z \<Rightarrow> string" and canon :: "string \<Rightarrow> string" and usable_zone :: "'s \<Rightarrow> 'z \<Rightarrow> bool"
  assumes find_put: "ok s \<Longrightarrow> usable_zone s z \<Longrightarrow>
      find_zone (put_zone s z) n = (if canon n = canon (name_of s z) then Some z else find_zone s n)"
    and put_ok: "ok s \<Longrightarrow> usable_zone s z \<Longrightarrow> ok (put_zone s z)"
    and put_frame: "name_of (put_zone s z) = name_of s" "usable_zone (put_zone s z) = usable_zone s"
begin

text \<open>The last zone added under a name is the one that is found.\<close>

lemma find_foldl_put:
  assumes "ok s" "\<forall>z \<in> set zs. usable_zone s z"
  shows "find_zone (foldl put_zone s zs) n =
    (case find (\<lambda>z. canon (name_of s z) = canon n) (rev zs) of Some z \<Rightarrow> Some z | None \<Rightarrow> find_zone s n)"
proof -
  have "ok (foldl put_zone s zs) \<and> name_of (foldl put_zone s zs) = name_of s \<and> usable_zone (foldl put_zone s zs) = usable_zone s \<and>
    find_zone (foldl put_zone s zs) n =
    (case find (\<lambda>z. canon (name_of s z) = canon n) (rev zs) of Some z \<Rightarrow> Some z | None \<Rightarrow> find_zone s n)"
    using assms(2)
  proof (induction zs rule: rev_induct)
    case (snoc z zs)
    then have "usable_zone (foldl put_zone s zs) z" by simp
    with snoc find_put put_ok show ?case by (auto simp: put_frame)
  qed (use assms(1) in simp)
  then show ?thesis by blast
qed

end

definition find_live :: "'w env \<Rightarrow> 'w rstate \<Rightarrow> string \<Rightarrow> nat option" where
  "find_live E s n = Option.bind (zones_get E s n) (\<lambda>z. z)"

lemma live_zmap [simp]: "live E (s\<lparr>zmap := m\<rparr>) z = live E s z"
  by (simp add: live_def zone_expired_def now_unix_def now_ns_def)

lemma zones_get_live:
  assumes "store_ok s"
  shows "zones_get E s n = Some (case zmap s of None \<Rightarrow> None
    | Some zs \<Rightarrow> (case map_of zs (CanonicalName (E_lib E) n) of None \<Rightarrow> None | Some z \<Rightarrow> if live E s z then Some z else None))"
  using store_ok_lookup [OF assms]
  by (auto simp: zones_get_def zone_expired_pool split: option.splits)

lemma values_update: "snd ` set (AList.update k v xs) \<subseteq> insert v (snd ` set xs)"
  by (induction xs) (auto split: if_splits)

lemma store_ok_add:
  assumes "store_ok s" "z_pool (zobjs s z) \<noteq> None"
  shows "store_ok (zones_add E s z)"
proof -
  have "known (zones_add E s z) = AList.update (CanonicalName (E_lib E) (zoneName (zobjs s z))) z (known s)"
    by (simp add: zones_add_def known_def Let_def)
  then have sub: "snd ` set (known (zones_add E s z)) \<subseteq> insert z (snd ` set (known s))"
    by (simp only: values_update)
  have objs: "zobjs (zones_add E s z) = zobjs s" by (simp add: zones_add_def Let_def)
  show ?thesis unfolding store_ok_def objs
  proof (rule ballI)
    fix x assume "x \<in> snd ` set (known (zones_add E s z))"
    with sub have "x = z \<or> x \<in> snd ` set (known s)" by (rule subsetD [THEN insertE]) simp_all
    then show "z_pool (zobjs s x) \<noteq> None"
      using assms unfolding store_ok_def by (elim disjE) (simp, erule (1) bspec)
  qed
qed

interpretation known_zones: zone_store store_ok "find_live E" "zones_add E" "\<lambda>s z. zoneName (zobjs s z)"
  "CanonicalName (E_lib E)" "live E" for E
proof unfold_locales
  fix s :: "'a rstate" and z n
  assume ok: "store_ok s" and z: "live E s z"
  have p: "z_pool (zobjs s z) \<noteq> None" using z by (auto simp: live_def zone_expired_def split: Option.bind_splits)
  show ok': "store_ok (zones_add E s z)" by (rule store_ok_add [OF ok p])
  show "find_live E (zones_add E s z) n =
      (if CanonicalName (E_lib E) n = CanonicalName (E_lib E) (zoneName (zobjs s z)) then Some z else find_live E s n)"
    using z unfolding find_live_def zones_get_live [OF ok'] zones_get_live [OF ok]
    by (simp add: zones_add_def Let_def AList.update_conv' split: option.split)
qed (simp_all add: zones_add_def Let_def fun_eq_iff)

section \<open>The list of known zones\<close>

text \<open>
  What the loop of \<open>getZoneList\<close> collects from the names above a name, root first: the zones found,
  until one has another parent than the zone before it.
\<close>

fun zone_path :: "(string \<Rightarrow> 'z option) \<Rightarrow> ('z \<Rightarrow> string) \<Rightarrow> ('z \<Rightarrow> string) \<Rightarrow> 'z option \<Rightarrow> string list \<Rightarrow> 'z list" where
  "zone_path look name_of parent_of lastz [] = []"
| "zone_path look name_of parent_of lastz (n # ns) =
     (case look n of
        None \<Rightarrow> zone_path look name_of parent_of lastz ns
      | Some z \<Rightarrow>
          if (case lastz of None \<Rightarrow> False | Some l \<Rightarrow> parent_of z \<noteq> name_of l) then []
          else z # zone_path look name_of parent_of (Some z) ns)"

abbreviation (input) "zname s z \<equiv> zoneName (zobjs s z)"
abbreviation (input) "zparent s z \<equiv> parentName (zobjs s z)"

definition live_in :: "'w env \<Rightarrow> 'w rstate \<Rightarrow> (string \<times> nat) list \<Rightarrow> string \<Rightarrow> nat option" where
  "live_in E s zs n = (case map_of zs n of None \<Rightarrow> None | Some z \<Rightarrow> if live E s z then Some z else None)"

lemma zone_list_loop_path:
  assumes ok: "store_ok s" and zs: "zmap s = Some zs"
    and "list_all2 (\<lambda>i n. slice_from name i = Some n) idxs ns"
  shows "zone_list_loop E s zs name lastz result idxs =
    Some (result @ zone_path (live_in E s zs) (zname s) (zparent s) lastz ns)"
  using assms(3)
proof (induction idxs ns arbitrary: lastz result rule: list_all2_induct)
  case (Cons i js n ns)
  show ?case
  proof (cases "map_of zs n")
    case None
    with Cons show ?thesis by (simp add: live_in_def)
  next
    case (Some z)
    with zone_expired_pool [OF store_ok_lookup [OF ok zs Some]] Cons show ?thesis
      by (cases lastz) (simp_all add: live_in_def)
  qed
qed simp

lemma zone_path_names:
  assumes "\<And>n z. look n = Some z \<Longrightarrow> name_of z = n"
  shows "subseq (map name_of (zone_path look name_of parent_of lastz ns)) ns"
  using assms by (induction ns arbitrary: lastz) (auto split: option.split)

lemma zone_path_linked:
  "successively (\<lambda>p c. parent_of c = name_of p)
     ((case lastz of None \<Rightarrow> [] | Some l \<Rightarrow> [l]) @ zone_path look name_of parent_of lastz ns)"
proof (induction ns arbitrary: lastz)
  case (Cons n ns)
  show ?case
  proof (cases "look n")
    case (Some z)
    with Cons.IH [of "Some z"] show ?thesis by (cases lastz) simp_all
  qed (use Cons.IH [of lastz] in simp)
qed (simp split: option.split)

lemma zone_path_found: "z \<in> set (zone_path look name_of parent_of lastz ns) \<Longrightarrow> \<exists>n \<in> set ns. look n = Some z"
  by (induction ns arbitrary: lastz) (auto split: option.splits if_splits)

lemma getZoneList_path:
  assumes laws: "label_laws (E_lib E) (CanonicalName (E_lib E) name)" and ok: "store_ok s" and zs: "zmap s = Some zs"
  shows "getZoneList E s name =
    Some (rev (zone_path (live_in E s zs) (zname s) (zparent s) None (ancestors (E_lib E) (CanonicalName (E_lib E) name))))"
proof -
  let ?L = "E_lib E" and ?d = "newDomain (E_lib E) name"
  let ?n = "CanonicalName ?L name"
  have w: "walker ?L ?n ?d" by (rule walker_new)
  then have d: "d_name ?d = ?n" "labelIndexes ?d = rev (Split ?L ?n @ [int (length ?n) - 1])"
    by (simp_all add: walker_def)
  have "list_all2 (\<lambda>i n. slice_from ?n i = Some n) (labelIndexes ?d) (ancestors ?L ?n)"
    unfolding list_all2_conv_all_nth
    using walker_slice [OF laws w] walker_length [OF w] d(1) by simp
  from zone_list_loop_path [OF ok zs this, of E None "[]"] show ?thesis
    by (simp add: getZoneList_def zs d(2) Let_def)
qed

text \<open>Every zone of the store is under its own name.\<close>

definition named :: "'w rstate \<Rightarrow> bool" where
  "named s \<longleftrightarrow> list_all (\<lambda>(n, z). zname s z = n) (known s)"


section \<open>A zone answers\<close>

definition zone_ready :: "'w env \<Rightarrow> nat \<Rightarrow> 'w rstate \<Rightarrow> bool" where
  "zone_ready E z s \<longleftrightarrow> network_ok (E_net E) \<and>
     (case z_pool (zobjs s z) of None \<Rightarrow> True | Some p \<Rightarrow> pool_ready (pools s p))"

lemma at_0: "xs \<noteq> [] \<Longrightarrow> at xs 0 = Some (hd xs)"
  by (cases xs) auto

lemma cache_first_ready:
  assumes "mQuestion m \<noteq> []"
  shows "\<exists>w hit. cache_first E s z m = Some (s\<lparr>world := w\<rparr>, hit)"
  using assms by (cases "E_Cache E") (auto simp: cache_first_def at_0 split: prod.split intro: exI [of _ "world s"])

lemma cache_after_ready:
  assumes "mQuestion m \<noteq> []"
  shows "\<exists>w. cache_after E s z m r = Some (s\<lparr>world := w\<rparr>)"
proof (cases "E_Cache E")
  case None
  then show ?thesis by (auto simp: cache_after_def intro: exI [of _ "world s"])
next
  case (Some C)
  with assms show ?thesis
    by (cases "r_Msg r"; cases "r_Err r")
      (auto simp: cache_after_def at_0 split: prod.split intro: exI [of _ "world s"])
qed

lemma zone_exchange_ready:
  assumes ready: "zone_ready E z s" and q: "mQuestion m \<noteq> []"
  shows "\<exists>s' r. zone_exchange E s z m = Some (s', r) \<and> zone_ready E z s' \<and> usable r"
proof -
  let ?v = "zobjs s z"
  let ?s1 = "set_zone z (?v\<lparr>z_calls := z_calls ?v + 1\<rparr>) s"
  from cache_first_ready [OF q, of E ?s1 z] obtain w hit where c: "cache_first E ?s1 z m = Some (?s1\<lparr>world := w\<rparr>, hit)" by blast
  have r1: "zone_ready E z (?s1\<lparr>world := w\<rparr>)" using ready by (simp add: zone_ready_def set_zone_def split: option.splits)
  show ?thesis
  proof (cases hit)
    case (Some msg)
    with c r1 show ?thesis by (simp add: zone_exchange_def Let_def usable_def)
  next
    case None
    note hit = this
    show ?thesis
    proof (cases "z_pool ?v")
      case None
      with hit c r1 show ?thesis by (simp add: zone_exchange_def Let_def set_zone_def)
    next
      case (Some p)
      with ready have pool: "pool_ready (pools s p)" and net: "network_ok (E_net E)" by (simp_all add: zone_ready_def)
      from pool_exchange_ready [OF net q pool, of "E_v6 E" w] obtain pool' w' r
        where p: "pool_exchange (E_v6 E) (E_net E) (pools s p) w m = Some (pool', w', r)" "usable r"
          "same_servers (pools s p) pool'" by blast
      let ?s3 = "(set_pool p pool' (?s1\<lparr>world := w\<rparr>))\<lparr>world := w'\<rparr>"
      from cache_after_ready [OF q, of E ?s3 z r] obtain w2 where a: "cache_after E ?s3 z m r = Some (?s3\<lparr>world := w2\<rparr>)" by blast
      have "zone_exchange E s z m = Some (?s3\<lparr>world := w2\<rparr>, r)"
        using hit c Some p(1) a by (simp add: zone_exchange_def Let_def set_zone_def)
      moreover have "pool_ready pool'"
        using pool same_servers_coherent [OF p(3)] by (simp add: pool_ready_def)
      then have "zone_ready E z (?s3\<lparr>world := w2\<rparr>)"
        using net Some by (simp add: zone_ready_def set_zone_def set_pool_def)
      ultimately show ?thesis using p(2) by blast
    qed
  qed
qed

interpretation zone: exchanger "\<lambda>s. zone_exchange E s z" "zone_ready E z" for E z
  by unfold_locales (rule zone_exchange_ready)

section \<open>The keys of a zone\<close>

lemma zone_dnskeys_cached:
  assumes "dnskeyExpiry (zobjs s z) = Some x" "now_ns E s \<le> x"
  shows "zone_dnskeys E s z = Some (s, dnskeyRecords (zobjs s z), None)"
  using assms by (simp add: zone_dnskeys_def Let_def)

lemma zone_dnskeys_stored:
  assumes "zone_dnskeys E s z = Some (s', keys, None)" "keys \<noteq> []"
  shows "dnskeyRecords (zobjs s' z) = keys \<and>
    (s' = s \<or> dnskeyExpiry (zobjs s' z) = Some (now_ns E s' + seconds (min_over rr_ttl (MaxAllowedTTL (E_cfg E)) keys)))"
  using assms
  by (auto simp: zone_dnskeys_def Let_def set_zone_def now_ns_def
      split: if_splits option.splits Option.bind_splits prod.splits)

section \<open>The properties at a concrete store\<close>

text \<open>The world is a counter of exchanges, a second each; every server answers with the records given for the question's name.\<close>

definition ex_env :: "(string \<Rightarrow> u16 \<Rightarrow> Msg \<Rightarrow> Msg) \<Rightarrow> nat env" where
  "ex_env answer = \<lparr>E_lib = plain_lib, E_net = (\<lambda>w p ns m. (Suc w, Some (answer (qName (hd (mQuestion m))) (qQtype (hd (mQuestion m)))
       (m\<lparr>mResponse := True, mExtra := []\<rparr>)), 5, None)),
     E_clock = (\<lambda>w. 1000000000 * int w), E_v6 = False, E_Cache = None, E_cfg = default_config,
     E_dnssec = \<lparr>RootTrustAnchors = [], RequireAllSignaturesValid = False, dnssec_MaxAllowedTTL = 172800\<rparr>\<rparr>"

definition ex_zone :: "string \<Rightarrow> string \<Rightarrow> zoneImpl" where
  "ex_zone name parent = \<lparr>zoneName = name, parentName = parent, z_pool = Some 0, z_calls = 0, dnskeyRecords = [], dnskeyExpiry = None\<rparr>"

text \<open>A resolver that knows the root and the zone \<open>e.\<close>.\<close>

definition ex_state :: "nat rstate" where
  "ex_state = \<lparr>pools = (\<lambda>_. ex_pool), next_pool = 1, zobjs = (\<lambda>_. ex_zone ''.'' '''')(1 := ex_zone ''e.'' ''.''), next_zone = 2,
     zmap = Some [(''.'', 0), (''e.'', 1)], rcache = Some (new_cache 10000), session = 0, started = 0, world = 0\<rparr>"

lemma ex_zone_name_laws: "name_laws plain_lib ''w.e.''"
  by (rule plain_name_laws) code_simp


section \<open>Where the keys of a zone fall short\<close>

text \<open>
  A zone whose keys have expired asks for them again. If the answer is empty, the call returns no
  key, but keeps the old ones with a new expiry: for a minute the calls that follow return keys whose
  time is over and which the zone no longer publishes.
\<close>

definition old_keys :: "nat rstate" where
  "old_keys = set_zone 1 ((ex_zone ''e.'' ''.'')\<lparr>dnskeyRecords := unrelated, dnskeyExpiry := Some (-1)\<rparr>) ex_state"

definition keys_twice :: "'w env \<Rightarrow> 'w rstate \<Rightarrow> nat \<Rightarrow> (RR list \<times> RR list) option" where
  "keys_twice E s z = do {
     (s1, k1, e1) \<leftarrow> zone_dnskeys E s z;
     (s2, k2, e2) \<leftarrow> zone_dnskeys E s1 z;
     Some (k1, k2)
   }"

theorem stale_keys_returned: "keys_twice (ex_env (\<lambda>_ _ m. m)) old_keys 1 = Some ([], unrelated)"
  by code_simp

end
