(* ===== verification/Growth.thy ===== *)
theory Growth
  imports Zones
begin

text \<open>
  How the operations of the resolver change its state. A \<^emph>\<open>quiet\<close> change is one that a question
  to a zone makes: positions in pools, cached keys and the outside world. A state \<^emph>\<open>extends\<close> another
  if zones and pools were added and those there were have kept their names and servers. The
  invariant of the resolver is stated and shown to survive quiet changes and additions.
\<close>

section \<open>Quiet changes\<close>

definition same_zone :: "zoneImpl \<Rightarrow> zoneImpl \<Rightarrow> bool" where
  "same_zone v v' \<longleftrightarrow> zoneName v' = zoneName v \<and> parentName v' = parentName v \<and> z_pool v' = z_pool v"

definition quiet :: "'w rstate \<Rightarrow> 'w rstate \<Rightarrow> bool" where
  "quiet s s' \<longleftrightarrow> zmap s' = zmap s \<and> next_zone s' = next_zone s \<and> next_pool s' = next_pool s \<and>
     session s' = session s \<and> started s' = started s \<and> rcache s' = rcache s \<and>
     (\<forall>z. same_zone (zobjs s z) (zobjs s' z)) \<and> (\<forall>p. same_servers (pools s p) (pools s' p))"

lemma same_zone_refl [simp]: "same_zone v v"
  by (simp add: same_zone_def)

lemma quiet_refl [simp]: "quiet s s"
  by (simp add: quiet_def)

lemma quiet_trans: "quiet s t \<Longrightarrow> quiet t u \<Longrightarrow> quiet s u"
  by (simp add: quiet_def same_zone_def same_servers_def)

lemma quiet_set_zone: "same_zone (zobjs s z) v \<Longrightarrow> quiet s (set_zone z v s)"
  by (simp add: quiet_def set_zone_def)

lemma quiet_set_pool: "same_servers (pools s p) v \<Longrightarrow> quiet s (set_pool p v s)"
  by (simp add: quiet_def set_pool_def)

lemma quiet_world [simp]: "quiet s (s\<lparr>world := w\<rparr>)"
  by (simp add: quiet_def)

lemma quiet_set_pool_world: "same_servers (pools s p) v \<Longrightarrow> quiet s ((set_pool p v s)\<lparr>world := w\<rparr>)"
  by (rule quiet_trans [OF quiet_set_pool quiet_world])

lemma ask_same_servers:
  assumes "ask net w m r choice = Some (pool', w', r')" "same_servers pool (fst choice)"
  shows "same_servers pool pool'"
  using assms by (auto simp: ask_def split: prod.splits option.splits Option.bind_splits)

lemma pool_exchange_quiet:
  assumes "pool_exchange v6 net pool w m = Some (pool', w', r)"
  shows "same_servers pool pool' \<and> usable r"
proof (cases "hasIPv4 pool \<or> hasIPv6 pool")
  case False
  with assms show ?thesis by (auto simp: pool_exchange_def Let_def)
next
  case True
  let ?c1 = "if hasIPv6 pool \<and> v6 then getIPv6 pool else getIPv4 pool"
  from True assms obtain pool1 w1 r1 where a1: "ask net w m None ?c1 = Some (pool1, w1, r1)"
    and rest: "(do {
           (pool2, w2, response2) \<leftarrow>
             (if IsEmpty r1 \<or> HasError r1 \<or> truncated r1
              then ask net w1 m r1 (if hasIPv4 pool then getIPv4 pool1 else getIPv6 pool1)
              else Some (pool1, w1, r1));
           if IsEmpty response2 \<or> HasError response2 then do {
             _ \<leftarrow> at (mQuestion m) 0;
             r \<leftarrow> response2;
             let err = Errorf [RErr ErrUnableToResolveAnswer];
             Some (pool2, w2, r\<lparr>r_Err := Some (case r_Err r of Some e \<Rightarrow> Errorf [e, err] | None \<Rightarrow> err)\<rparr>)
           }
           else do { r \<leftarrow> response2; Some (pool2, w2, r) }
         }) = Some (pool', w', r)"
    unfolding pool_exchange_def Let_def by (auto split: if_splits Option.bind_splits)
  have s1: "same_servers pool pool1"
    by (rule ask_same_servers [OF a1]) (simp add: same_servers_get)
  have s2: "same_servers pool (fst (if hasIPv4 pool then getIPv4 pool1 else getIPv6 pool1))"
    using same_servers_trans [OF s1] by (auto simp: same_servers_get)
  from rest s1 ask_same_servers [OF _ s2] show ?thesis
    by (auto simp: usable_def Let_def split: if_splits Option.bind_splits)
qed

lemma cache_first_quiet: "cache_first E s z m = Some (s', hit) \<Longrightarrow> quiet s s'"
  by (auto simp: cache_first_def split: option.splits Option.bind_splits prod.splits)

lemma cache_after_quiet: "cache_after E s z m r = Some s' \<Longrightarrow> quiet s s'"
  by (auto simp: cache_after_def split: option.splits Option.bind_splits prod.splits)

lemma zone_exchange_quiet:
  assumes "zone_exchange E s z m = Some (s', r)"
  shows "quiet s s' \<and> usable r"
proof -
  let ?v = "zobjs s z"
  let ?s1 = "set_zone z (?v\<lparr>z_calls := z_calls ?v + 1\<rparr>) s"
  have q1: "quiet s ?s1" by (rule quiet_set_zone) (simp add: same_zone_def)
  from assms obtain s2 hit where c: "cache_first E ?s1 z m = Some (s2, hit)"
    by (auto simp: zone_exchange_def Let_def split: Option.bind_splits)
  have q2: "quiet s s2" by (rule quiet_trans [OF q1 cache_first_quiet [OF c]])
  show ?thesis
  proof (cases hit)
    case (Some msg)
    with assms c q2 show ?thesis by (auto simp: zone_exchange_def Let_def usable_def)
  next
    case None
    note hit = this
    show ?thesis
    proof (cases "z_pool (zobjs s2 z)")
      case None
      with assms c q2 hit show ?thesis by (auto simp: zone_exchange_def Let_def)
    next
      case (Some p)
      with assms c hit obtain pool w where
        p: "pool_exchange (E_v6 E) (E_net E) (pools s2 p) (world s2) m = Some (pool, w, r)"
        and a: "cache_after E ((set_pool p pool s2)\<lparr>world := w\<rparr>) z m r = Some s'"
        by (auto simp: zone_exchange_def Let_def split: Option.bind_splits)
      from pool_exchange_quiet [OF p] have "quiet s2 ((set_pool p pool s2)\<lparr>world := w\<rparr>)" and u: "usable r"
        by (simp_all add: quiet_set_pool_world)
      then have "quiet s s'"
        using quiet_trans [OF q2] cache_after_quiet [OF a] quiet_trans by blast
      with u show ?thesis by simp
    qed
  qed
qed

lemma zone_soa_quiet:
  assumes "zone_soa E s z name = Some (s', res)"
  shows "quiet s s'"
proof -
  from assms obtain r where "zone_exchange E s z
      ((SetQuestion (E_lib E) new_Msg (Fqdn (E_lib E) name) TypeSOA)\<lparr>mRecursionDesired := False\<rparr>) = Some (s', r)"
    by (auto simp: zone_soa_def Let_def split: Option.bind_splits option.splits if_splits)
  then show ?thesis using zone_exchange_quiet by blast
qed

lemma zone_dnskeys_quiet:
  assumes "zone_dnskeys E s z = Some (s', res)"
  shows "quiet s s'"
proof (cases "\<exists>x. dnskeyExpiry (zobjs s z) = Some x \<and> now_ns E s \<le> x")
  case True
  then obtain x where "dnskeyExpiry (zobjs s z) = Some x" "now_ns E s \<le> x" by blast
  from zone_dnskeys_cached [OF this] assms show ?thesis by simp
next
  case False
  then have "\<not> (case dnskeyExpiry (zobjs s z) of None \<Rightarrow> False | Some x \<Rightarrow> \<not> x < now_ns E s)"
    by (auto split: option.splits)
  with assms obtain s1 r where x: "zone_exchange E s z ((SetEdns0 (E_lib E) (SetQuestion (E_lib E) new_Msg (Fqdn (E_lib E) (zname s z)) TypeDNSKEY) 4096 True)
             \<lparr>mRecursionDesired := False\<rparr>) = Some (s1, r)"
    and "s' = s1 \<or> (\<exists>ks e. s' = set_zone z ((zobjs s1 z)\<lparr>dnskeyRecords := ks, dnskeyExpiry := e\<rparr>) s1) \<or>
      (\<exists>e. s' = set_zone z ((zobjs s1 z)\<lparr>dnskeyExpiry := e\<rparr>) s1)"
    unfolding zone_dnskeys_def Let_def
    by (auto split: Option.bind_splits option.splits if_splits prod.splits)
  then have "quiet s1 s'" by (auto intro!: quiet_set_zone simp: same_zone_def)
  with zone_exchange_quiet [OF x] show ?thesis using quiet_trans by blast
qed

section \<open>Additions\<close>

definition extends :: "'w rstate \<Rightarrow> 'w rstate \<Rightarrow> bool" where
  "extends s s' \<longleftrightarrow> session s \<le> session s' \<and> next_zone s \<le> next_zone s' \<and> next_pool s \<le> next_pool s' \<and>
     (\<forall>z < next_zone s. same_zone (zobjs s z) (zobjs s' z)) \<and>
     (\<forall>p < next_pool s. same_servers (pools s p) (pools s' p))"

lemma quiet_extends: "quiet s s' \<Longrightarrow> extends s s'"
  by (simp add: quiet_def extends_def)

lemma extends_refl [simp]: "extends s s"
  by (simp add: extends_def)

lemma extends_trans: "extends s t \<Longrightarrow> extends t u \<Longrightarrow> extends s u"
  by (simp add: extends_def same_zone_def same_servers_def)

lemma extends_session: "extends s s' \<Longrightarrow> session s \<le> session s'"
  by (simp add: extends_def)

section \<open>The invariant of a resolver\<close>

text \<open>
  The root has no name above it but itself, and the canonical form is idempotent: documented
  behaviour of the library.
\<close>

definition root_laws :: "dnslib \<Rightarrow> bool" where
  "root_laws L \<longleftrightarrow> (\<forall>t. CanonicalName L (CanonicalName L t) = CanonicalName L t) \<and> CanonicalName L ''.'' = ''.'' \<and>
     (\<forall>p n. IsSubDomain L p n \<longrightarrow> CanonicalName L n = ''.'' \<longrightarrow> CanonicalName L p = ''.'')"

text \<open>
  Every zone there is has a pool with at least one server; every zone of the store is under its
  own name, in canonical form; the root is in the store and its pool never expires. The library is
  taken to behave as documented for the root.
\<close>

definition has_server :: "nameserverPool \<Rightarrow> bool" where
  "has_server pool \<longleftrightarrow> ipv4 pool \<noteq> [] \<or> ipv6 pool \<noteq> []"

definition zone_sound :: "'w rstate \<Rightarrow> nat \<Rightarrow> bool" where
  "zone_sound s z \<longleftrightarrow> (\<exists>p. z_pool (zobjs s z) = Some p \<and> p < next_pool s \<and> has_server (pools s p))"

definition entry_sound :: "dnslib \<Rightarrow> 'w rstate \<Rightarrow> string \<times> nat \<Rightarrow> bool" where
  "entry_sound L s e \<longleftrightarrow> snd e < next_zone s \<and> zname s (snd e) = fst e \<and> CanonicalName L (fst e) = fst e"

definition root_known :: "dnslib \<Rightarrow> 'w rstate \<Rightarrow> bool" where
  "root_known L s \<longleftrightarrow> (\<exists>r p. map_of (known s) ''.'' = Some r \<and> z_pool (zobjs s r) = Some p \<and> expires (pools s p) \<le> 0)"

definition resolver_ok :: "dnslib \<Rightarrow> 'w rstate \<Rightarrow> bool" where
  "resolver_ok L s \<longleftrightarrow> root_laws L \<and> (\<forall>z < next_zone s. zone_sound s z) \<and> list_all (entry_sound L s) (known s) \<and> root_known L s"

lemma same_servers_has_server: "same_servers pool pool' \<Longrightarrow> has_server pool' = has_server pool"
  by (simp add: same_servers_def has_server_def)

lemma extends_zone_sound:
  assumes "extends s s'" "z < next_zone s" "zone_sound s z"
  shows "zone_sound s' z"
proof -
  from assms(3) obtain p where p: "z_pool (zobjs s z) = Some p" "p < next_pool s" "has_server (pools s p)"
    by (auto simp: zone_sound_def)
  with assms(1,2) have "same_zone (zobjs s z) (zobjs s' z)" "same_servers (pools s p) (pools s' p)" "p < next_pool s'"
    by (auto simp: extends_def)
  with p show ?thesis by (auto simp: zone_sound_def same_zone_def same_servers_has_server)
qed

lemma extends_entry_sound:
  assumes "extends s s'" "entry_sound L s e"
  shows "entry_sound L s' e"
  using assms by (auto simp: extends_def entry_sound_def same_zone_def)

lemma extends_root_known:
  assumes "extends s s'" "resolver_ok L s" "map_of (known s') ''.'' = map_of (known s) ''.''"
  shows "root_known L s'"
proof -
  from assms(2) obtain r p where r: "map_of (known s) ''.'' = Some r" "z_pool (zobjs s r) = Some p" "expires (pools s p) \<le> 0"
    by (auto simp: resolver_ok_def root_known_def)
  from map_of_SomeD [OF r(1)] assms(2) have lt: "r < next_zone s"
    by (auto simp: resolver_ok_def list_all_iff entry_sound_def)
  with assms(2) r(2) have p: "p < next_pool s" by (auto simp: resolver_ok_def zone_sound_def)
  from lt p assms(1) have "same_zone (zobjs s r) (zobjs s' r)" "same_servers (pools s p) (pools s' p)"
    by (auto simp: extends_def)
  with r assms(3) show ?thesis by (auto simp: root_known_def same_zone_def same_servers_def)
qed

text \<open>A state that extends a sound one with sound zones, the store unchanged, is sound.\<close>

lemma resolver_ok_extends:
  assumes "extends s s'" "resolver_ok L s" "zmap s' = zmap s"
    and "\<And>z. next_zone s \<le> z \<Longrightarrow> z < next_zone s' \<Longrightarrow> zone_sound s' z"
  shows "resolver_ok L s'"
proof -
  have k: "known s' = known s" using assms(3) by (simp add: known_def)
  have "zone_sound s' z" if "z < next_zone s'" for z
    using that assms(4) extends_zone_sound [OF assms(1)] assms(2)
    by (cases "z < next_zone s") (auto simp: resolver_ok_def)
  moreover have "list_all (entry_sound L s') (known s')"
    using assms(2) extends_entry_sound [OF assms(1)] by (auto simp: resolver_ok_def k list_all_iff)
  moreover have "root_known L s'"
    by (rule extends_root_known [OF assms(1,2)]) (simp add: k)
  ultimately show ?thesis using assms(2) by (simp add: resolver_ok_def)
qed

lemma resolver_ok_quiet: "quiet s s' \<Longrightarrow> resolver_ok L s \<Longrightarrow> resolver_ok L s'"
  by (rule resolver_ok_extends [OF quiet_extends]) (auto simp: quiet_def)

lemma set_update_subset: "set (AList.update k v xs) \<subseteq> insert (k, v) (set xs)"
  by (induction xs) auto

text \<open>Adding a zone whose name is canonical and not the root.\<close>

lemma resolver_ok_add:
  assumes ok: "resolver_ok (E_lib E) s" and z: "z < next_zone s" "zname s z \<noteq> ''.''"
    and can: "CanonicalName (E_lib E) (zname s z) = zname s z"
  shows "resolver_ok (E_lib E) (zones_add E s z)" and "extends s (zones_add E s z)"
proof -
  let ?s = "zones_add E s z"
  have f: "zobjs ?s = zobjs s" "pools ?s = pools s" "next_zone ?s = next_zone s" "next_pool ?s = next_pool s" "session ?s = session s"
    by (simp_all add: zones_add_def Let_def)
  have k: "known ?s = AList.update (zname s z) z (known s)" by (simp add: zones_add_def known_def Let_def can)
  have sub: "set (known ?s) \<subseteq> insert (zname s z, z) (set (known s))" unfolding k by (rule set_update_subset)
  have e: "entry_sound (E_lib E) ?s = entry_sound (E_lib E) s" by (rule ext) (simp add: entry_sound_def f)
  have "list_all (entry_sound (E_lib E) s) (known ?s)"
    using sub ok z can unfolding resolver_ok_def list_all_iff by (auto simp: entry_sound_def dest!: subsetD)
  moreover have "map_of (known ?s) ''.'' = map_of (known s) ''.''" unfolding k using z(2) by (simp add: AList.update_conv')
  ultimately show "resolver_ok (E_lib E) ?s"
    using ok by (simp add: resolver_ok_def e zone_sound_def root_known_def f)
  show "extends s ?s" by (simp add: extends_def f)
qed

section \<open>Reasoning about runs\<close>

text \<open>
  Two runs that give the same, and in which the counter of the request does not fall below \<open>c\<close>;
  and a property of the result of a run, if it gives one. Both go through a sequence of steps.
\<close>

definition same_run :: "nat \<Rightarrow> ('w rstate \<times> 'a) option \<Rightarrow> ('w rstate \<times> 'a) option \<Rightarrow> bool" where
  "same_run c x y \<longleftrightarrow> x = y \<and> (\<forall>s a. y = Some (s, a) \<longrightarrow> c \<le> session s)"

definition holds :: "('a \<Rightarrow> bool) \<Rightarrow> 'a option \<Rightarrow> bool" where
  "holds Q x \<longleftrightarrow> (\<forall>y. x = Some y \<longrightarrow> Q y)"

named_theorems run_intros

lemma same_run_bind [run_intros]:
  assumes "same_run c x y" "\<And>s a. y = Some (s, a) \<Longrightarrow> c \<le> session s \<Longrightarrow> same_run c (f (s, a)) (g (s, a))"
  shows "same_run c (Option.bind x f) (Option.bind y g)"
  using assms unfolding same_run_def by (cases y) auto

lemma same_run_plain [run_intros]:
  "(\<And>a. same_run c (f a) (g a)) \<Longrightarrow> same_run c (Option.bind x f) (Option.bind x g)"
  unfolding same_run_def by (cases x) auto

lemma same_run_Some [run_intros]: "c \<le> session (fst y) \<Longrightarrow> same_run c (Some y) (Some y)"
  unfolding same_run_def by auto

lemma same_run_None [run_intros]: "same_run c None None"
  unfolding same_run_def by simp

lemma same_run_if [run_intros]:
  "(b \<Longrightarrow> same_run c x y) \<Longrightarrow> (\<not> b \<Longrightarrow> same_run c x' y') \<Longrightarrow> same_run c (if b then x else x') (if b then y else y')"
  by simp

lemma holds_bind:
  assumes "holds P x" "\<And>y. x = Some y \<Longrightarrow> P y \<Longrightarrow> holds Q (f y)"
  shows "holds Q (Option.bind x f)"
  using assms unfolding holds_def by (cases x) auto

lemma holds_Some [simp]: "holds Q (Some y) \<longleftrightarrow> Q y"
  by (simp add: holds_def)

lemma holds_None [simp]: "holds Q None"
  by (simp add: holds_def)

lemma holdsD: "holds Q x \<Longrightarrow> x = Some y \<Longrightarrow> Q y"
  by (simp add: holds_def)

lemma holds_mono: "holds P x \<Longrightarrow> (\<And>y. P y \<Longrightarrow> Q y) \<Longrightarrow> holds Q x"
  by (auto simp: holds_def)

text \<open>A run that changes the state quietly; it is the same run, whoever the exchanger is.\<close>

definition quietly :: "'w rstate \<Rightarrow> ('w rstate \<times> 'a) option \<Rightarrow> bool" where
  "quietly s x \<longleftrightarrow> holds (\<lambda>y. quiet s (fst y)) x"

lemma quietlyD: "quietly s x \<Longrightarrow> x = Some (s', a) \<Longrightarrow> quiet s s'"
  by (auto simp: quietly_def holds_def)

lemma quietly_Some [simp]: "quietly s (Some y) \<longleftrightarrow> quiet s (fst y)"
  by (simp add: quietly_def)

lemma quietly_None [simp]: "quietly s None"
  by (simp add: quietly_def)

lemma quietly_bind:
  assumes "quietly s x" "\<And>t a. x = Some (t, a) \<Longrightarrow> quiet s t \<Longrightarrow> quietly t (f (t, a))"
  shows "quietly s (Option.bind x f)"
proof (cases x)
  case (Some y)
  obtain t a where y: "y = (t, a)" by (cases y)
  with Some assms have "quiet s t" "quietly t (f (t, a))" by (simp_all add: quietly_def)
  with Some y show ?thesis using quiet_trans by (auto simp: quietly_def holds_def)
qed simp

lemma quietly_plain: "(\<And>a. quietly s (f a)) \<Longrightarrow> quietly s (Option.bind x f)"
  by (cases x) simp_all

lemma same_run_quiet:
  assumes "quietly s x" "c \<le> session s"
  shows "same_run c x x"
  using assms by (auto simp: same_run_def quietly_def holds_def quiet_def)

lemma zone_steps_quiet:
  "quietly s (zone_exchange E s z m)" "quietly s (zone_soa E s z name)" "quietly s (zone_dnskeys E s z)"
  using zone_exchange_quiet zone_soa_quiet zone_dnskeys_quiet unfolding quietly_def holds_def by fastforce+

text \<open>A run that leaves the counter of the request as it is.\<close>

definition steady :: "'w rstate \<Rightarrow> ('w rstate \<times> 'a) option \<Rightarrow> bool" where
  "steady s x \<longleftrightarrow> holds (\<lambda>y. session (fst y) = session s) x"

lemma steady_Some [simp]: "steady s (Some y) \<longleftrightarrow> session (fst y) = session s"
  by (simp add: steady_def)

lemma steady_None [simp]: "steady s None"
  by (simp add: steady_def)

lemma steady_quietly: "quietly s x \<Longrightarrow> steady s x"
  by (auto simp: steady_def quietly_def holds_def quiet_def)

lemma steady_bind:
  assumes "steady s x" "\<And>t a. session t = session s \<Longrightarrow> steady t (f (t, a))"
  shows "steady s (Option.bind x f)"
proof (cases x)
  case (Some y)
  obtain t a where y: "y = (t, a)" by (cases y)
  with Some assms(1) have "session t = session s" by simp
  with assms(2) [OF this, of a] Some y show ?thesis by (simp add: steady_def)
qed simp

lemma steady_plain: "(\<And>a. steady s (f a)) \<Longrightarrow> steady s (Option.bind x f)"
  by (cases x) simp_all

lemma same_run_steady:
  assumes "steady s x" "c \<le> session s"
  shows "same_run c x x"
  using assms by (auto simp: same_run_def steady_def holds_def)

lemmas zone_steps_same [run_intros] = zone_steps_quiet [THEN same_run_quiet]

end
