(* ===== verification/Factory.thy ===== *)
theory Factory
  imports Growth
begin

text \<open>
  Creating a zone from a delegation: \<open>zone_factory.go\<close>. The exchanger that resolves the addresses
  of nameservers is an argument, as in the code; the resolver passes itself. The goroutines started
  here are taken to run at once: the one that looks up the addresses, of which the caller awaits
  the first success, and the one that enriches a pool in the background.
\<close>

section \<open>Operations\<close>

type_synonym 'w exch = "'w rstate \<Rightarrow> Msg \<Rightarrow> ('w rstate \<times> Response) option"

text \<open>
  The loop of the goroutine in \<open>enrichPool\<close>, over the pairs of a type and a host. The first success
  is sent on an unbuffered channel; after the deadline nobody receives, and the goroutine stays
  there for good. The result says whether the first success was received.
\<close>

fun enrich_queries :: "'w env \<Rightarrow> 'w exch \<Rightarrow> nat \<Rightarrow> int \<Rightarrow> bool \<Rightarrow> 'w rstate \<Rightarrow> (u16 \<times> string) list \<Rightarrow> ('w rstate \<times> bool) option" where
  "enrich_queries E ex p deadline doneCalled s [] = Some (s, doneCalled)"
| "enrich_queries E ex p deadline doneCalled s ((t, domain) # qs) = do {
     let qmsg = SetQuestion (E_lib E) new_Msg (Fqdn (E_lib E) domain) t;
     (s1, response) \<leftarrow> ex s qmsg;
     (case (r_Err response, r_Msg response) of
        (None, Some msg) \<Rightarrow>
          if length (mAnswer msg) > 0 then
            let s2 = set_pool p (enrich (E_lib E) (MaxAllowedTTL (E_cfg E)) (now_unix E s1) (pools s1 p) (mAnswer msg)) s1
            in if \<not> doneCalled \<and> now_ns E s1 > deadline then Some (s2, False)
               else enrich_queries E ex p deadline True s2 qs
          else enrich_queries E ex p deadline doneCalled s1 qs
      | _ \<Rightarrow> enrich_queries E ex p deadline doneCalled s1 qs)
   }"

definition enrichPool :: "'w env \<Rightarrow> 'w exch \<Rightarrow> 'w rstate \<Rightarrow> nat \<Rightarrow> ('w rstate \<times> error option) option" where
  "enrichPool E ex s p =
     (let hosts0 = hostsWithoutAddresses (pools s p);
          desired = DesireNumberOfNameserversPerZone (E_cfg E);
          types = TypeA # (if E_v6 E then [TypeAAAA] else [])
      in if length hosts0 = 0 then Some (s, Some (Errorf [RErr ErrFailedEnrichingPool]))
         else do {
           hosts \<leftarrow> (if int (length hosts0) > desired then (if desired < 0 then None else Some (take (nat desired) hosts0))
                    else Some hosts0);
           (s1, doneCalled) \<leftarrow> enrich_queries E ex p (now_ns E s + 3000000000) False s
             (concat (map (\<lambda>t. map (Pair t) hosts) types));
           Some (s1, if \<not> doneCalled then Some (Errorf [RErr ErrFailedEnrichingPool])
                     else (case pool_status (E_v6 E) desired (pools s1 p) of
                             PoolPrimed \<Rightarrow> None
                           | PrimedButNeedsEnhancing \<Rightarrow> None
                           | _ \<Rightarrow> Some (Errorf [RErr ErrFailedEnrichingPool])))
         })"

definition alloc_pool :: "nameserverPool \<Rightarrow> 'w rstate \<Rightarrow> 'w rstate \<times> nat" where
  "alloc_pool v s = (s\<lparr>pools := (pools s)(next_pool s := v), next_pool := Suc (next_pool s)\<rparr>, next_pool s)"

definition createZone :: "'w env \<Rightarrow> 'w exch \<Rightarrow> 'w rstate \<Rightarrow> string \<Rightarrow> string \<Rightarrow> (RR_Header \<times> string) list \<Rightarrow> RR list
    \<Rightarrow> ('w rstate \<times> (error + nat)) option" where
  "createZone E ex s name0 parent0 nameservers extra =
     (let L = E_lib E; name = CanonicalName L name0; parent = CanonicalName L parent0
      in if name = parent \<or> \<not> IsSubDomain L parent name
         then Some (s, Inl (Errorf [RErr ErrFailedCreatingZoneAndPool]))
         else
           let (s1, p) = alloc_pool (newNameserverPool L (MaxAllowedTTL (E_cfg E)) (now_unix E s) nameservers extra) s;
               make = (\<lambda>s. let (s2, z) = new_zone \<lparr>zoneName = name, parentName = parent, z_pool = Some p, z_calls = 0,
                                 dnskeyRecords = [], dnskeyExpiry = None\<rparr> s in (s2, Inr z))
           in (case pool_status (E_v6 E) (DesireNumberOfNameserversPerZone (E_cfg E)) (pools s1 p) of
                 PrimedButNeedsEnhancing \<Rightarrow>
                   if LazyEnrichment (E_cfg E) then Some (make s1)
                   else do { (s2, _) \<leftarrow> enrichPool E ex s1 p; Some (make s2) }
               | PoolPrimed \<Rightarrow> Some (make s1)
               | PoolHasHostnamesButNoIpAddresses \<Rightarrow> do {
                   (s2, err) \<leftarrow> enrichPool E ex s1 p;
                   Some (case err of Some e \<Rightarrow> (s2, Inl e) | None \<Rightarrow> make s2)
                 }
               | _ \<Rightarrow> Some (s1, Inl (Errorf [RErr ErrFailedCreatingZoneAndPool]))))"

section \<open>Which states the exchanger is asked in\<close>

text \<open>
  Two exchangers that agree, and do not set the counter of the request back, in every state whose
  counter has reached \<open>c\<close>.
\<close>

definition agree :: "nat \<Rightarrow> 'w exch \<Rightarrow> 'w exch \<Rightarrow> bool" where
  "agree c ex1 ex2 \<longleftrightarrow> (\<forall>c' s m. c \<le> c' \<longrightarrow> c' \<le> session s \<longrightarrow> same_run c' (ex1 s m) (ex2 s m))"

lemma agree_run: "agree c ex1 ex2 \<Longrightarrow> c \<le> session s \<Longrightarrow> same_run c (ex1 s m) (ex2 s m)"
  by (simp add: agree_def)

lemma agree_mono: "agree c ex1 ex2 \<Longrightarrow> c \<le> c' \<Longrightarrow> agree c' ex1 ex2"
  by (simp add: agree_def)

lemma session_frame [simp]:
  "session (set_pool p v s) = session s" "session (set_zone z v' s) = session s"
  "session (fst (alloc_pool v s)) = session s" "session (fst (new_zone v' s)) = session s"
  "session (zones_add E s z) = session s"
  by (simp_all add: set_pool_def set_zone_def alloc_pool_def new_zone_def zones_add_def Let_def)

lemma enrich_queries_agree:
  assumes "agree c ex1 ex2" "c \<le> session s"
  shows "same_run c (enrich_queries E ex1 p deadline d s qs) (enrich_queries E ex2 p deadline d s qs)"
  using assms(2)
proof (induction qs arbitrary: d s)
  case (Cons q qs)
  obtain t domain where q: "q = (t, domain)" by (cases q)
  have "same_run c (case (r_Err r, r_Msg r) of
        (None, Some msg) \<Rightarrow>
          if length (mAnswer msg) > 0 then
            let s2 = set_pool p (enrich (E_lib E) (MaxAllowedTTL (E_cfg E)) (now_unix E s1) (pools s1 p) (mAnswer msg)) s1
            in if \<not> d \<and> now_ns E s1 > deadline then Some (s2, False)
               else enrich_queries E ex1 p deadline True s2 qs
          else enrich_queries E ex1 p deadline d s1 qs
      | _ \<Rightarrow> enrich_queries E ex1 p deadline d s1 qs)
     (case (r_Err r, r_Msg r) of
        (None, Some msg) \<Rightarrow>
          if length (mAnswer msg) > 0 then
            let s2 = set_pool p (enrich (E_lib E) (MaxAllowedTTL (E_cfg E)) (now_unix E s1) (pools s1 p) (mAnswer msg)) s1
            in if \<not> d \<and> now_ns E s1 > deadline then Some (s2, False)
               else enrich_queries E ex2 p deadline True s2 qs
          else enrich_queries E ex2 p deadline d s1 qs
      | _ \<Rightarrow> enrich_queries E ex2 p deadline d s1 qs)" if "c \<le> session s1" for s1 r
    using that Cons.IH by (auto simp: Let_def split: option.split intro!: run_intros)
  with agree_run [OF assms(1) Cons.prems] show ?case
    unfolding q enrich_queries.simps Let_def by (auto intro!: same_run_bind)
qed (simp add: run_intros)

lemma enrichPool_agree:
  assumes "agree c ex1 ex2" "c \<le> session s"
  shows "same_run c (enrichPool E ex1 s p) (enrichPool E ex2 s p)"
  unfolding enrichPool_def Let_def using assms
  by (auto intro!: same_run_plain same_run_bind [OF enrich_queries_agree] same_run_Some same_run_None)

lemma createZone_agree:
  assumes "agree c ex1 ex2" "c \<le> session s"
  shows "same_run c (createZone E ex1 s name parent nss extra) (createZone E ex2 s name parent nss extra)"
proof -
  let ?v = "newNameserverPool (E_lib E) (MaxAllowedTTL (E_cfg E)) (now_unix E s) nss extra"
  obtain s1 p where s1: "alloc_pool ?v s = (s1, p)" by (cases "alloc_pool ?v s")
  then have c: "c \<le> session s1" using assms(2) session_frame(3) [of ?v s] by simp
  have new: "c \<le> session (fst (new_zone v t))" if "c \<le> session t" for v and t :: "'a rstate" using that by simp
  show ?thesis
    unfolding createZone_def Let_def s1 prod.case
    using enrichPool_agree [OF assms(1) c] assms(2) c new
    by (auto simp: new_zone_def split: NameserverPoolStatus.split option.split intro!: run_intros)
qed

section \<open>What the factory relies on and what it promises\<close>

text \<open>The contract of an exchanger that works on the state of the resolver.\<close>

definition grown :: "dnslib \<Rightarrow> 'w rstate \<Rightarrow> 'w rstate \<Rightarrow> bool" where
  "grown L s s' \<longleftrightarrow> resolver_ok L s' \<and> extends s s'"

lemma grown_refl: "resolver_ok L s \<Longrightarrow> grown L s s"
  by (simp add: grown_def)

lemma grown_trans: "grown L s t \<Longrightarrow> grown L t u \<Longrightarrow> grown L s u"
  using extends_trans by (auto simp: grown_def)

lemma grown_quiet: "resolver_ok L s \<Longrightarrow> quiet s s' \<Longrightarrow> grown L s s'"
  by (simp add: grown_def resolver_ok_quiet quiet_extends)

locale onward_exchanger =
  fixes L :: dnslib and ex :: "'w exch"
  assumes keeps: "resolver_ok L s \<Longrightarrow> ex s m = Some (s', r) \<Longrightarrow> grown L s s' \<and> usable r"

text \<open>Enriching a pool takes no server away and does not end a pool that never expires.\<close>

lemma enrich_grows:
  "set (ipv4 pool) \<subseteq> set (ipv4 (enrich L maxTTL now pool rrs)) \<and>
   set (ipv6 pool) \<subseteq> set (ipv6 (enrich L maxTTL now pool rrs))"
  using enrich_lists [of L maxTTL now pool rrs] by auto

lemma enrich_has_server: "has_server pool \<Longrightarrow> has_server (enrich L maxTTL now pool rrs)"
  using enrich_grows [of pool L maxTTL now rrs] by (auto simp: has_server_def)

lemma extends_set_pool: "extends b s \<Longrightarrow> next_pool b \<le> p \<Longrightarrow> extends b (set_pool p v s)"
  by (auto simp: extends_def set_pool_def)

lemma resolver_ok_enrich:
  assumes "resolver_ok L s"
  shows "resolver_ok L (set_pool p (enrich L' maxTTL now (pools s p) rrs) s)"
proof -
  let ?s = "set_pool p (enrich L' maxTTL now (pools s p) rrs) s"
  have f: "zobjs ?s = zobjs s" "next_zone ?s = next_zone s" "next_pool ?s = next_pool s" "known ?s = known s"
    by (simp_all add: set_pool_def known_def)
  have e: "entry_sound L ?s = entry_sound L s" by (rule ext) (simp add: entry_sound_def f)
  have servers: "has_server (pools s q) \<Longrightarrow> has_server (pools ?s q)" for q
    by (auto simp: set_pool_def enrich_has_server)
  have never: "expires (pools s q) \<le> 0 \<Longrightarrow> expires (pools ?s q) \<le> 0" for q
    by (auto simp: set_pool_def enrich_expires)
  have "zone_sound ?s z" if "zone_sound s z" for z
    using that servers unfolding zone_sound_def f by blast
  moreover have "root_known L ?s" using assms never unfolding resolver_ok_def root_known_def f by blast
  ultimately show ?thesis using assms by (simp add: resolver_ok_def f e)
qed

lemma alloc_pool_grown:
  assumes "resolver_ok L s"
  shows "grown L s (fst (alloc_pool v s))"
proof -
  let ?s = "fst (alloc_pool v s)"
  have f: "zmap ?s = zmap s" "next_zone ?s = next_zone s" and e: "extends s ?s"
    by (simp_all add: alloc_pool_def extends_def)
  have "resolver_ok L ?s" by (rule resolver_ok_extends [OF e assms f(1)]) (simp add: f(2))
  with e show ?thesis by (simp add: grown_def)
qed

lemma new_zone_grown:
  assumes "resolver_ok L s" "z_pool v = Some p" "p < next_pool s" "has_server (pools s p)"
  shows "grown L s (fst (new_zone v s))"
proof -
  let ?s = "fst (new_zone v s)"
  have f: "zmap ?s = zmap s" "next_zone ?s = Suc (next_zone s)" and e: "extends s ?s"
    by (simp_all add: new_zone_def extends_def)
  have "zone_sound ?s (next_zone s)" using assms(2-) by (simp add: new_zone_def zone_sound_def)
  then have "zone_sound ?s z" if "next_zone s \<le> z" "z < next_zone ?s" for z
    using that by (simp add: f(2) less_Suc_eq)
  with resolver_ok_extends [OF e assms(1) f(1)] e show ?thesis by (simp add: grown_def)
qed

text \<open>A pool that counts as primed has a server.\<close>

lemma primed_has_server:
  "pool_status v6 n pool \<in> {PoolPrimed, PrimedButNeedsEnhancing} \<Longrightarrow> has_server pool"
  by (auto simp: pool_status_def has_server_def Let_def split: if_splits)

context onward_exchanger
begin

definition enriched :: "nat \<Rightarrow> 'w rstate \<Rightarrow> 'w rstate \<Rightarrow> 'w rstate \<Rightarrow> bool" where
  "enriched p b s s' \<longleftrightarrow> resolver_ok L s' \<and> extends b s' \<and> p < next_pool s' \<and> (has_server (pools s p) \<longrightarrow> has_server (pools s' p))"

lemma enriched_trans: "enriched p b s t \<Longrightarrow> enriched p b t u \<Longrightarrow> enriched p b s u"
  by (simp add: enriched_def)

lemma enriched_exchange:
  assumes "resolver_ok L s" "extends b s" "p < next_pool s" "ex s m = Some (s1, r)"
  shows "enriched p b s s1"
proof -
  from keeps [OF assms(1,4)] have g: "resolver_ok L s1" "extends s s1" by (simp_all add: grown_def)
  with assms(3) have "p < next_pool s1" "same_servers (pools s p) (pools s1 p)" by (auto simp: extends_def)
  with g extends_trans [OF assms(2) g(2)] show ?thesis by (simp add: enriched_def same_servers_has_server)
qed

lemma enriched_enrich:
  assumes "resolver_ok L s" "extends b s" "p < next_pool s" "next_pool b \<le> p"
  shows "enriched p b s (set_pool p (enrich L' maxTTL now (pools s p) rrs) s)"
  using assms resolver_ok_enrich [OF assms(1)] extends_set_pool [OF assms(2,4)]
  by (simp add: enriched_def set_pool_def enrich_has_server)

lemma enrich_queries_keeps:
  assumes "resolver_ok L s" "extends b s" "p < next_pool s" "next_pool b \<le> p"
  shows "holds (\<lambda>y. enriched p b s (fst y)) (enrich_queries E ex p deadline d s qs)"
  using assms(1-3)
proof (induction qs arbitrary: d s)
  case Nil
  then show ?case by (simp add: enriched_def)
next
  case (Cons q qs)
  obtain t domain where q: "q = (t, domain)" by (cases q)
  let ?m = "SetQuestion (E_lib E) new_Msg (Fqdn (E_lib E) domain) t"
  show ?case
  proof (cases "ex s ?m")
    case (Some x)
    obtain s1 r where x: "x = (s1, r)" by (cases x)
    from enriched_exchange [OF Cons.prems] Some x have e1: "enriched p b s s1" by simp
    then have p1: "resolver_ok L s1" "extends b s1" "p < next_pool s1" by (simp_all add: enriched_def)
    have e2: "enriched p b s1 (set_pool p (enrich L' maxTTL now (pools s1 p) rrs) s1)" for L' maxTTL now rrs
      by (rule enriched_enrich [OF p1 assms(4)])
    then have p2: "resolver_ok L s2 \<and> extends b s2 \<and> p < next_pool s2"
      if "s2 = set_pool p (enrich L' maxTTL now (pools s1 p) rrs) s1" for s2 L' maxTTL now rrs
      using that by (simp add: enriched_def)
    have again: "holds (\<lambda>y. enriched p b s (fst y)) (enrich_queries E ex p deadline d' s2 qs)"
      if "enriched p b s s2" "resolver_ok L s2 \<and> extends b s2 \<and> p < next_pool s2" for s2 d'
      using Cons.IH [of s2 d'] that enriched_trans by (auto elim: holds_mono)
    show ?thesis
      using q Some x again [OF e1] p1 again [OF enriched_trans [OF e1 e2] p2] enriched_trans [OF e1 e2]
      by (auto simp: Let_def split: option.split)
  qed (simp add: q)
qed

lemma enrichPool_keeps:
  assumes "resolver_ok L s" "extends b s" "p < next_pool s" "next_pool b \<le> p"
  shows "holds (\<lambda>y. enriched p b s (fst y) \<and> (snd y = None \<longrightarrow> has_server (pools (fst y) p))) (enrichPool E ex s p)"
proof -
  have refl: "enriched p b s s" using assms by (simp add: enriched_def)
  let ?Q = "\<lambda>y. enriched p b s (fst y) \<and> (snd y = None \<longrightarrow> has_server (pools (fst y) p))"
  have status: "?Q (s1, if \<not> d then Some e else (case pool_status (E_v6 E) n (pools s1 p) of
      PoolPrimed \<Rightarrow> None | PrimedButNeedsEnhancing \<Rightarrow> None | _ \<Rightarrow> Some e'))" if "enriched p b s s1" for s1 d e e' n
    using that primed_has_server [of "E_v6 E" n "pools s1 p"] by (simp split: NameserverPoolStatus.split)
  have run: "holds ?Q (Option.bind (enrich_queries E ex p t False s qs) (\<lambda>(s1, d). Some (s1, if \<not> d then Some e
      else (case pool_status (E_v6 E) n (pools s1 p) of PoolPrimed \<Rightarrow> None | PrimedButNeedsEnhancing \<Rightarrow> None | _ \<Rightarrow> Some e'))))"
    for t qs e e' n
    by (rule holds_bind [OF enrich_queries_keeps [OF assms]]) (unfold case_prod_beta holds_Some, rule status)
  show ?thesis
  proof (cases "length (hostsWithoutAddresses (pools s p)) = 0")
    case True
    then show ?thesis using refl by (simp add: enrichPool_def)
  next
    case False
    show ?thesis unfolding enrichPool_def Let_def if_not_P [OF False]
      by (rule holds_bind [of "\<lambda>_. True"]) (simp add: holds_def, rule run)
  qed
qed

text \<open>Creating a zone: the zone is new, has the canonical name asked for, and is not the root.\<close>

definition made :: "'w rstate \<Rightarrow> string \<Rightarrow> string \<Rightarrow> 'w rstate \<times> (error + nat) \<Rightarrow> bool" where
  "made s name parent y \<longleftrightarrow> grown L s (fst y) \<and> (\<forall>z. snd y = Inr z \<longrightarrow> z < next_zone (fst y) \<and>
     zname (fst y) z = CanonicalName L name \<and> zparent (fst y) z = CanonicalName L parent \<and>
     CanonicalName L name \<noteq> CanonicalName L parent \<and> IsSubDomain L (CanonicalName L parent) (CanonicalName L name))"

lemma createZone_keeps:
  assumes ok: "resolver_ok L s" and E: "E_lib E = L"
  shows "holds (made s name parent) (createZone E ex s name parent nss extra)"
proof (cases "CanonicalName L name = CanonicalName L parent \<or> \<not> IsSubDomain L (CanonicalName L parent) (CanonicalName L name)")
  case True
  then show ?thesis using ok by (simp add: createZone_def E Let_def made_def grown_refl)
next
  case False
  let ?v = "newNameserverPool L (MaxAllowedTTL (E_cfg E)) (now_unix E s) nss extra"
  obtain s1 p where s1: "alloc_pool ?v s = (s1, p)" by (cases "alloc_pool ?v s")
  have g1: "grown L s s1" using alloc_pool_grown [OF ok, of ?v] s1 by simp
  have p: "p < next_pool s1" "next_pool s \<le> p" using s1 by (auto simp: alloc_pool_def)
  from g1 have ok1: "resolver_ok L s1" "extends s s1" by (simp_all add: grown_def)
  let ?obj = "\<lparr>zoneName = CanonicalName L name, parentName = CanonicalName L parent, z_pool = Some p, z_calls = 0,
    dnskeyRecords = [], dnskeyExpiry = None\<rparr>"
  have make: "made s name parent (case new_zone ?obj t of (s2, z) \<Rightarrow> (s2, Inr z))"
    if "resolver_ok L t" "extends s t" "p < next_pool t" "has_server (pools t p)" for t
  proof -
    from new_zone_grown [OF that(1) _ that(3,4), of ?obj] have "grown L t (fst (new_zone ?obj t))" by simp
    with that(2) have "grown L s (fst (new_zone ?obj t))" using extends_trans by (auto simp: grown_def)
    with False show ?thesis by (simp add: made_def new_zone_def)
  qed
  note enriched = enrichPool_keeps [OF ok1 p, of E]
  have primed: "has_server (pools s1 p)" if "pool_status (E_v6 E) n (pools s1 p) \<in> {PoolPrimed, PrimedButNeedsEnhancing}" for n
    by (rule primed_has_server [OF that])
  have fail: "made s name parent (t, Inl e)" if "enriched p s s1 t" for t e
    using that by (simp add: made_def enriched_def grown_def)
  have go: "made s name parent (case new_zone ?obj t of (s2, z) \<Rightarrow> (s2, Inr z))"
    if "enriched p s s1 t" "has_server (pools s1 p) \<or> has_server (pools t p)" for t
    using that make [of t] by (auto simp: enriched_def)
  have refl: "enriched p s s1 s1" using ok1 p by (simp add: enriched_def)
  have sync: "holds (made s name parent) (Option.bind (enrichPool E ex s1 p)
      (\<lambda>(s2, err). Some (case err of None \<Rightarrow> case new_zone ?obj s2 of (s2, z) \<Rightarrow> (s2, Inr z) | Some e \<Rightarrow> (s2, Inl e))))"
    by (rule holds_bind [OF enriched]) (use fail go in \<open>auto split: option.split\<close>)
  have background: "holds (made s name parent) (Option.bind (enrichPool E ex s1 p)
      (\<lambda>(s2, _). Some (case new_zone ?obj s2 of (s2, z) \<Rightarrow> (s2, Inr z))))" if "has_server (pools s1 p)"
    by (rule holds_bind [OF enriched]) (use go that in auto)
  show ?thesis
    unfolding createZone_def E Let_def if_not_P [OF False] s1 prod.case
    using sync background primed [of "DesireNumberOfNameserversPerZone (E_cfg E)"] fail [OF refl] go [OF refl]
    by (simp split: NameserverPoolStatus.split)
qed

end

end
