(* ===== verification/Authenticator.thy ===== *)
theory Authenticator
  imports Verify "HOL-Library.Multiset"
begin

text \<open>
  The chain of responses: \<open>dnssec/authenticator.go\<close> and \<open>dnssec/result.go\<close>. Responses arrive in any
  order, are buffered by the label count of their zone, and are verified from the root down, each
  with the DS records of the one before; \<open>Result\<close> merges the outcomes.

  The verification of one response is a field of the Go struct, so it is an argument \<open>vf\<close> here;
  the locale \<open>response_verifier\<close> states what the chain relies on, and \<^const>\<open>verify\<close> is shown to
  provide it. That function never returns a nil result, so the branch for one is not modelled.
\<close>

section \<open>State\<close>

type_synonym verify_fun = "Zone \<Rightarrow> Msg \<Rightarrow> DS list \<Rightarrow> step"

record input =
  in_zone :: Zone
  in_msg :: Msg

record Authenticator =
  a_question :: Question
  inputBuffer :: "input option list"
  inputBufferIdx :: nat
  a_results :: "result list"

definition NewAuth :: "dnslib \<Rightarrow> Question \<Rightarrow> Authenticator" where
  "NewAuth L question =
     \<lparr>a_question = question,
      inputBuffer = replicate (nat (CountLabel L (qName question) + 1)) None,
      inputBufferIdx = 0, a_results = []\<rparr>"

section \<open>Processing one response\<close>

text \<open>The zone must lie below, and differ from, the zone of the last result.\<close>

definition chain_error :: "dnslib \<Rightarrow> result list \<Rightarrow> Zone \<Rightarrow> error option" where
  "chain_error L results zone =
     (if results = [] then None
      else
        let lastName = z_Name (rs_zone (last results))
        in if \<not> IsSubDomain L lastName (z_Name zone) then Some (Errorf [DErr ErrNotSubdomain])
           else if namesEqual L lastName (z_Name zone) then Some (Errorf [DErr ErrSameName])
           else None)"

text \<open>The signer of the response must be the owner of the DS records handed down.\<close>

definition signer_error :: "dnslib \<Rightarrow> Question \<Rightarrow> Msg \<Rightarrow> DS list \<Rightarrow> error option" where
  "signer_error L question msg lastDS =
     (case (extractRecords as_RRSIG (mAnswer msg @ mNs msg), lastDS) of
        (rrsig # _, d # _) \<Rightarrow>
          let signerName = CanonicalName L (sigSignerName (snd rrsig));
              lastDSOwner = CanonicalName L (hName (fst d))
          in if lastDSOwner \<noteq> signerName then
               (if \<not> IsSubDomain L signerName (qName question) then Some (Errorf [DErr ErrNotSubdomain])
                else Some (MissingDSRecordError signerName))
             else None
      | _ \<Rightarrow> None)"

text \<open>The new list of results, or the error that leaves it as it is.\<close>

definition process ::
  "dnslib \<Rightarrow> DS list \<Rightarrow> verify_fun \<Rightarrow> Question \<Rightarrow> result list \<Rightarrow> input \<Rightarrow> (result list \<times> error option) option" where
  "process L anchors vf question results i =
     (let zone = in_zone i; msg = in_msg i;
          lastDS = (if results = [] then anchors else rs_dsRecords (last results))
      in case chain_error L results zone of
           Some e \<Rightarrow> Some (results, Some e)
         | None \<Rightarrow>
             (case signer_error L question msg lastDS of
                Some e \<Rightarrow> Some (results, Some e)
              | None \<Rightarrow> do {
                  (r, state, err) \<leftarrow> vf zone msg lastDS;
                  let r1 = (case err of None \<Rightarrow> r | Some e \<Rightarrow> r\<lparr>rs_err := Some e\<rparr>);
                  let state1 = (if state = Unknown then Bogus else state);
                  Some (results @ [r1\<lparr>rs_state := state1\<rparr>], None)
                }))"

definition processResponse ::
  "dnslib \<Rightarrow> DS list \<Rightarrow> verify_fun \<Rightarrow> Authenticator \<Rightarrow> Zone \<Rightarrow> Msg \<Rightarrow> (Authenticator \<times> error option) option" where
  "processResponse L anchors vf a zone msg = do {
     (results, err) \<leftarrow> process L anchors vf (a_question a) (a_results a) \<lparr>in_zone = zone, in_msg = msg\<rparr>;
     Some (a\<lparr>a_results := results\<rparr>, err)
   }"

section \<open>Adding a response\<close>

text \<open>
  The loop of \<open>AddResponse\<close> over the buffer from the current index: it stops at a gap, and an
  error leaves the index at the response that caused it.
\<close>

fun drain :: "dnslib \<Rightarrow> DS list \<Rightarrow> verify_fun \<Rightarrow> Authenticator \<Rightarrow> input option list \<Rightarrow> (Authenticator \<times> error option) option" where
  "drain L anchors vf a [] = Some (a, None)"
| "drain L anchors vf a (None # rest) = Some (a, None)"
| "drain L anchors vf a (Some i # rest) = do {
     (a1, err) \<leftarrow> processResponse L anchors vf a (in_zone i) (in_msg i);
     (case err of
        Some e \<Rightarrow> Some (a1, Some e)
      | None \<Rightarrow> drain L anchors vf (a1\<lparr>inputBufferIdx := Suc (inputBufferIdx a1)\<rparr>) rest)
   }"

definition AddResponse ::
  "dnslib \<Rightarrow> DS list \<Rightarrow> verify_fun \<Rightarrow> Authenticator \<Rightarrow> Zone \<Rightarrow> Msg \<Rightarrow> (Authenticator \<times> error option) option" where
  "AddResponse L anchors vf a zone msg =
     (if \<not> IsSubDomain L (z_Name zone) (qName (a_question a))
      then Some (a, Some (Errorf [DErr ErrNotSubdomain]))
      else do {
        q \<leftarrow> at (mQuestion msg) 0;
        if \<not> IsSubDomain L (qName q) (qName (a_question a))
        then Some (a, Some (Errorf [DErr ErrNotSubdomain]))
        else do {
          let position = CountLabel L (z_Name zone);
          v \<leftarrow> at (inputBuffer a) position;
          (case v of
             Some _ \<Rightarrow> Some (a, Some (Errorf [DErr ErrDuplicateInputForZone]))
           | None \<Rightarrow>
               let a1 = a\<lparr>inputBuffer := (inputBuffer a)[nat position := Some \<lparr>in_zone = zone, in_msg = msg\<rparr>]\<rparr>
               in drain L anchors vf a1 (drop (inputBufferIdx a1) (inputBuffer a1)))
        }
      })"

section \<open>The result\<close>

text \<open>The loop of \<open>Result\<close> over the rest of the buffer: it skips gaps.\<close>

fun drain_all :: "dnslib \<Rightarrow> DS list \<Rightarrow> verify_fun \<Rightarrow> Authenticator \<Rightarrow> input option list \<Rightarrow> (Authenticator \<times> error option) option" where
  "drain_all L anchors vf a [] = Some (a, None)"
| "drain_all L anchors vf a (None # rest) =
     drain_all L anchors vf (a\<lparr>inputBufferIdx := Suc (inputBufferIdx a)\<rparr>) rest"
| "drain_all L anchors vf a (Some i # rest) = do {
     (a1, err) \<leftarrow> processResponse L anchors vf a (in_zone i) (in_msg i);
     (case err of
        Some e \<Rightarrow> Some (a1, Some e)
      | None \<Rightarrow> drain_all L anchors vf (a1\<lparr>inputBufferIdx := Suc (inputBufferIdx a1)\<rparr>) rest)
   }"

type_synonym verdict = "AuthenticationResult \<times> DenialOfExistenceState \<times> error option"

text \<open>The loop that looks for the first result that is not Secure; \<open>None\<close> inside: there is none.\<close>

fun chain_loop :: "dnslib \<Rightarrow> result option \<Rightarrow> result list \<Rightarrow> verdict option option" where
  "chain_loop L prev [] = Some None"
| "chain_loop L prev (current # rs) =
     (if rs_state current = Secure then chain_loop L (Some current) rs
      else (case prev of
              None \<Rightarrow> Some (Some (rs_state current, rs_doe current, rs_err current))
            | Some previous \<Rightarrow>
                (if rs_doe previous \<in> {Nsec3OptOut, NsecMissingDS, Nsec3MissingDS}
                 then Some (Some (Insecure, rs_doe previous, rs_err current))
                 else if rs_doe previous \<in> {NsecNoData, Nsec3NoData} then do {
                   previousQ \<leftarrow> at (mQuestion (rs_msg previous)) 0;
                   Some (Some
                     (if qQtype previousQ = TypeDS
                         \<and> CanonicalName L (qName previousQ) = CanonicalName L (z_Name (rs_zone current))
                      then Insecure else Bogus,
                      rs_doe previous, rs_err current))
                 }
                 else Some (Some (Bogus, rs_doe previous, rs_err current)))))"

text \<open>The last part of \<open>Result\<close>, about the last result; every result is Secure by then.\<close>

definition last_verdict :: "Question \<Rightarrow> result \<Rightarrow> verdict" where
  "last_verdict question r =
     (if rs_state r \<noteq> Secure then (rs_state r, rs_doe r, rs_err r)
      else if rs_doe r = Nsec3OptOut then (Insecure, rs_doe r, rs_err r)
      else if rs_doe r \<in> {NsecNxDomain, Nsec3NxDomain, NsecNoData, Nsec3NoData} then (Secure, rs_doe r, rs_err r)
      else if rs_doe r \<notin> {NotFound, NsecWildcard, Nsec3Wildcard} then (Bogus, rs_doe r, rs_err r)
      else if recordsOfTypeExist (mNs (rs_msg r)) TypeSOA then (Bogus, rs_doe r, rs_err r)
      else if length (extractRecordsOfNameAndType (mAnswer (rs_msg r)) (qName question) (qQtype question)) > 0
      then (Secure, rs_doe r, rs_err r)
      else if length (extractRecordsOfNameAndType (mAnswer (rs_msg r)) (qName question) TypeCNAME) > 0
      then (Secure, rs_doe r, rs_err r)
      else (Bogus, rs_doe r, rs_err r))"

definition verdict_of :: "dnslib \<Rightarrow> Question \<Rightarrow> result list \<Rightarrow> verdict option" where
  "verdict_of L question results =
     (if length results = 0 then Some (Unknown, NotFound, Some (DErr ErrNoResults))
      else (case find (\<lambda>r. rs_state r = Bogus) results of
              Some r \<Rightarrow> Some (Bogus, NotFound, rs_err r)
            | None \<Rightarrow> do {
                v \<leftarrow> chain_loop L None results;
                Some (case v of Some w \<Rightarrow> w | None \<Rightarrow> last_verdict question (last results))
              }))"

definition Result ::
  "dnslib \<Rightarrow> DS list \<Rightarrow> verify_fun \<Rightarrow> Authenticator \<Rightarrow> (Authenticator \<times> verdict) option" where
  "Result L anchors vf a = do {
     (a1, err) \<leftarrow> drain_all L anchors vf a (drop (inputBufferIdx a) (inputBuffer a));
     (case err of
        Some e \<Rightarrow> Some (a1, (Unknown, NotFound, Some e))
      | None \<Rightarrow> do {
          v \<leftarrow> verdict_of L (a_question a1) (a_results a1);
          Some (a1, v)
        })
   }"

section \<open>The TTL of the records of the last result\<close>

fun resultTTL_loop :: "u16 \<Rightarrow> bool \<Rightarrow> u32 \<Rightarrow> signatures \<Rightarrow> bool \<times> u32" where
  "resultTTL_loop rtype found ttl [] = (found, ttl)"
| "resultTTL_loop rtype found ttl (sig # ss) =
     (if sg_rtype sig = rtype \<and> sg_verified sig then resultTTL_loop rtype True (min ttl (sg_ttl sig)) ss
      else resultTTL_loop rtype found ttl ss)"

text \<open>\<open>maxTTL\<close> is the package variable \<open>MaxAllowedTTL\<close>.\<close>

definition resultTTL :: "u32 \<Rightarrow> u16 \<Rightarrow> signatures \<Rightarrow> u32 \<times> bool" where
  "resultTTL maxTTL rtype ss =
     (let (found, ttl) = resultTTL_loop rtype False maxTTL ss
      in if \<not> found then (0, False) else (ttl, True))"

definition ResultTTLAnswer :: "u32 \<Rightarrow> Authenticator \<Rightarrow> u16 \<Rightarrow> u32 \<times> bool" where
  "ResultTTLAnswer maxTTL a rtype =
     (if length (a_results a) = 0 then (0, False) else resultTTL maxTTL rtype (rs_answer (last (a_results a))))"

definition ResultTTLAuthority :: "u32 \<Rightarrow> Authenticator \<Rightarrow> u16 \<Rightarrow> u32 \<times> bool" where
  "ResultTTLAuthority maxTTL a rtype =
     (if length (a_results a) = 0 then (0, False) else resultTTL maxTTL rtype (rs_authority (last (a_results a))))"

section \<open>Draining the buffer\<close>

lemma processResponse_frame:
  "processResponse L anchors vf a zone msg = Some (a', err) \<Longrightarrow>
     a_question a' = a_question a \<and> inputBuffer a' = inputBuffer a \<and> inputBufferIdx a' = inputBufferIdx a"
  by (auto simp: processResponse_def split: Option.bind_splits)

text \<open>Processing reads the question and the results only.\<close>

lemma processResponse_buffer:
  "processResponse L anchors vf (a\<lparr>inputBuffer := b\<rparr>) zone msg =
     map_option (\<lambda>(a', e). (a'\<lparr>inputBuffer := b\<rparr>, e)) (processResponse L anchors vf a zone msg)"
  by (auto simp: processResponse_def split: Option.bind_splits)

lemma drain_buffer:
  "drain L anchors vf (a\<lparr>inputBuffer := b\<rparr>) xs =
     map_option (\<lambda>(a', e). (a'\<lparr>inputBuffer := b\<rparr>, e)) (drain L anchors vf a xs)"
proof (induction L anchors vf a xs rule: drain.induct)
  case (3 L anchors vf a i rest)
  show ?case
  proof (cases "processResponse L anchors vf a (in_zone i) (in_msg i)")
    case None
    then show ?thesis by (simp add: processResponse_buffer)
  next
    case (Some x)
    obtain a1 err where x: "x = (a1, err)" by (cases x)
    show ?thesis
    proof (cases err)
      case None
      have swap: "a1\<lparr>inputBuffer := b, inputBufferIdx := n\<rparr> = a1\<lparr>inputBufferIdx := n, inputBuffer := b\<rparr>" for n
        by simp
      with 3 [OF Some x [symmetric] None] Some x None show ?thesis by (simp add: processResponse_buffer swap)
    next
      case (Some e)
      with x \<open>processResponse L anchors vf a (in_zone i) (in_msg i) = Some x\<close>
      show ?thesis by (simp add: processResponse_buffer)
    qed
  qed
qed simp_all

lemma drain_Cons_cases:
  assumes "drain L anchors vf a (x # xs) = Some (a', e)"
  obtains (gap) "x = None" "a' = a" "e = None"
    | (failed) i err where "x = Some i" "e = Some err"
        "processResponse L anchors vf a (in_zone i) (in_msg i) = Some (a', e)"
    | (ok) i a1 where "x = Some i" "processResponse L anchors vf a (in_zone i) (in_msg i) = Some (a1, None)"
        "drain L anchors vf (a1\<lparr>inputBufferIdx := Suc (inputBufferIdx a1)\<rparr>) xs = Some (a', e)"
  using assms by (cases x) (auto split: Option.bind_splits option.splits)

lemma process_error_same:
  "process L anchors vf q rs i = Some (rs', Some e) \<Longrightarrow> rs' = rs"
  by (auto simp: process_def Let_def split: Option.bind_splits option.splits)

lemma processResponse_error_same:
  "processResponse L anchors vf a zone msg = Some (a', Some e) \<Longrightarrow> a' = a"
  by (auto simp: processResponse_def dest!: process_error_same split: Option.bind_splits)

text \<open>The entries that a drain goes through: they are filled, and draining them alone succeeds.\<close>

lemma drain_prefix:
  "drain L anchors vf a xs = Some (a', e) \<Longrightarrow>
     \<exists>k \<le> length xs. inputBufferIdx a' = inputBufferIdx a + k \<and> None \<notin> set (take k xs) \<and>
       drain L anchors vf a (take k xs) = Some (a', None)"
proof (induction xs arbitrary: a)
  case (Cons x xs)
  from Cons.prems show ?case
  proof (cases rule: drain_Cons_cases)
    case gap
    then show ?thesis by (intro exI [of _ 0]) simp
  next
    case failed
    from processResponse_error_same [OF failed(3) [unfolded failed(2)]] show ?thesis
      by (intro exI [of _ 0]) simp
  next
    case (ok i a1)
    from Cons.IH [OF ok(3)] obtain k where k: "k \<le> length xs" "inputBufferIdx a' = Suc (inputBufferIdx a1) + k"
      "None \<notin> set (take k xs)"
      "drain L anchors vf (a1\<lparr>inputBufferIdx := Suc (inputBufferIdx a1)\<rparr>) (take k xs) = Some (a', None)"
      by auto
    with ok processResponse_frame [OF ok(2)] show ?thesis
      by (intro exI [of _ "Suc k"]) simp
  qed
qed simp

lemma drain_append:
  "drain L anchors vf a xs = Some (a', None) \<Longrightarrow> None \<notin> set xs \<Longrightarrow>
     drain L anchors vf a (xs @ ys) = drain L anchors vf a' ys"
proof (induction xs arbitrary: a)
  case (Cons x xs)
  from Cons.prems(1) show ?case
  proof (cases rule: drain_Cons_cases)
    case (ok i a1)
    with Cons.IH [OF ok(3)] Cons.prems show ?thesis by simp
  qed (use Cons.prems in auto)
qed simp

text \<open>A buffer with fewer entries drains wherever a fuller one does.\<close>

definition fewer :: "input option list \<Rightarrow> input option list \<Rightarrow> bool" where
  "fewer = list_all2 (\<lambda>x y. x = None \<or> x = y)"

lemma drain_fewer:
  "fewer xs ys \<Longrightarrow> drain L anchors vf a ys \<noteq> None \<Longrightarrow> drain L anchors vf a xs \<noteq> None"
  unfolding fewer_def
proof (induction arbitrary: a rule: list_all2_induct)
  case (Cons x xs y ys)
  show ?case
  proof (cases x)
    case (Some i)
    with Cons have "y = Some i" by simp
    with Some Cons show ?thesis
      by (auto split: Option.bind_splits option.splits prod.splits)
  qed simp
qed simp

section \<open>The order in which responses arrive\<close>

text \<open>A sequence of calls of \<open>AddResponse\<close>; the callers keep going after an error.\<close>

fun add_all ::
  "dnslib \<Rightarrow> DS list \<Rightarrow> verify_fun \<Rightarrow> Authenticator \<Rightarrow> input list \<Rightarrow> Authenticator option" where
  "add_all L anchors vf a [] = Some a"
| "add_all L anchors vf a (i # rest) = do {
     (a1, err) \<leftarrow> AddResponse L anchors vf a (in_zone i) (in_msg i);
     add_all L anchors vf a1 rest
   }"

text \<open>The state in which everything that can be processed has been, starting from nothing.\<close>

definition restart :: "Authenticator \<Rightarrow> Authenticator" where
  "restart a = a\<lparr>inputBufferIdx := 0, a_results := []\<rparr>"

definition settled :: "dnslib \<Rightarrow> DS list \<Rightarrow> verify_fun \<Rightarrow> Authenticator \<Rightarrow> bool" where
  "settled L anchors vf a \<longleftrightarrow> (\<exists>e. drain L anchors vf (restart a) (inputBuffer a) = Some (a, e))"

text \<open>The first two tests of \<open>AddResponse\<close>.\<close>

definition accepted :: "dnslib \<Rightarrow> Question \<Rightarrow> input \<Rightarrow> bool" where
  "accepted L q i \<longleftrightarrow> IsSubDomain L (z_Name (in_zone i)) (qName q) \<and>
     (\<exists>mq. at (mQuestion (in_msg i)) 0 = Some mq \<and> IsSubDomain L (qName mq) (qName q))"

definition position_of :: "dnslib \<Rightarrow> input \<Rightarrow> int" where
  "position_of L i = CountLabel L (z_Name (in_zone i))"

definition store :: "dnslib \<Rightarrow> Authenticator \<Rightarrow> input \<Rightarrow> Authenticator" where
  "store L a i = a\<lparr>inputBuffer := (inputBuffer a)[nat (position_of L i) := Some i]\<rparr>"

lemma AddResponse_rejected:
  assumes "AddResponse L anchors vf a (in_zone i) (in_msg i) = Some (a', e)" "\<not> accepted L (a_question a) i"
  shows "a' = a"
  using assms by (auto simp: AddResponse_def accepted_def split: if_splits Option.bind_splits)

lemma input_eta [simp]: "\<lparr>in_zone = in_zone i, in_msg = in_msg i\<rparr> = i"
  by simp

lemma AddResponse_accepted:
  assumes "accepted L (a_question a) i"
  shows "AddResponse L anchors vf a (in_zone i) (in_msg i) =
    (case at (inputBuffer a) (position_of L i) of
       None \<Rightarrow> None
     | Some (Some _) \<Rightarrow> Some (a, Some (Errorf [DErr ErrDuplicateInputForZone]))
     | Some None \<Rightarrow> drain L anchors vf (store L a i) (drop (inputBufferIdx a) (inputBuffer (store L a i))))"
  using assms
  by (auto simp: AddResponse_def accepted_def position_of_def store_def Let_def split: option.splits)

lemma drain_frame:
  assumes "drain L anchors vf a xs = Some (a', e)"
  shows "a_question a' = a_question a \<and> inputBuffer a' = inputBuffer a"
  using assms
proof (induction xs arbitrary: a)
  case (Cons x xs)
  from Cons.prems show ?case
    by (cases rule: drain_Cons_cases) (use Cons.IH in \<open>auto dest!: processResponse_frame\<close>)
qed simp

lemma settled_NewAuth: "settled L anchors vf (NewAuth L q)"
proof -
  have "drain L anchors vf a (replicate n None) = Some (a, None)" for a n by (cases n) simp_all
  then show ?thesis by (simp add: settled_def NewAuth_def restart_def)
qed

text \<open>The entries before the index of a settled state are filled.\<close>

lemma settled_index:
  assumes "settled L anchors vf a"
  shows "inputBufferIdx a \<le> length (inputBuffer a)"
    and "None \<notin> set (take (inputBufferIdx a) (inputBuffer a))"
    and "drain L anchors vf (restart a) (take (inputBufferIdx a) (inputBuffer a)) = Some (a, None)"
proof -
  from assms obtain e where "drain L anchors vf (restart a) (inputBuffer a) = Some (a, e)"
    by (auto simp: settled_def)
  from drain_prefix [OF this] obtain k where "k \<le> length (inputBuffer a)" "inputBufferIdx a = k"
    "None \<notin> set (take k (inputBuffer a))"
    "drain L anchors vf (restart a) (take k (inputBuffer a)) = Some (a, None)"
    by (auto simp: restart_def)
  then show "inputBufferIdx a \<le> length (inputBuffer a)"
    and "None \<notin> set (take (inputBufferIdx a) (inputBuffer a))"
    and "drain L anchors vf (restart a) (take (inputBufferIdx a) (inputBuffer a)) = Some (a, None)"
    by blast+
qed

text \<open>Storing a response and draining from the index is draining the new buffer from the start.\<close>

lemma drain_store:
  assumes a: "settled L anchors vf a" and free: "at (inputBuffer a) (position_of L i) = Some None"
  shows "drain L anchors vf (store L a i) (drop (inputBufferIdx a) (inputBuffer (store L a i)))
    = drain L anchors vf (restart (store L a i)) (inputBuffer (store L a i))"
proof -
  let ?k = "inputBufferIdx a" and ?b = "inputBuffer (store L a i)"
  from free have p: "nat (position_of L i) < length (inputBuffer a)"
    "inputBuffer a ! nat (position_of L i) = None" by (auto simp: at_Some_iff)
  have "?k \<le> nat (position_of L i)"
  proof (rule ccontr)
    assume "\<not> ?k \<le> nat (position_of L i)"
    with p settled_index(1) [OF a] have "None \<in> set (take ?k (inputBuffer a))"
      by (auto simp: in_set_conv_nth intro!: exI [of _ "nat (position_of L i)"])
    with settled_index(2) [OF a] show False ..
  qed
  then have take: "take ?k ?b = take ?k (inputBuffer a)" by (simp add: store_def)
  have "restart (store L a i) = (restart a)\<lparr>inputBuffer := ?b\<rparr>" by (simp add: restart_def store_def)
  with settled_index(3) [OF a] take
  have "drain L anchors vf (restart (store L a i)) (take ?k ?b) = Some (a\<lparr>inputBuffer := ?b\<rparr>, None)"
    by (simp add: drain_buffer)
  from drain_append [OF this, of "drop ?k ?b"] settled_index(2) [OF a] take
  show ?thesis by (simp add: store_def)
qed

text \<open>What one call does to a settled state: the buffer alone decides.\<close>

lemma AddResponse_settled:
  assumes a: "settled L anchors vf a"
    and add: "AddResponse L anchors vf a (in_zone i) (in_msg i) = Some (a', e)"
  obtains (same) "a' = a" "accepted L (a_question a) i \<Longrightarrow> \<exists>j. at (inputBuffer a) (position_of L i) = Some (Some j)"
    | (stored) "accepted L (a_question a) i" "at (inputBuffer a) (position_of L i) = Some None"
        "settled L anchors vf a'" "a_question a' = a_question a" "inputBuffer a' = inputBuffer (store L a i)"
proof (cases "accepted L (a_question a) i \<and> at (inputBuffer a) (position_of L i) = Some None")
  case True
  with add have "drain L anchors vf (store L a i) (drop (inputBufferIdx a) (inputBuffer (store L a i))) = Some (a', e)"
    by (simp add: AddResponse_accepted)
  with drain_store [OF a] True
  have d: "drain L anchors vf (restart (store L a i)) (inputBuffer (store L a i)) = Some (a', e)" by simp
  from drain_frame [OF this] have f: "a_question a' = a_question a" "inputBuffer a' = inputBuffer (store L a i)"
    by (simp_all add: restart_def store_def)
  have "restart (store L a i) = (restart a)\<lparr>inputBuffer := inputBuffer a'\<rparr>"
    by (simp add: f restart_def) (simp add: store_def)
  also have "\<dots> = restart a'" using f by (simp add: restart_def)
  finally have "settled L anchors vf a'" using d f by (auto simp: settled_def)
  with True f stored show ?thesis by blast
next
  case False
  show ?thesis
  proof (cases "accepted L (a_question a) i")
    case True
    with False add have "a' = a" "\<exists>j. at (inputBuffer a) (position_of L i) = Some (Some j)"
      by (auto simp: AddResponse_accepted split: option.splits)
    with same show ?thesis by blast
  next
    case False
    with AddResponse_rejected [OF add] same show ?thesis by blast
  qed
qed

lemma AddResponse_panic:
  assumes a: "settled L anchors vf a"
    and none: "AddResponse L anchors vf a (in_zone i) (in_msg i) = None"
  shows "IsSubDomain L (z_Name (in_zone i)) (qName (a_question a)) \<and> mQuestion (in_msg i) = [] \<or>
    accepted L (a_question a) i \<and> (at (inputBuffer a) (position_of L i) = None \<or>
      drain L anchors vf (restart (store L a i)) (inputBuffer (store L a i)) = None)"
proof (cases "accepted L (a_question a) i")
  case True
  with none drain_store [OF a, of i] show ?thesis
    by (auto simp: AddResponse_accepted split: option.splits)
next
  case False
  with none show ?thesis
    by (auto simp: AddResponse_def accepted_def at_None_iff split: if_splits Option.bind_splits)
qed

text \<open>
  The buffer after a sequence of calls with distinct positions: an entry is one that was there, or
  one of the accepted responses at its position.
\<close>

definition holds_at :: "dnslib \<Rightarrow> Question \<Rightarrow> input list \<Rightarrow> nat \<Rightarrow> input \<Rightarrow> bool" where
  "holds_at L q is p i \<longleftrightarrow> i \<in> set is \<and> accepted L q i \<and> position_of L i = int p"

lemma add_all_settled:
  assumes "settled L anchors vf a" "add_all L anchors vf a xs = Some a'"
    and "distinct (map (position_of L) xs)"
    and "\<And>x. x \<in> set xs \<Longrightarrow> accepted L (a_question a) x \<Longrightarrow> \<nexists>j. at (inputBuffer a) (position_of L x) = Some (Some j)"
  shows "settled L anchors vf a' \<and> a_question a' = a_question a \<and>
    length (inputBuffer a') = length (inputBuffer a) \<and>
    (\<forall>p < length (inputBuffer a). \<forall>i. inputBuffer a' ! p = Some i \<longleftrightarrow>
       inputBuffer a ! p = Some i \<or> holds_at L (a_question a) xs p i)"
  using assms
proof (induction xs arbitrary: a)
  case Nil
  then show ?case by (simp add: holds_at_def)
next
  case (Cons x xs)
  from Cons.prems(2) obtain a1 e where add: "AddResponse L anchors vf a (in_zone x) (in_msg x) = Some (a1, e)"
    and rest: "add_all L anchors vf a1 xs = Some a'" by (auto split: Option.bind_splits)
  from Cons.prems(1) add show ?case
  proof (cases rule: AddResponse_settled)
    case same
    with Cons.prems(4) have "\<not> accepted L (a_question a) x" by auto
    with same Cons.IH [OF _ rest] Cons.prems show ?thesis by (auto simp: holds_at_def)
  next
    case stored
    have "\<nexists>j. at (inputBuffer a1) (position_of L y) = Some (Some j)" 
      if "y \<in> set xs" "accepted L (a_question a1) y" for y
    proof -
      from that Cons.prems(3) have "position_of L y \<noteq> position_of L x"
        by (metis distinct.simps(2) imageI list.simps(9) set_map)
      with stored that Cons.prems(4) [of y] show ?thesis
        by (auto simp: at_def store_def nth_list_update split: if_splits)
    qed
    with Cons.IH [OF stored(3) rest] Cons.prems(3)
    have "settled L anchors vf a' \<and> a_question a' = a_question a1 \<and>
      length (inputBuffer a') = length (inputBuffer a1) \<and>
      (\<forall>p < length (inputBuffer a1). \<forall>i. inputBuffer a' ! p = Some i \<longleftrightarrow>
         inputBuffer a1 ! p = Some i \<or> holds_at L (a_question a1) xs p i)"
      by auto
    with stored show ?thesis
      by (auto simp: holds_at_def store_def at_Some_iff nth_list_update split: if_splits)
  qed
qed

lemma settled_unique:
  assumes "settled L anchors vf a" "settled L anchors vf a'"
    and "a_question a = a_question a'" "inputBuffer a = inputBuffer a'"
  shows "a = a'"
proof -
  have "restart a = restart a'" using assms(3,4) by (simp add: restart_def)
  moreover from assms(1) obtain e where "drain L anchors vf (restart a) (inputBuffer a) = Some (a, e)"
    by (auto simp: settled_def)
  moreover from assms(2) obtain e' where "drain L anchors vf (restart a') (inputBuffer a') = Some (a', e')"
    by (auto simp: settled_def)
  ultimately show ?thesis using assms(4) by (metis option.inject prod.inject)
qed

lemma buffer_eqI:
  assumes "length xs = length ys" "\<And>p i. p < length xs \<Longrightarrow> xs ! p = Some i \<longleftrightarrow> ys ! p = Some i"
  shows "xs = ys"
proof (rule nth_equalityI)
  show "length xs = length ys" by (rule assms(1))
  show "xs ! p = ys ! p" if "p < length xs" for p
    by (rule option.exhaust [of "xs ! p"]; rule option.exhaust [of "ys ! p"])
      (use assms(2) [OF that] in auto)
qed

lemma NewAuth_buffer [simp]:
  "a_question (NewAuth L q) = q" "p < length (inputBuffer (NewAuth L q)) \<Longrightarrow> inputBuffer (NewAuth L q) ! p = None"
  by (simp_all add: NewAuth_def)

lemma NewAuth_at [simp]: "at (inputBuffer (NewAuth L q)) p \<noteq> Some (Some j)"
  by (auto simp: at_Some_iff)

text \<open>From a new authenticator: the buffer holds the accepted responses.\<close>

lemma add_all_new:
  assumes "add_all L anchors vf (NewAuth L q) xs = Some a" "distinct (map (position_of L) xs)"
  shows "settled L anchors vf a" and "a_question a = q"
    and "length (inputBuffer a) = length (inputBuffer (NewAuth L q))"
    and "\<And>p i. p < length (inputBuffer a) \<Longrightarrow> inputBuffer a ! p = Some i \<longleftrightarrow> holds_at L q xs p i"
  using add_all_settled [OF settled_NewAuth assms] by simp_all

text \<open>What a call needs so that it does not panic before it drains the buffer.\<close>

lemma AddResponse_defined_needs:
  assumes "AddResponse L anchors vf a (in_zone i) (in_msg i) = Some (a', e)"
  shows "IsSubDomain L (z_Name (in_zone i)) (qName (a_question a)) \<Longrightarrow> mQuestion (in_msg i) \<noteq> []"
    and "accepted L (a_question a) i \<Longrightarrow> at (inputBuffer a) (position_of L i) \<noteq> None"
proof -
  show "mQuestion (in_msg i) \<noteq> []" if "IsSubDomain L (z_Name (in_zone i)) (qName (a_question a))"
    using assms that by (auto simp: AddResponse_def)
  show "at (inputBuffer a) (position_of L i) \<noteq> None" if "accepted L (a_question a) i"
    using assms that by (auto simp: AddResponse_accepted split: option.splits)
qed

lemma add_all_defined_needs:
  assumes "settled L anchors vf a" "add_all L anchors vf a xs = Some a'" "x \<in> set xs"
  shows "(IsSubDomain L (z_Name (in_zone x)) (qName (a_question a)) \<longrightarrow> mQuestion (in_msg x) \<noteq> []) \<and>
    (accepted L (a_question a) x \<longrightarrow> 0 \<le> position_of L x \<and> position_of L x < int (length (inputBuffer a)))"
  using assms
proof (induction xs arbitrary: a)
  case (Cons y xs)
  from Cons.prems(2) obtain a1 e where add: "AddResponse L anchors vf a (in_zone y) (in_msg y) = Some (a1, e)"
    and rest: "add_all L anchors vf a1 xs = Some a'" by (auto split: Option.bind_splits)
  from AddResponse_settled [OF Cons.prems(1) add]
  have "settled L anchors vf a1 \<and> a_question a1 = a_question a \<and> length (inputBuffer a1) = length (inputBuffer a)"
    by cases (use Cons.prems(1) in \<open>auto simp: store_def\<close>)
  with Cons.IH [OF _ rest] AddResponse_defined_needs [OF add] Cons.prems(3) show ?case
    by (auto simp: at_None_iff linorder_not_le)
qed simp

text \<open>The buffer after some of the responses, and one more, has fewer entries than after all of them.\<close>

lemma store_fewer:
  assumes xs: "add_all L anchors vf (NewAuth L q) xs = Some a"
    and dist: "distinct (map (position_of L) xs)" and sub: "set (ys @ [y]) \<subseteq> set xs"
    and disty: "distinct (map (position_of L) (ys @ [y]))"
    and ys: "add_all L anchors vf (NewAuth L q) ys = Some b" and acc: "accepted L q y"
  shows "fewer (inputBuffer (store L b y)) (inputBuffer a)"
    and "restart a = (restart (store L b y))\<lparr>inputBuffer := inputBuffer a\<rparr>"
proof -
  note a = add_all_new [OF xs dist]
  have "distinct (map (position_of L) ys)" using disty by simp
  note b = add_all_new [OF ys this]
  have y: "y \<in> set xs" using sub by simp
  note needs = add_all_defined_needs [OF settled_NewAuth xs y]
  show "restart a = (restart (store L b y))\<lparr>inputBuffer := inputBuffer a\<rparr>"
    using a(2) b(2) by (simp add: restart_def store_def)
  show "fewer (inputBuffer (store L b y)) (inputBuffer a)"
    unfolding fewer_def list_all2_conv_all_nth
  proof (intro conjI allI impI)
    show "length (inputBuffer (store L b y)) = length (inputBuffer a)" using a(3) b(3) by (simp add: store_def)
  next
    fix p assume p: "p < length (inputBuffer (store L b y))"
    show "inputBuffer (store L b y) ! p = None \<or> inputBuffer (store L b y) ! p = inputBuffer a ! p"
    proof (cases "inputBuffer (store L b y) ! p")
      case (Some i)
      have "holds_at L q (ys @ [y]) p i"
      proof (cases "p = nat (position_of L y)")
        case True
        with Some p acc needs show ?thesis by (auto simp: store_def holds_at_def)
      next
        case False
        with Some p b(4) [of p i] show ?thesis by (auto simp: store_def holds_at_def)
      qed
      then have "holds_at L q xs p i" using sub by (auto simp: holds_at_def)
      with a(3,4) b(3) p have "inputBuffer a ! p = Some i" by (simp add: store_def)
      with Some show ?thesis by simp
    qed simp
  qed
qed

text \<open>The inputs of a subsequence leave a buffer with fewer entries, so they drain as well.\<close>

lemma add_all_next_defined:
  assumes xs: "add_all L anchors vf (NewAuth L q) xs = Some a"
    and dist: "distinct (map (position_of L) xs)" and sub: "set (ys @ [y]) \<subseteq> set xs"
    and disty: "distinct (map (position_of L) (ys @ [y]))"
    and ys: "add_all L anchors vf (NewAuth L q) ys = Some b"
  shows "AddResponse L anchors vf b (in_zone y) (in_msg y) \<noteq> None"
proof
  assume none: "AddResponse L anchors vf b (in_zone y) (in_msg y) = None"
  have "distinct (map (position_of L) ys)" using disty by simp
  note a = add_all_new [OF xs dist] and b = add_all_new [OF ys this]
  have y: "y \<in> set xs" using sub by simp
  note needs = add_all_defined_needs [OF settled_NewAuth xs y]
  from AddResponse_panic [OF b(1) none] needs b(2,3) have acc: "accepted L q y"
    and d: "drain L anchors vf (restart (store L b y)) (inputBuffer (store L b y)) = None"
    by (auto simp: at_def)
  note f = store_fewer [OF xs dist sub disty ys acc]
  have "drain L anchors vf (restart (store L b y)) (inputBuffer a) \<noteq> None"
    using a(1) f(2) by (auto simp: settled_def drain_buffer)
  with f(1) drain_fewer d show False by blast
qed

lemma add_all_snoc:
  "add_all L anchors vf a (xs @ [x]) = do {
     b \<leftarrow> add_all L anchors vf a xs;
     map_option fst (AddResponse L anchors vf b (in_zone x) (in_msg x)) }"
  by (induction xs arbitrary: a) (auto simp: map_option_case split: Option.bind_splits option.splits)

lemma add_all_subset_defined:
  assumes xs: "add_all L anchors vf (NewAuth L q) xs = Some a" and dist: "distinct (map (position_of L) xs)"
  shows "set ys \<subseteq> set xs \<Longrightarrow> distinct (map (position_of L) ys) \<Longrightarrow>
    add_all L anchors vf (NewAuth L q) ys \<noteq> None"
proof (induction ys rule: rev_induct)
  case (snoc y ys)
  then obtain b where b: "add_all L anchors vf (NewAuth L q) ys = Some b" by auto
  from add_all_next_defined [OF xs dist snoc.prems b] b show ?case
    by (simp add: add_all_snoc)
qed simp

lemma add_all_perm:
  assumes xs: "add_all L anchors vf (NewAuth L q) xs = Some a" and dist: "distinct (map (position_of L) xs)"
    and perm: "mset ys = mset xs"
  shows "add_all L anchors vf (NewAuth L q) ys = Some a"
proof -
  from perm have set: "set ys = set xs" by (metis set_mset_mset)
  from perm dist have disty: "distinct (map (position_of L) ys)"
    by (metis mset_eq_imp_distinct_iff mset_map)
  from add_all_subset_defined [OF xs dist, of ys] set disty obtain b
    where b: "add_all L anchors vf (NewAuth L q) ys = Some b" by auto
  note a = add_all_new [OF xs dist] and b' = add_all_new [OF b disty]
  have "inputBuffer b = inputBuffer a"
    by (rule buffer_eqI) (use a(3,4) b'(3,4) set in \<open>auto simp: holds_at_def\<close>)
  with settled_unique [OF b'(1) a(1)] a(2) b'(2) b show ?thesis by simp
qed

text \<open>
  The same for calls without an error. An error of a call is about the response itself, or about a
  chain of responses that is still there when later ones arrive.
\<close>

fun add_clean ::
  "dnslib \<Rightarrow> DS list \<Rightarrow> verify_fun \<Rightarrow> Authenticator \<Rightarrow> input list \<Rightarrow> Authenticator option" where
  "add_clean L anchors vf a [] = Some a"
| "add_clean L anchors vf a (i # rest) =
     (case AddResponse L anchors vf a (in_zone i) (in_msg i) of
        Some (a1, None) \<Rightarrow> add_clean L anchors vf a1 rest
      | _ \<Rightarrow> None)"

lemma add_clean_all: "add_clean L anchors vf a xs = Some a' \<Longrightarrow> add_all L anchors vf a xs = Some a'"
  by (induction xs arbitrary: a) (auto split: option.splits)

lemma add_clean_snoc:
  "add_clean L anchors vf a (xs @ [x]) = (case add_clean L anchors vf a xs of
     None \<Rightarrow> None
   | Some b \<Rightarrow> (case AddResponse L anchors vf b (in_zone x) (in_msg x) of Some (b1, None) \<Rightarrow> Some b1 | _ \<Rightarrow> None))"
  by (induction xs arbitrary: a) (auto split: option.splits)

lemma drain_fewer_clean:
  "fewer xs ys \<Longrightarrow> drain L anchors vf a ys = Some (a', None) \<Longrightarrow> drain L anchors vf a xs = Some (a'', e) \<Longrightarrow> e = None"
  unfolding fewer_def
proof (induction arbitrary: a rule: list_all2_induct)
  case (Cons x xs y ys)
  from Cons.prems(2) show ?case
  proof (cases rule: drain_Cons_cases)
    case (failed i err)
    with Cons.hyps Cons.prems(1) show ?thesis by (auto split: Option.bind_splits)
  next
    case (ok i a1)
    with Cons.hyps(1) Cons.prems(1) have "drain L anchors vf (a1\<lparr>inputBufferIdx := Suc (inputBufferIdx a1)\<rparr>) ys = Some (a', None)" by auto
    from Cons.IH [OF this ok(3)] show ?thesis .
  qed
qed simp

lemma AddResponse_clean:
  assumes "settled L anchors vf a" "AddResponse L anchors vf a (in_zone i) (in_msg i) = Some (a', None)"
  shows "accepted L (a_question a) i" "drain L anchors vf (restart a') (inputBuffer a') = Some (a', None)"
proof -
  show acc: "accepted L (a_question a) i"
    using assms(2) by (auto simp: AddResponse_def accepted_def split: if_splits Option.bind_splits)
  with assms(2) have free: "at (inputBuffer a) (position_of L i) = Some None"
    by (auto simp: AddResponse_accepted split: option.splits)
  with acc assms(2) drain_store [OF assms(1)] have d: "drain L anchors vf (restart (store L a i)) (inputBuffer (store L a i)) = Some (a', None)"
    by (simp add: AddResponse_accepted)
  from drain_frame [OF this] have "restart a' = restart (store L a i)" "inputBuffer a' = inputBuffer (store L a i)"
    by (simp_all add: restart_def)
  with d show "drain L anchors vf (restart a') (inputBuffer a') = Some (a', None)" by simp
qed

lemma add_clean_new:
  assumes "add_clean L anchors vf (NewAuth L q) xs = Some a" "distinct (map (position_of L) xs)"
  shows "(\<forall>x \<in> set xs. accepted L q x) \<and> drain L anchors vf (restart a) (inputBuffer a) = Some (a, None)"
  using assms
proof (induction xs arbitrary: a rule: rev_induct)
  case Nil
  have "drain L anchors vf b (replicate n None) = Some (b, None)" for b n by (cases n) simp_all
  with Nil show ?case by (auto simp: NewAuth_def restart_def)
next
  case (snoc x xs)
  then obtain b where b: "add_clean L anchors vf (NewAuth L q) xs = Some b" "AddResponse L anchors vf b (in_zone x) (in_msg x) = Some (a, None)"
    by (auto simp: add_clean_snoc split: option.splits)
  from snoc.prems(2) have "distinct (map (position_of L) xs)" by simp
  note new = add_all_new [OF add_clean_all [OF b(1)] this] and IH = snoc.IH [OF b(1) this]
  from AddResponse_clean [OF new(1) b(2)] new(2) IH show ?case by simp
qed

lemma add_clean_subset:
  assumes xs: "add_clean L anchors vf (NewAuth L q) xs = Some a" and dist: "distinct (map (position_of L) xs)"
  shows "set ys \<subseteq> set xs \<Longrightarrow> distinct (map (position_of L) ys) \<Longrightarrow> add_clean L anchors vf (NewAuth L q) ys \<noteq> None"
proof (induction ys rule: rev_induct)
  case (snoc y ys)
  note all = add_clean_all [OF xs]
  from snoc obtain b where b: "add_clean L anchors vf (NewAuth L q) ys = Some b" by auto
  note ally = add_clean_all [OF b]
  from snoc.prems(2) have disty: "distinct (map (position_of L) ys)" by simp
  note new = add_all_new [OF ally disty]
  from add_clean_new [OF xs dist] snoc.prems(1) have acc: "accepted L q y"
    and d: "drain L anchors vf (restart a) (inputBuffer a) = Some (a, None)" by auto
  from add_all_next_defined [OF all dist snoc.prems ally] obtain b' e
    where add: "AddResponse L anchors vf b (in_zone y) (in_msg y) = Some (b', e)" by auto
  have free: "at (inputBuffer b) (position_of L y) = Some None"
  proof -
    from add acc new(2) obtain v where v: "at (inputBuffer b) (position_of L y) = Some v"
      by (auto simp: AddResponse_accepted split: option.splits)
    have "v \<noteq> Some j" for j
      using v new(4) [of "nat (position_of L y)" j] snoc.prems(2) by (auto simp: at_Some_iff holds_at_def image_iff nat_less_iff)
    with v show ?thesis by (cases v) auto
  qed
  from add acc new(2) free drain_store [OF new(1) free]
  have "drain L anchors vf (restart (store L b y)) (inputBuffer (store L b y)) = Some (b', e)"
    by (simp add: AddResponse_accepted)
  moreover note f = store_fewer [OF all dist snoc.prems ally acc]
  from d f(2) have "\<exists>a'. drain L anchors vf (restart (store L b y)) (inputBuffer a) = Some (a', None)"
    by (auto simp: drain_buffer)
  ultimately have "e = None" using drain_fewer_clean [OF f(1)] by blast
  with b add show ?case by (simp add: add_clean_snoc)
qed simp

lemma add_clean_perm:
  assumes xs: "add_clean L anchors vf (NewAuth L q) xs = Some a" and dist: "distinct (map (position_of L) xs)"
    and perm: "mset ys = mset xs"
  shows "add_clean L anchors vf (NewAuth L q) ys = Some a"
proof -
  from perm have "set ys = set xs" "distinct (map (position_of L) ys)"
    using dist by (metis set_mset_mset) (metis dist mset_eq_imp_distinct_iff mset_map perm)
  with add_clean_subset [OF xs dist, of ys] obtain b where b: "add_clean L anchors vf (NewAuth L q) ys = Some b" by auto
  from add_clean_all [OF b] add_all_perm [OF add_clean_all [OF xs] dist perm] b show ?thesis by simp
qed

text \<open>
  C17: responses can be added in any order. Where the responses have distinct positions, that is,
  are for zones with different numbers of labels, every order in which they can be added to a new
  authenticator leaves it in the same state, with no panic in one order that another does not have:
  the same results, verified in the same sequence from the root down, whatever the arrival order.
  And when in one order no call returns an error, none does in any other.
\<close>

theorem responses_in_any_order:
  assumes "add_all L anchors vf (NewAuth L q) xs = Some a" "distinct (map (position_of L) xs)"
    and "mset ys = mset xs"
  shows "add_all L anchors vf (NewAuth L q) ys = Some a \<and>
    (add_clean L anchors vf (NewAuth L q) xs \<noteq> None \<longrightarrow> add_clean L anchors vf (NewAuth L q) ys = Some a)"
  using add_all_perm [OF assms] add_clean_perm [OF _ assms(2,3)] add_clean_all assms(1) by fastforce

section \<open>Reachable states\<close>

text \<open>The states that the two operations of the package lead to, in any sequence of calls. The calls may
  verify differently, each in one of the ways of \<open>V\<close>: with the clock at the time of the call.\<close>

inductive auth_reachable :: "dnslib \<Rightarrow> DS list \<Rightarrow> verify_fun set \<Rightarrow> Question \<Rightarrow> Authenticator \<Rightarrow> bool"
  for L anchors V q where
  new: "auth_reachable L anchors V q (NewAuth L q)"
| add: "auth_reachable L anchors V q a \<Longrightarrow> vf \<in> V \<Longrightarrow> AddResponse L anchors vf a zone msg = Some (a', e) \<Longrightarrow>
    auth_reachable L anchors V q a'"
| result: "auth_reachable L anchors V q a \<Longrightarrow> vf \<in> V \<Longrightarrow> Result L anchors vf a = Some (a', v) \<Longrightarrow>
    auth_reachable L anchors V q a'"

text \<open>
  One link of the chain: the outcome is what verifying the response of its zone with the DS
  records \<open>ds\<close> gave, and the zone lies strictly below the zone \<open>parent\<close>.
\<close>

definition verified_with :: "verify_fun \<Rightarrow> DS list \<Rightarrow> result \<Rightarrow> bool" where
  "verified_with vf ds r \<longleftrightarrow> (\<exists>r0 st err. vf (rs_zone r) (rs_msg r) ds = Some (r0, st, err) \<and>
     r = r0\<lparr>rs_err := (case err of None \<Rightarrow> rs_err r0 | Some e \<Rightarrow> Some e),
            rs_state := (if st = Unknown then Bogus else st)\<rparr>)"

definition verified_by :: "verify_fun set \<Rightarrow> DS list \<Rightarrow> result \<Rightarrow> bool" where
  "verified_by V ds r \<longleftrightarrow> (\<exists>vf \<in> V. verified_with vf ds r)"

definition below :: "dnslib \<Rightarrow> string option \<Rightarrow> result \<Rightarrow> bool" where
  "below L parent r \<longleftrightarrow> (case parent of None \<Rightarrow> True
     | Some n \<Rightarrow> IsSubDomain L n (z_Name (rs_zone r)) \<and> \<not> namesEqual L n (z_Name (rs_zone r)))"

fun trust_chain :: "dnslib \<Rightarrow> verify_fun set \<Rightarrow> DS list \<Rightarrow> string option \<Rightarrow> result list \<Rightarrow> bool" where
  "trust_chain L V ds parent [] \<longleftrightarrow> True"
| "trust_chain L V ds parent (r # rs) \<longleftrightarrow> verified_by V ds r \<and> below L parent r \<and>
     trust_chain L V (rs_dsRecords r) (Some (z_Name (rs_zone r))) rs"

lemma trust_chain_snoc:
  "trust_chain L V ds parent (rs @ [r]) \<longleftrightarrow> trust_chain L V ds parent rs \<and>
     verified_by V (if rs = [] then ds else rs_dsRecords (last rs)) r \<and>
     below L (if rs = [] then parent else Some (z_Name (rs_zone (last rs)))) r"
  by (induction rs arbitrary: ds parent) auto

definition auth_inv :: "dnslib \<Rightarrow> DS list \<Rightarrow> verify_fun set \<Rightarrow> Question \<Rightarrow> Authenticator \<Rightarrow> bool" where
  "auth_inv L anchors V q a \<longleftrightarrow> a_question a = q \<and>
     length (inputBuffer a) = nat (CountLabel L (qName q) + 1) \<and>
     trust_chain L V anchors None (a_results a)"

text \<open>What the chain relies on in the verification of one response: it keeps zone and message.\<close>

locale response_verifier =
  fixes V :: "verify_fun set"
  assumes keeps_source: "vf \<in> V \<Longrightarrow> vf zone msg ds = Some (r, st, err) \<Longrightarrow> rs_zone r = zone \<and> rs_msg r = msg"
begin

lemma process_chain:
  assumes "process L anchors vf q rs i = Some (rs', e)" and vf: "vf \<in> V" and chain: "trust_chain L V anchors None rs"
  shows "trust_chain L V anchors None rs'"
proof (cases e)
  case (Some err)
  with assms(1) chain process_error_same show ?thesis by blast
next
  case None
  let ?ds = "if rs = [] then anchors else rs_dsRecords (last rs)"
  from assms(1) None have ce: "chain_error L rs (in_zone i) = None"
    by (simp add: process_def Let_def split: option.splits)
  with assms(1) None have se: "signer_error L q (in_msg i) ?ds = None"
    by (simp add: process_def Let_def split: option.splits split del: if_split)
  from assms(1) None ce se obtain r0 st err where v: "vf (in_zone i) (in_msg i) ?ds = Some (r0, st, err)"
    and rs': "rs' = rs @ [(case err of None \<Rightarrow> r0 | Some e \<Rightarrow> r0\<lparr>rs_err := Some e\<rparr>)\<lparr>rs_state := if st = Unknown then Bogus else st\<rparr>]"
    by (simp add: process_def Let_def Option.bind_eq_Some_conv del: if_split) (elim exE conjE, simp)
  let ?r = "(case err of None \<Rightarrow> r0 | Some e \<Rightarrow> r0\<lparr>rs_err := Some e\<rparr>)\<lparr>rs_state := if st = Unknown then Bogus else st\<rparr>"
  have src: "rs_zone ?r = in_zone i" "rs_msg ?r = in_msg i"
    using keeps_source [OF vf v] by (simp_all split: option.splits)
  have "verified_with vf ?ds ?r"
    unfolding verified_with_def src using v by (intro exI conjI) (auto split: option.splits)
  with vf have "verified_by V ?ds ?r" unfolding verified_by_def by blast
  moreover have "below L (if rs = [] then None else Some (z_Name (rs_zone (last rs)))) ?r"
    unfolding below_def src using ce by (auto simp: chain_error_def Let_def split: if_splits)
  ultimately show ?thesis unfolding rs' trust_chain_snoc using chain by simp
qed

lemma processResponse_inv:
  "processResponse L anchors vf a zone msg = Some (a', e) \<Longrightarrow> vf \<in> V \<Longrightarrow> auth_inv L anchors V q a \<Longrightarrow>
     auth_inv L anchors V q a'"
  by (auto simp: processResponse_def auth_inv_def dest: process_chain split: Option.bind_splits)

lemma inv_idx [simp]: "auth_inv L anchors V q (a\<lparr>inputBufferIdx := n\<rparr>) = auth_inv L anchors V q a"
  by (simp add: auth_inv_def)

lemma drain_inv:
  "drain L anchors vf a xs = Some (a', e) \<Longrightarrow> vf \<in> V \<Longrightarrow> auth_inv L anchors V q a \<Longrightarrow> auth_inv L anchors V q a'"
proof (induction xs arbitrary: a)
  case (Cons x xs)
  from Cons.prems(1) show ?case
    by (cases rule: drain_Cons_cases) (use Cons in \<open>auto dest: processResponse_inv\<close>)
qed simp

lemma drain_all_inv:
  "drain_all L anchors vf a xs = Some (a', e) \<Longrightarrow> vf \<in> V \<Longrightarrow> auth_inv L anchors V q a \<Longrightarrow> auth_inv L anchors V q a'"
proof (induction xs arbitrary: a)
  case (Cons x xs)
  then show ?case
    by (cases x) (auto dest: processResponse_inv split: Option.bind_splits option.splits)
qed simp

lemma AddResponse_inv:
  assumes "AddResponse L anchors vf a zone msg = Some (a', e)" and vf: "vf \<in> V" and i: "auth_inv L anchors V q a"
  shows "auth_inv L anchors V q a'"
proof -
  have inv: "auth_inv L anchors V q (a\<lparr>inputBuffer := (inputBuffer a)[n := x]\<rparr>)" for n x
    using i by (simp add: auth_inv_def)
  from assms show ?thesis
    by (auto simp: AddResponse_def Let_def intro: drain_inv [OF _ vf inv]
        split: if_splits Option.bind_splits option.splits)
qed

lemma Result_inv:
  "Result L anchors vf a = Some (a', v) \<Longrightarrow> vf \<in> V \<Longrightarrow> auth_inv L anchors V q a \<Longrightarrow> auth_inv L anchors V q a'"
  by (auto simp: Result_def dest: drain_all_inv split: Option.bind_splits option.splits)

lemma reachable_inv: "auth_reachable L anchors V q a \<Longrightarrow> auth_inv L anchors V q a"
proof (induction rule: auth_reachable.induct)
  case new
  then show ?case by (simp add: auth_inv_def NewAuth_def)
qed (auto dest: AddResponse_inv Result_inv)

end

interpretation verifier: response_verifier "range (verify L cfg)" for L cfg
  by unfold_locales (auto dest: verify_status_facts)

section \<open>What a verdict means\<close>

lemma chain_loop_None: "chain_loop L prev rs = Some None \<longleftrightarrow> (\<forall>r \<in> set rs. rs_state r = Secure)"
  by (induction rs arbitrary: prev) (auto split: option.splits Option.bind_splits)

text \<open>The loop ends at the first result that is not Secure.\<close>

lemma chain_loop_Some:
  "chain_loop L prev rs = Some (Some (st, doe, err)) \<Longrightarrow>
     \<exists>us r vs. rs = us @ r # vs \<and> (\<forall>u \<in> set us. rs_state u = Secure) \<and> rs_state r \<noteq> Secure \<and>
       err = rs_err r \<and>
       (case (if us = [] then prev else Some (last us)) of
          None \<Rightarrow> st = rs_state r \<and> doe = rs_doe r
        | Some p \<Rightarrow> doe = rs_doe p \<and> st \<noteq> Secure \<and>
            (st = Insecure \<longrightarrow> doe \<in> {Nsec3OptOut, NsecMissingDS, Nsec3MissingDS}
              \<or> doe \<in> {NsecNoData, Nsec3NoData} \<and> (\<exists>pq. at (mQuestion (rs_msg p)) 0 = Some pq \<and>
                 qQtype pq = TypeDS \<and> CanonicalName L (qName pq) = CanonicalName L (z_Name (rs_zone r)))))"
proof (induction rs arbitrary: prev)
  case (Cons r rs)
  show ?case
  proof (cases "rs_state r = Secure")
    case True
    with Cons.prems Cons.IH [of "Some r"] obtain us s vs where
      "rs = us @ s # vs \<and> (\<forall>u \<in> set us. rs_state u = Secure) \<and> rs_state s \<noteq> Secure \<and> err = rs_err s \<and>
       (case (if us = [] then Some r else Some (last us)) of
          None \<Rightarrow> st = rs_state s \<and> doe = rs_doe s
        | Some p \<Rightarrow> doe = rs_doe p \<and> st \<noteq> Secure \<and>
            (st = Insecure \<longrightarrow> doe \<in> {Nsec3OptOut, NsecMissingDS, Nsec3MissingDS}
              \<or> doe \<in> {NsecNoData, Nsec3NoData} \<and> (\<exists>pq. at (mQuestion (rs_msg p)) 0 = Some pq \<and>
                 qQtype pq = TypeDS \<and> CanonicalName L (qName pq) = CanonicalName L (z_Name (rs_zone s)))))"
      by auto
    with True show ?thesis
      by (intro exI [of _ "r # us"] exI [of _ s] exI [of _ vs]) (auto split: if_splits)
  next
    case False
    with Cons.prems show ?thesis
      by (intro exI [of _ "[]"] exI [of _ r] exI [of _ rs])
        (auto split: option.splits if_splits Option.bind_splits)
  qed
qed simp

lemma verdict_cases:
  assumes "verdict_of L q rs = Some (st, doe, err)"
  obtains (empty) "rs = []" "st = Unknown"
    | (bogus) r where "r \<in> set rs" "rs_state r = Bogus" "st = Bogus" "err = rs_err r"
    | (broken) "\<forall>r \<in> set rs. rs_state r \<noteq> Bogus" "chain_loop L None rs = Some (Some (st, doe, err))"
    | (whole) "rs \<noteq> []" "\<forall>r \<in> set rs. rs_state r = Secure" "last_verdict q (last rs) = (st, doe, err)"
proof -
  consider "rs = []" | r where "rs \<noteq> []" "find (\<lambda>r. rs_state r = Bogus) rs = Some r"
    | "rs \<noteq> []" "find (\<lambda>r. rs_state r = Bogus) rs = None" by fastforce
  then show ?thesis
  proof cases
    case 1
    with assms empty show ?thesis by (simp add: verdict_of_def)
  next
    case 2
    then have "r \<in> set rs" "rs_state r = Bogus" by (auto simp: find_Some_iff)
    with 2 assms bogus show ?thesis by (simp add: verdict_of_def)
  next
    case 3
    then have nb: "\<forall>r \<in> set rs. rs_state r \<noteq> Bogus" by (auto simp: find_None_iff)
    from 3 assms obtain v where v: "chain_loop L None rs = Some v"
      "(case v of Some w \<Rightarrow> w | None \<Rightarrow> last_verdict q (last rs)) = (st, doe, err)"
      by (auto simp: verdict_of_def split: Option.bind_splits)
    show ?thesis
    proof (cases v)
      case None
      with v chain_loop_None 3(1) whole show ?thesis by auto
    next
      case (Some w)
      with v nb broken show ?thesis by simp
    qed
  qed
qed

lemma Result_cases:
  assumes "Result L anchors vf a = Some (a', st, doe, err)"
  obtains (failed) "st = Unknown" "doe = NotFound" "err \<noteq> None"
    | (verdict) "verdict_of L (a_question a') (a_results a') = Some (st, doe, err)"
  using assms by (auto simp: Result_def split: Option.bind_splits option.splits)

text \<open>What the last result has to be for a Secure verdict: a denial, or an answer to the question.\<close>

definition answers_question :: "Question \<Rightarrow> result \<Rightarrow> bool" where
  "answers_question q r \<longleftrightarrow>
     rs_doe r \<in> {NsecNxDomain, Nsec3NxDomain, NsecNoData, Nsec3NoData} \<or>
     rs_doe r \<in> {NotFound, NsecWildcard, Nsec3Wildcard} \<and> \<not> recordsOfTypeExist (mNs (rs_msg r)) TypeSOA \<and>
       (\<exists>rr \<in> set (mAnswer (rs_msg r)). rr_name rr = qName q \<and> rr_type rr \<in> {qQtype q, TypeCNAME})"

lemma last_verdict_Secure:
  assumes "last_verdict q r = (Secure, doe, err)"
  shows "answers_question q r \<and> doe = rs_doe r"
  using assms
  by (auto simp: last_verdict_def answers_question_def extractRecordsOfNameAndType_def
      length_greater_0_conv filter_empty_conv split: if_splits)

text \<open>A Secure verdict in a reachable state.\<close>

lemma Result_Secure:
  assumes "auth_reachable L anchors (range (verify L cfg)) q a"
    and "Result L anchors (verify L cfg now) a = Some (a', Secure, doe, err)"
  shows "a_results a' \<noteq> [] \<and> (\<forall>r \<in> set (a_results a'). rs_state r = Secure) \<and>
    trust_chain L (range (verify L cfg)) anchors None (a_results a') \<and>
    answers_question q (last (a_results a')) \<and> doe = rs_doe (last (a_results a'))"
proof -
  from verifier.Result_inv [OF assms(2) rangeI verifier.reachable_inv [OF assms(1)]]
  have inv: "a_question a' = q" "trust_chain L (range (verify L cfg)) anchors None (a_results a')"
    by (simp_all add: auth_inv_def)
  from assms(2) have "verdict_of L q (a_results a') = Some (Secure, doe, err)"
    by (cases rule: Result_cases) (use inv in auto)
  then show ?thesis
  proof (cases rule: verdict_cases)
    case broken
    from chain_loop_Some [OF broken(2)] show ?thesis by (auto split: if_splits)
  next
    case whole
    with inv last_verdict_Secure [OF whole(3)] show ?thesis by simp
  qed auto
qed

text \<open>
  C5: a Secure verdict is a chain of trust from the anchors. In every state that the calls of the
  package can reach, \<open>Result\<close> says Secure only if there is at least one result and all are Secure;
  the first was verified, at the time of some call, with the root trust anchors, each next one with the DS records the one
  before it authenticated, for a zone strictly below its zone; and the last one denies the question
  or has a record in its answer section with the name asked for, of the type asked for or a CNAME.
\<close>

theorem Result_secure_chain:
  assumes "auth_reachable L anchors (range (verify L cfg)) q a"
    and "Result L anchors (verify L cfg now) a = Some (a', Secure, doe, err)"
  shows "a_results a' \<noteq> [] \<and> (\<forall>r \<in> set (a_results a'). rs_state r = Secure) \<and>
    trust_chain L (range (verify L cfg)) anchors None (a_results a') \<and>
    answers_question q (last (a_results a')) \<and> doe = rs_doe (last (a_results a'))"
  by (rule Result_Secure [OF assms])

text \<open>
  C18: an Insecure verdict needs a reason. Either the first result was already Insecure; or the
  chain is Secure up to a result whose predecessor proved that there are no DS records below it
  (opt-out, a delegation without DS, or a denial of exactly the DS records of that zone); or the
  whole chain is Secure and the last result is an opt-out. A chain with a Bogus result is never
  Insecure.
\<close>

theorem Result_insecure_justified:
  assumes "Result L anchors vf a = Some (a', Insecure, doe, err)"
  shows "(\<forall>r \<in> set (a_results a'). rs_state r \<noteq> Bogus) \<and>
    (\<exists>us r vs. a_results a' = us @ r # vs \<and> (\<forall>u \<in> set us. rs_state u = Secure) \<and>
      (us = [] \<and> rs_state r = Insecure
       \<or> us \<noteq> [] \<and> rs_state r \<noteq> Secure \<and> doe = rs_doe (last us) \<and>
          (doe \<in> {Nsec3OptOut, NsecMissingDS, Nsec3MissingDS}
           \<or> doe \<in> {NsecNoData, Nsec3NoData} \<and> (\<exists>pq. at (mQuestion (rs_msg (last us))) 0 = Some pq \<and>
               qQtype pq = TypeDS \<and> CanonicalName L (qName pq) = CanonicalName L (z_Name (rs_zone r))))
       \<or> vs = [] \<and> rs_state r = Secure \<and> rs_doe r = Nsec3OptOut))"
proof -
  from assms have "verdict_of L (a_question a') (a_results a') = Some (Insecure, doe, err)"
    by (cases rule: Result_cases) auto
  then show ?thesis
  proof (cases rule: verdict_cases)
    case broken
    from chain_loop_Some [OF broken(2)] obtain us r vs
      where s: "a_results a' = us @ r # vs" "\<forall>u \<in> set us. rs_state u = Secure" "rs_state r \<noteq> Secure"
      and c: "case (if us = [] then None else Some (last us)) of
          None \<Rightarrow> Insecure = rs_state r \<and> doe = rs_doe r
        | Some p \<Rightarrow> doe = rs_doe p \<and> Insecure \<noteq> Secure \<and>
            (Insecure = Insecure \<longrightarrow> doe \<in> {Nsec3OptOut, NsecMissingDS, Nsec3MissingDS}
              \<or> doe \<in> {NsecNoData, Nsec3NoData} \<and> (\<exists>pq. at (mQuestion (rs_msg p)) 0 = Some pq \<and>
                 qQtype pq = TypeDS \<and> CanonicalName L (qName pq) = CanonicalName L (z_Name (rs_zone r))))"
      by blast
    with broken(1) show ?thesis
      by (intro conjI exI [of _ us] exI [of _ r] exI [of _ vs]) (auto split: if_splits)
  next
    case whole
    then have "rs_doe (last (a_results a')) = Nsec3OptOut"
      by (auto simp: last_verdict_def split: if_splits)
    with whole show ?thesis
      by (intro conjI exI [of _ "butlast (a_results a')"] exI [of _ "last (a_results a')"] exI [of _ "[]"])
        (auto dest: in_set_butlastD)
  qed auto
qed

text \<open>
  One Bogus result decides. If all buffered responses are processed without an error and any
  of the results is Bogus, the verdict is Bogus, with the error of the first such result.
\<close>

theorem Result_bogus_dominates:
  assumes "drain_all L anchors vf a (drop (inputBufferIdx a) (inputBuffer a)) = Some (a', None)"
    and "a_results a' = us @ r # vs" "rs_state r = Bogus" "\<forall>u \<in> set us. rs_state u \<noteq> Bogus"
  shows "Result L anchors vf a = Some (a', Bogus, NotFound, rs_err r)"
proof -
  have "find (\<lambda>r. rs_state r = Bogus) us = None" using assms(4) by (auto simp: find_None_iff)
  then have "find (\<lambda>r. rs_state r = Bogus) (us @ r # vs) = Some r"
    using assms(3) by (induction us) (auto split: if_splits)
  with assms(1,2) show ?thesis by (simp add: Result_def verdict_of_def)
qed

lemma process_None:
  assumes "process L anchors vf q rs i = None"
  shows "\<exists>ds. vf (in_zone i) (in_msg i) ds = None"
  using assms by (auto simp: process_def Let_def split: option.splits Option.bind_splits split del: if_split)

lemma drain_None:
  "drain L anchors vf a xs = None \<Longrightarrow> \<exists>i ds. Some i \<in> set xs \<and> vf (in_zone i) (in_msg i) ds = None"
proof (induction xs arbitrary: a)
  case (Cons x xs)
  show ?case
  proof (cases x)
    case None
    with Cons.prems show ?thesis by simp
  next
    case (Some i)
    show ?thesis
    proof (cases "processResponse L anchors vf a (in_zone i) (in_msg i)")
      case None
      then have "process L anchors vf (a_question a) (a_results a) i = None"
        by (auto simp: processResponse_def split: Option.bind_splits)
      with process_None Some show ?thesis by fastforce
    next
      case (Some y)
      with Cons \<open>x = _\<close> show ?thesis by (cases y) (fastforce split: option.splits)
    qed
  qed
qed simp

text \<open>
  The buffer is large enough. In a reachable state, adding a response that has a question never
  indexes the buffer out of range: the call panics only where verifying one of the responses in the
  buffer does.
\<close>

theorem AddResponse_in_range:
  assumes "auth_reachable L anchors (range (verify L cfg)) q a" "name_laws L (qName q)" "mQuestion msg \<noteq> []"
  shows "(\<exists>a' e. AddResponse L anchors (verify L cfg now) a zone msg = Some (a', e)) \<or>
    (\<exists>i ds. (i = \<lparr>in_zone = zone, in_msg = msg\<rparr> \<or> Some i \<in> set (inputBuffer a)) \<and>
       verify L cfg now (in_zone i) (in_msg i) ds = None)"
proof (cases "accepted L q \<lparr>in_zone = zone, in_msg = msg\<rparr>")
  case False
  from verifier.reachable_inv [OF assms(1)] have "a_question a = q" by (simp add: auth_inv_def)
  with False assms(3) show ?thesis
    by (auto simp: AddResponse_def accepted_def at_def split: if_splits)
next
  case True
  let ?i = "\<lparr>in_zone = zone, in_msg = msg\<rparr>"
  from verifier.reachable_inv [OF assms(1)] have q: "a_question a = q"
    and len: "length (inputBuffer a) = nat (CountLabel L (qName q) + 1)" by (simp_all add: auth_inv_def)
  from True have "IsSubDomain L (z_Name zone) (qName q)" by (simp add: accepted_def)
  from IsSubDomain_count [OF assms(2) this] len obtain v where v: "at (inputBuffer a) (position_of L ?i) = Some v"
    by (auto simp: at_def position_of_def)
  have add: "AddResponse L anchors (verify L cfg now) a zone msg = (case v of
      Some _ \<Rightarrow> Some (a, Some (Errorf [DErr ErrDuplicateInputForZone]))
    | None \<Rightarrow> drain L anchors (verify L cfg now) (store L a ?i) (drop (inputBufferIdx a) (inputBuffer (store L a ?i))))"
    using AddResponse_accepted [of L a ?i anchors "verify L cfg now"] True q v by simp
  show ?thesis
  proof (cases "AddResponse L anchors (verify L cfg now) a zone msg")
    case None
    with add have "drain L anchors (verify L cfg now) (store L a ?i)
        (drop (inputBufferIdx a) (inputBuffer (store L a ?i))) = None" by (simp split: option.splits)
    from drain_None [OF this] obtain i ds where
      i: "Some i \<in> set (drop (inputBufferIdx a) (inputBuffer (store L a ?i)))"
      "verify L cfg now (in_zone i) (in_msg i) ds = None" by blast
    from i(1) have "i = ?i \<or> Some i \<in> set (inputBuffer a)"
      by (auto simp: store_def dest!: in_set_dropD set_update_subset_insert [THEN subsetD])
    with i(2) show ?thesis by blast
  qed auto
qed

section \<open>TTLs of the last result\<close>

lemma resultTTL_loop_spec [loop_specs]:
  "resultTTL_loop rtype found ttl ss =
     (found \<or> (\<exists>s \<in> set ss. sg_rtype s = rtype \<and> sg_verified s),
      min_over sg_ttl ttl (filter (\<lambda>s. sg_rtype s = rtype \<and> sg_verified s) ss))"
  by (induction ss arbitrary: found ttl) auto

text \<open>
  The TTL of the last result. There is one exactly when a signature of the type on the answer
  section verified, and it is the smallest of the configured maximum and the TTLs of the verified
  signatures of that type.
\<close>

theorem ResultTTLAnswer_min:
  "ResultTTLAnswer maxTTL a rtype =
     (let sigs = (if a_results a = [] then [] else rs_answer (last (a_results a)));
          good = {s \<in> set sigs. sg_rtype s = rtype \<and> sg_verified s}
      in if good = {} then (0, False) else (Min (insert maxTTL (sg_ttl ` good)), True))"
  by (auto simp: ResultTTLAnswer_def resultTTL_def loop_specs min_over_Min Let_def)

section \<open>The properties at concrete chains\<close>

definition ex_q :: Question where
  "ex_q = \<lparr>qName = ''w.e.'', qQtype = TypeA, qQclass = 1\<rparr>"

definition ex_chain :: "DS list \<Rightarrow> input list \<Rightarrow> Authenticator option" where
  "ex_chain anchors xs = add_all sig_lib anchors (verify sig_lib ex_cfg 900) (NewAuth sig_lib ex_q) xs"

definition ex_input :: input where
  "ex_input = \<lparr>in_zone = ex_Zone, in_msg = ex_msg ''w.e.'' ex_answer\<rparr>"

text \<open>A zone at the root without any key.\<close>

definition keyless_root :: Zone where
  "keyless_root = \<lparr>z_Name = ''.'', z_DNSKEYs = ([], None)\<rparr>"

definition root_input :: input where
  "root_input = \<lparr>in_zone = keyless_root, in_msg = ex_msg ''w.e.'' []\<rparr>"

definition verdict_is :: "AuthenticationResult \<Rightarrow> (Authenticator \<times> verdict) option \<Rightarrow> bool" where
  "verdict_is st res = (case res of Some (_, st', _, _) \<Rightarrow> st' = st | None \<Rightarrow> False)"

lemma add_all_reachable:
  "add_all L anchors vf a xs = Some a' \<Longrightarrow> vf \<in> V \<Longrightarrow> auth_reachable L anchors V q a \<Longrightarrow> auth_reachable L anchors V q a'"
  by (induction xs arbitrary: a) (auto intro: auth_reachable.add split: Option.bind_splits)

lemma ex_chain_result:
  assumes "case ex_chain anchors xs of None \<Rightarrow> False
    | Some a \<Rightarrow> verdict_is st (Result sig_lib anchors (verify sig_lib ex_cfg 900) a)"
  obtains a a' doe err where "auth_reachable sig_lib anchors (range (verify sig_lib ex_cfg)) ex_q a"
    "Result sig_lib anchors (verify sig_lib ex_cfg 900) a = Some (a', st, doe, err)"
proof -
  from assms obtain a where a: "ex_chain anchors xs = Some a"
    and v: "verdict_is st (Result sig_lib anchors (verify sig_lib ex_cfg 900) a)" by (auto split: option.splits)
  from add_all_reachable [OF a [unfolded ex_chain_def], of "range (verify sig_lib ex_cfg)" ex_q] auth_reachable.new v that show ?thesis
    by (auto simp: verdict_is_def split: option.splits)
qed

theorem Result_secure_chain_witness:
  "\<exists>a a' doe err. auth_reachable sig_lib [ex_ds 2] (range (verify sig_lib ex_cfg)) ex_q a \<and>
     Result sig_lib [ex_ds 2] (verify sig_lib ex_cfg 900) a = Some (a', Secure, doe, err) \<and>
     a_results a' \<noteq> [] \<and> answers_question ex_q (last (a_results a'))"
proof -
  have "case ex_chain [ex_ds 2] [ex_input] of None \<Rightarrow> False
    | Some a \<Rightarrow> verdict_is Secure (Result sig_lib [ex_ds 2] (verify sig_lib ex_cfg 900) a)" by code_simp
  then obtain a a' doe err where "auth_reachable sig_lib [ex_ds 2] (range (verify sig_lib ex_cfg)) ex_q a"
    "Result sig_lib [ex_ds 2] (verify sig_lib ex_cfg 900) a = Some (a', Secure, doe, err)"
    by (rule ex_chain_result)
  with Result_secure_chain [OF this] show ?thesis by blast
qed

lemma keyless_root_result:
  obtains a a' doe err where "auth_reachable sig_lib [ex_ds 2] (range (verify sig_lib ex_cfg)) ex_q a"
    "Result sig_lib [ex_ds 2] (verify sig_lib ex_cfg 900) a = Some (a', Insecure, doe, err)"
proof (rule ex_chain_result)
  show "case ex_chain [ex_ds 2] [root_input] of None \<Rightarrow> False
    | Some a \<Rightarrow> verdict_is Insecure (Result sig_lib [ex_ds 2] (verify sig_lib ex_cfg 900) a)" by code_simp
qed

theorem Result_insecure_justified_witness:
  "\<exists>a a' doe err. Result sig_lib [ex_ds 2] (verify sig_lib ex_cfg 900) a = Some (a', Insecure, doe, err) \<and>
     (\<forall>r \<in> set (a_results a'). rs_state r \<noteq> Bogus)"
proof -
  obtain a a' doe err where r: "Result sig_lib [ex_ds 2] (verify sig_lib ex_cfg 900) a = Some (a', Insecure, doe, err)"
    by (rule keyless_root_result)
  from Result_insecure_justified [OF r] r show ?thesis by blast
qed

text \<open>
  The downgrade at the root: although trust anchors are configured, a root zone whose key set is
  empty makes the verdict Insecure and not Bogus.
\<close>

theorem missing_root_keys_insecure:
  "\<exists>a a' doe err. auth_reachable sig_lib [ex_ds 2] (range (verify sig_lib ex_cfg)) ex_q a \<and>
     Result sig_lib [ex_ds 2] (verify sig_lib ex_cfg 900) a = Some (a', Insecure, doe, err)"
  by (rule keyless_root_result) blast

theorem responses_in_any_order_witness:
  "\<exists>a. add_all sig_lib [] (verify sig_lib ex_cfg 900) (NewAuth sig_lib ex_q) [ex_input, root_input] = Some a
     \<and> add_all sig_lib [] (verify sig_lib ex_cfg 900) (NewAuth sig_lib ex_q) [root_input, ex_input] = Some a
     \<and> add_clean sig_lib [] (verify sig_lib ex_cfg 900) (NewAuth sig_lib ex_q) [root_input, ex_input] = Some a"
proof -
  have "case ex_chain [] [ex_input, root_input] of None \<Rightarrow> False | Some _ \<Rightarrow> True" by code_simp
  then obtain a where a: "add_all sig_lib [] (verify sig_lib ex_cfg 900) (NewAuth sig_lib ex_q) [ex_input, root_input] = Some a"
    by (auto simp: ex_chain_def split: option.splits)
  have "distinct (map (position_of sig_lib) [ex_input, root_input])"
    "add_clean sig_lib [] (verify sig_lib ex_cfg 900) (NewAuth sig_lib ex_q) [ex_input, root_input] \<noteq> None" by code_simp+
  with responses_in_any_order [OF a, of "[root_input, ex_input]"] a show ?thesis by auto
qed

lemma ex_name_laws: "name_laws sig_lib (qName ex_q)"
proof -
  have "canonical_laws sig_lib d = canonical_laws plain_lib d" for d
    by (simp add: canonical_laws_def sig_lib_def ancestors_def)
  moreover have "label_laws sig_lib (CanonicalName sig_lib (qName ex_q))" by code_simp
  ultimately show ?thesis by (simp add: name_laws_def plain_canonical_laws)
qed

theorem AddResponse_in_range_witness:
  "(\<exists>a' e. AddResponse sig_lib [] (verify sig_lib ex_cfg 900) (NewAuth sig_lib ex_q) ex_Zone (ex_msg ''w.e.'' ex_answer) = Some (a', e)) \<or>
   (\<exists>i ds. (i = \<lparr>in_zone = ex_Zone, in_msg = ex_msg ''w.e.'' ex_answer\<rparr> \<or> Some i \<in> set (inputBuffer (NewAuth sig_lib ex_q))) \<and>
       verify sig_lib ex_cfg 900 (in_zone i) (in_msg i) ds = None)"
  by (rule AddResponse_in_range [OF auth_reachable.new ex_name_laws]) (simp add: ex_msg_def)

text \<open>A chain with a Bogus result: the answer without its signature.\<close>

definition bogus_input :: input where
  "bogus_input = \<lparr>in_zone = ex_Zone, in_msg = ex_msg ''w.e.'' []\<rparr>"

theorem Result_bogus_dominates_witness:
  "\<exists>a a' (r :: result). drain_all sig_lib [ex_ds 2] (verify sig_lib ex_cfg 900) a (drop (inputBufferIdx a) (inputBuffer a)) = Some (a', None)
     \<and> Result sig_lib [ex_ds 2] (verify sig_lib ex_cfg 900) a = Some (a', Bogus, NotFound, rs_err r)"
proof -
  have "case ex_chain [ex_ds 2] [bogus_input] of None \<Rightarrow> False
    | Some a \<Rightarrow> (case drain_all sig_lib [ex_ds 2] (verify sig_lib ex_cfg 900) a (drop (inputBufferIdx a) (inputBuffer a)) of
        Some (a', None) \<Rightarrow> map rs_state (a_results a') = [Bogus] | _ \<Rightarrow> False)" by code_simp
  then obtain a a' r where d: "drain_all sig_lib [ex_ds 2] (verify sig_lib ex_cfg 900) a (drop (inputBufferIdx a) (inputBuffer a)) = Some (a', None)"
    and r: "a_results a' = [r]" "rs_state r = Bogus"
    by (fastforce split: option.splits prod.splits)
  from Result_bogus_dominates [OF d, of "[]" r "[]"] r
  have "Result sig_lib [ex_ds 2] (verify sig_lib ex_cfg 900) a = Some (a', Bogus, NotFound, rs_err r)" by simp
  with d show ?thesis by blast
qed

end
