(* ===== verification/Validation.thy ===== *)
theory Validation
  imports Factory Authenticator
begin

text \<open>
  The resolver's side of the validation, \<open>auth.go\<close>: a queue in front of the authenticator of the
  \<open>dnssec\<close> package, and the link from its zones to those of the resolver. The messages of the queue
  are processed at once, and the link messages as soon as they arrive; \<open>Auth_Queue\<close> has the goroutines
  in every order and shows that this is one of them. The keys of a zone, which the code fetches
  ahead in a goroutine, are fetched when its message is added.
\<close>

section \<open>Operations\<close>

record authenticator =
  w_auth :: Authenticator
  w_errors :: "error list"
  w_finished :: bool

definition newAuthenticator :: "'w env \<Rightarrow> Question \<Rightarrow> authenticator" where
  "newAuthenticator E question = \<lparr>w_auth = NewAuth (E_lib E) question, w_errors = [], w_finished = False\<rparr>"

abbreviation (input) "anchors_of E \<equiv> RootTrustAnchors (E_dnssec E)"

definition verifier_at :: "'w env \<Rightarrow> 'w rstate \<Rightarrow> verify_fun" where
  "verifier_at E s = verify (E_lib E) (E_dnssec E) (now_unix E s)"

text \<open>What the authenticator sees of a zone (\<open>authZoneWrapper\<close>).\<close>

definition authZoneWrapper :: "'w rstate \<Rightarrow> nat \<Rightarrow> RR list \<times> error option \<Rightarrow> Zone" where
  "authZoneWrapper s z keys = \<lparr>z_Name = zname s z, z_DNSKEYs = keys\<rparr>"

text \<open>One round of the loop of \<open>start\<close>.\<close>

definition process_input :: "'w env \<Rightarrow> 'w rstate \<Rightarrow> authenticator \<Rightarrow> nat \<Rightarrow> Msg \<Rightarrow> ('w rstate \<times> authenticator) option" where
  "process_input E s a z msg = do {
     (s1, keys) \<leftarrow> zone_dnskeys E s z;
     (auth, err) \<leftarrow> AddResponse (E_lib E) (anchors_of E) (verifier_at E s1) (w_auth a) (authZoneWrapper s1 z keys) msg;
     Some (s1, a\<lparr>w_auth := auth, w_errors := w_errors a @ (case err of None \<Rightarrow> [] | Some e \<Rightarrow> [e])\<rparr>)
   }"

text \<open>The query for the DS records of a name.\<close>

definition ds_query :: "'w env \<Rightarrow> string \<Rightarrow> Msg" where
  "ds_query E qname = (SetEdns0 (E_lib E) (SetQuestion (E_lib E) new_Msg (Fqdn (E_lib E) qname) TypeDS) 4096 True)
     \<lparr>mRecursionDesired := False\<rparr>"

definition addDelegationSignerLink :: "'w env \<Rightarrow> 'w rstate \<Rightarrow> authenticator \<Rightarrow> nat \<Rightarrow> string \<Rightarrow> ('w rstate \<times> authenticator) option" where
  "addDelegationSignerLink E s a z qname =
     (if w_finished a then Some (s, a)
      else do {
        (s1, response) \<leftarrow> zone_exchange E s z (ds_query E qname);
        (case (r_Msg response, r_Err response) of
           (Some msg, None) \<Rightarrow> process_input E s1 a z msg
         | _ \<Rightarrow> Some (s1, a))
      })"

definition addResponse :: "'w env \<Rightarrow> 'w rstate \<Rightarrow> authenticator \<Rightarrow> nat \<Rightarrow> Msg \<Rightarrow> ('w rstate \<times> authenticator) option" where
  "addResponse E s a z msg = (if w_finished a then Some (s, a) else process_input E s a z msg)"

text \<open>
  The verdict. A single error becomes the result; several errors are joined into one that is then
  not used.
\<close>

definition auth_result :: "'w env \<Rightarrow> 'w rstate \<Rightarrow> authenticator \<Rightarrow> (authenticator \<times> verdict) option" where
  "auth_result E s a0 =
     (let a = a0\<lparr>w_finished := True\<rparr>
      in case w_errors a of
           [e] \<Rightarrow> Some (a, Unknown, NotFound, Some e)
         | _ \<Rightarrow> do {
             (auth, v) \<leftarrow> Result (E_lib E) (anchors_of E) (verifier_at E s) (w_auth a);
             Some (a\<lparr>w_auth := auth\<rparr>, v)
           })"

definition resultTTLAnswer :: "'w env \<Rightarrow> authenticator \<Rightarrow> u16 \<Rightarrow> u32 \<times> bool" where
  "resultTTLAnswer E a rtype = ResultTTLAnswer (dnssec_MaxAllowedTTL (E_dnssec E)) (w_auth a) rtype"

definition resultTTLAuthority :: "'w env \<Rightarrow> authenticator \<Rightarrow> u16 \<Rightarrow> u32 \<times> bool" where
  "resultTTLAuthority E a rtype = ResultTTLAuthority (dnssec_MaxAllowedTTL (E_dnssec E)) (w_auth a) rtype"

section \<open>The state of the resolver\<close>

lemma process_input_quiet: "quietly s (process_input E s a z msg)"
  unfolding process_input_def
  by (rule quietly_bind [OF zone_steps_quiet(3)]) (auto intro: quietly_plain)

lemma addResponse_quiet: "quietly s (addResponse E s a z msg)"
  by (simp add: addResponse_def process_input_quiet)

lemma addDelegationSignerLink_quiet: "quietly s (addDelegationSignerLink E s a z qname)"
  unfolding addDelegationSignerLink_def
  by (auto intro!: quietly_bind [OF zone_steps_quiet(1)] simp: process_input_quiet split: option.split)

lemmas auth_steps_quiet = addResponse_quiet addDelegationSignerLink_quiet

lemmas auth_steps_same [run_intros] = auth_steps_quiet [THEN same_run_quiet]

section \<open>The authenticator behind the queue\<close>

text \<open>
  With one error nothing is authenticated: the verdict is never \<open>Secure\<close>; the errors are lost when
  there are two or more.
\<close>

lemma single_error_not_secure:
  "w_errors a = [e] \<Longrightarrow> auth_result E s a = Some (a\<lparr>w_finished := True\<rparr>, Unknown, NotFound, Some e)"
  by (simp add: auth_result_def Let_def)

lemma several_errors_lost:
  assumes "length (w_errors a) \<noteq> 1"
  shows "auth_result E s a = map_option (\<lambda>(auth, v). (a\<lparr>w_finished := True, w_auth := auth\<rparr>, v))
    (Result (E_lib E) (anchors_of E) (verifier_at E s) (w_auth a))"
proof -
  have "auth_result E s a = do {
      (auth, v) \<leftarrow> Result (E_lib E) (anchors_of E) (verifier_at E s) (w_auth a);
      Some (a\<lparr>w_finished := True, w_auth := auth\<rparr>, v) }"
    using assms by (auto simp: auth_result_def Let_def split: list.split)
  then show ?thesis by (auto simp: map_option_case split: Option.bind_split)
qed

end
