(* ===== verification/Cname.thy ===== *)
theory Cname
  imports Validation
begin

text \<open>
  Following aliases: \<open>cname.go\<close>. Every target is resolved in a goroutine of its own; they are taken
  to run one after the other. Their responses come back through a channel in any order, and are
  merged into the response; the section at the end shows what of the result depends on that order.
\<close>

section \<open>Operations\<close>

text \<open>What a goroutine puts on a channel: nothing, an error, or a message with its state.\<close>

type_synonym cname_outcome = "(error + Msg \<times> AuthenticationResult) option"

definition cname_answer :: "'w env \<Rightarrow> 'w exch \<Rightarrow> 'w rstate \<Rightarrow> Msg \<Rightarrow> Msg \<Rightarrow> ('w rstate \<times> Response) option" where
  "cname_answer E ex s qmsg cnameQMsg0 = do {
     c \<leftarrow> rcache s;
     q0 \<leftarrow> at (mQuestion cnameQMsg0) 0;
     let (c1, cachedMsg) = cache_get c q0 (mId qmsg) (now_ns E s);
     let s1 = s\<lparr>rcache := Some c1\<rparr>;
     (case cachedMsg of
        Some msg \<Rightarrow> Some (s1, new_Response\<lparr>r_Msg := Some msg\<rparr>)
      | None \<Rightarrow> do {
          let cnameQMsg = (if isSetDO (E_lib E) qmsg then SetEdns0 (E_lib E) cnameQMsg0 4096 True else cnameQMsg0);
          (s2, r) \<leftarrow> ex s1 cnameQMsg;
          if r_Err r \<noteq> None then Some (s2, r)
          else do {
            msg \<leftarrow> r_Msg r;
            c2 \<leftarrow> rcache s2;
            q1 \<leftarrow> at (mQuestion cnameQMsg) 0;
            c3 \<leftarrow> cache_set c2 q1 msg (now_ns E s2);
            Some (s2\<lparr>rcache := Some c3\<rparr>, r)
          }
        })
   }"

definition cname_target :: "'w env \<Rightarrow> 'w exch \<Rightarrow> 'w rstate \<Rightarrow> Msg \<Rightarrow> RR list \<Rightarrow> string \<Rightarrow> ('w rstate \<times> cname_outcome) option" where
  "cname_target E ex s qmsg answer target0 = do {
     q \<leftarrow> at (mQuestion qmsg) 0;
     let target = CanonicalName (E_lib E) target0;
     if recordsOfNameAndTypeExist answer target (qQtype q) \<or> recordsOfNameAndTypeExist answer target TypeCNAME
     then Some (s, None)
     else do {
       (s1, r) \<leftarrow> cname_answer E ex s qmsg (SetQuestion (E_lib E) new_Msg target (qQtype q));
       Some (s1, Some (case (r_Err r, r_Msg r) of
           (Some e, _) \<Rightarrow> Inl e
         | (None, None) \<Rightarrow> Inl (Errorf [])
         | (None, Some msg) \<Rightarrow> Inr (msg, r_Auth r)))
     }
   }"

fun cname_targets :: "'w env \<Rightarrow> 'w exch \<Rightarrow> 'w rstate \<Rightarrow> Msg \<Rightarrow> RR list \<Rightarrow> string list \<Rightarrow> ('w rstate \<times> cname_outcome list) option" where
  "cname_targets E ex s qmsg answer [] = Some (s, [])"
| "cname_targets E ex s qmsg answer (t # ts) = do {
     (s1, out) \<leftarrow> cname_target E ex s qmsg answer t;
     (s2, outs) \<leftarrow> cname_targets E ex s1 qmsg answer ts;
     Some (s2, out # outs)
   }"

text \<open>Merging one response into the message and the state so far.\<close>

definition merge_cname :: "Msg \<times> AuthenticationResult \<Rightarrow> Msg \<times> AuthenticationResult \<Rightarrow> Msg \<times> AuthenticationResult" where
  "merge_cname r c =
     ((fst r)\<lparr>mAnswer := mAnswer (fst r) @ mAnswer (fst c), mNs := mNs (fst r) @ mNs (fst c), mExtra := mExtra (fst r) @ mExtra (fst c),
        mAuthoritative := mAuthoritative (fst r) \<and> mAuthoritative (fst c), mRcode := max (mRcode (fst r)) (mRcode (fst c))\<rparr>,
      Combine (snd r) (snd c))"

definition cname_responses :: "cname_outcome list \<Rightarrow> (Msg \<times> AuthenticationResult) list" where
  "cname_responses outs = List.map_filter (\<lambda>x. case x of Some (Inr r) \<Rightarrow> Some r | _ \<Rightarrow> None) outs"

definition cname_errors :: "cname_outcome list \<Rightarrow> error list" where
  "cname_errors outs = List.map_filter (\<lambda>x. case x of Some (Inl e) \<Rightarrow> Some e | _ \<Rightarrow> None) outs"

text \<open>The part after all goroutines have ended.\<close>

definition cname_collect :: "Msg \<Rightarrow> AuthenticationResult \<Rightarrow> cname_outcome list \<Rightarrow> (Msg \<times> AuthenticationResult) \<times> error option" where
  "cname_collect msg auth outs =
     (foldl merge_cname (msg, auth) (cname_responses outs),
      if cname_responses outs = [] \<and> cname_errors outs \<noteq> [] then Some (Errorf []) else None)"

definition cname :: "'w env \<Rightarrow> 'w exch \<Rightarrow> 'w rstate \<Rightarrow> Msg \<Rightarrow> Msg \<Rightarrow> AuthenticationResult
    \<Rightarrow> ('w rstate \<times> (Msg \<times> AuthenticationResult) \<times> error option) option" where
  "cname E ex s qmsg msg auth = do {
     (s1, outs) \<leftarrow> cname_targets E ex s qmsg (mAnswer msg) (map snd (extractRecords as_CNAME (mAnswer msg)));
     Some (s1, cname_collect msg auth outs)
   }"

section \<open>The state of the resolver\<close>

lemma session_rcache [simp]: "session (s\<lparr>rcache := c\<rparr>) = session s"
  by simp

lemma cname_answer_agree:
  assumes "agree c ex1 ex2" "c \<le> session s"
  shows "same_run c (cname_answer E ex1 s qmsg m) (cname_answer E ex2 s qmsg m)"
  unfolding cname_answer_def Let_def using assms
  by (auto split: option.split prod.split intro!: same_run_plain same_run_bind [OF agree_run] same_run_Some same_run_None)

lemma cname_targets_agree:
  assumes "agree c ex1 ex2" "c \<le> session s"
  shows "same_run c (cname_targets E ex1 s qmsg answer ts) (cname_targets E ex2 s qmsg answer ts)"
  using assms(2)
proof (induction ts arbitrary: s)
  case (Cons t ts)
  have "same_run c (cname_target E ex1 s qmsg answer t) (cname_target E ex2 s qmsg answer t)"
    unfolding cname_target_def Let_def using assms(1) Cons.prems
    by (auto intro!: same_run_plain same_run_bind [OF cname_answer_agree] same_run_Some)
  with Cons.IH show ?case by (auto intro!: same_run_bind same_run_Some)
qed (simp add: run_intros)

lemma cname_agree:
  assumes "agree c ex1 ex2" "c \<le> session s"
  shows "same_run c (cname E ex1 s qmsg msg auth) (cname E ex2 s qmsg msg auth)"
  unfolding cname_def using cname_targets_agree [OF assms] by (auto intro!: same_run_bind same_run_Some)

lemma resolver_ok_rcache: "resolver_ok L s \<Longrightarrow> grown L s (s\<lparr>rcache := c\<rparr>)"
  unfolding grown_def
  by (auto simp: extends_def intro: resolver_ok_extends [of s])

text \<open>A run that leaves a sound state behind.\<close>

definition grows :: "dnslib \<Rightarrow> 'w rstate \<Rightarrow> ('w rstate \<times> 'a) option \<Rightarrow> bool" where
  "grows L s x \<longleftrightarrow> (resolver_ok L s \<longrightarrow> holds (\<lambda>y. grown L s (fst y)) x)"

lemma grows_bind:
  assumes "grows L s x" "\<And>t a. x = Some (t, a) \<Longrightarrow> grows L t (f (t, a))"
  shows "grows L s (Option.bind x f)"
proof (cases x)
  case (Some y)
  obtain t a where y: "y = (t, a)" by (cases y)
  show ?thesis unfolding grows_def
  proof
    assume "resolver_ok L s"
    with assms(1) Some y have g: "grown L s t" by (simp add: grows_def)
    then have "holds (\<lambda>y. grown L t (fst y)) (f (t, a))"
      using assms(2) Some y by (simp add: grows_def grown_def)
    with Some y show "holds (\<lambda>y. grown L s (fst y)) (Option.bind x f)"
      using grown_trans [OF g] by (auto simp: holds_def)
  qed
qed (simp add: grows_def)

lemma grows_plain: "(\<And>a. grows L s (f a)) \<Longrightarrow> grows L s (Option.bind x f)"
  by (cases x) (simp_all add: grows_def)

lemma grows_Some [simp]: "grows L s (Some y) \<longleftrightarrow> (resolver_ok L s \<longrightarrow> grown L s (fst y))"
  by (simp add: grows_def)

lemma grows_None [simp]: "grows L s None"
  by (simp add: grows_def)

lemma grows_quietly: "quietly s x \<Longrightarrow> grows L s x"
  by (auto simp: grows_def quietly_def holds_def intro: grown_quiet)

lemma grows_after: "grown L s t \<Longrightarrow> grows L t x \<Longrightarrow> grows L s x"
  using extends_trans by (fastforce simp: grows_def grown_def holds_def)

lemmas grows_intros = grows_bind grows_plain

context onward_exchanger
begin

lemma ex_grows: "grows L s (ex s m)"
  using keeps by (auto simp: grows_def holds_def)

lemma cname_answer_grows: "grows L s (cname_answer E ex s qmsg m)"
proof -
  have upd: "grows L t (Some (t\<lparr>rcache := c\<rparr>, r))" for t :: "'w rstate" and c and r :: Response
    by (simp add: resolver_ok_rcache)
  have ask: "grows L s (Option.bind (ex (s\<lparr>rcache := c\<rparr>) m) f)" if "\<And>t r. grows L t (f (t, r))" for c m and f :: "_ \<Rightarrow> ('w rstate \<times> Response) option"
  proof (cases "resolver_ok L s")
    case True
    show ?thesis
      by (rule grows_after [OF resolver_ok_rcache [OF True, of c]]) (rule grows_bind [OF ex_grows that])
  qed (simp add: grows_def)
  show ?thesis
    unfolding cname_answer_def Let_def
    by (auto intro!: grows_plain ask upd split: prod.split option.split simp: grown_refl resolver_ok_rcache)
qed

lemma cname_targets_grows: "grows L s (cname_targets E ex s qmsg answer ts)"
proof (induction ts arbitrary: s)
  case (Cons t ts)
  have "grows L s (cname_target E ex s qmsg answer t)"
    unfolding cname_target_def Let_def
    by (auto intro!: grows_plain grows_bind [OF cname_answer_grows] simp: grown_refl)
  with Cons.IH show ?case by (auto intro!: grows_bind simp: grown_refl)
qed (simp add: grown_refl)

lemma cname_grows: "grows L s (cname E ex s qmsg msg auth)"
  unfolding cname_def by (auto intro!: grows_bind [OF cname_targets_grows] simp: grown_refl)

end

section \<open>What depends on the order of the responses\<close>

text \<open>
  The content of a response as it is merged: the records of each section as a multiset, the flag,
  the code and the state.
\<close>

definition content :: "Msg \<times> AuthenticationResult \<Rightarrow> RR multiset \<times> RR multiset \<times> RR multiset \<times> bool \<times> int \<times> AuthenticationResult" where
  "content r = (mset (mAnswer (fst r)), mset (mNs (fst r)), mset (mExtra (fst r)), mAuthoritative (fst r), mRcode (fst r), snd r)"

lemma merge_content:
  "content (foldl merge_cname r cs) =
     (mset (mAnswer (fst r)) + (\<Sum>c\<leftarrow>cs. mset (mAnswer (fst c))),
      mset (mNs (fst r)) + (\<Sum>c\<leftarrow>cs. mset (mNs (fst c))),
      mset (mExtra (fst r)) + (\<Sum>c\<leftarrow>cs. mset (mExtra (fst c))),
      mAuthoritative (fst r) \<and> list_all (\<lambda>c. mAuthoritative (fst c)) cs,
      foldl max (mRcode (fst r)) (map (\<lambda>c. mRcode (fst c)) cs),
      foldl Combine (snd r) (map snd cs))"
  by (induction cs arbitrary: r) (simp_all add: content_def merge_cname_def ac_simps)

lemma mset_responses: "mset (cname_responses outs) = mset (cname_responses outs')"
  and mset_errors: "mset (cname_errors outs) = mset (cname_errors outs')" if "mset outs = mset outs'"
  using that unfolding cname_responses_def cname_errors_def List.map_filter_def
  by (simp_all add: mset_filter)

lemma foldl_max: "foldl max (a :: int) xs = Max (insert a (set xs))"
proof (induction xs arbitrary: a)
  case (Cons x xs)
  then show ?case by (cases "xs = []") (simp_all add: ac_simps)
qed simp

lemma sum_list_mset: "mset xs = mset ys \<Longrightarrow> (\<Sum>x\<leftarrow>xs. f x) = (\<Sum>x\<leftarrow>ys. f x :: 'b :: comm_monoid_add)"
  by (metis mset_map sum_mset_sum_list)

lemma merge_any_order:
  assumes "mset cs = mset ds"
  shows "content (foldl merge_cname r cs) = content (foldl merge_cname r ds)"
proof -
  from assms have s: "set cs = set ds" by (rule mset_eq_setD)
  have "foldl Combine (snd r) (map snd cs) = foldl Combine (snd r) (map snd ds)"
    by (rule combine.foldl_mset) (simp add: assms)
  then show ?thesis
    unfolding merge_content foldl_max set_map s list_all_iff
    by (simp add: sum_list_mset [OF assms])
qed

text \<open>
  C19: merging the answers for aliases does not depend on the order in which they arrive. For every
  order of the outcomes, the merged response has the same records in each section (as multisets), the
  same flags, code and security state, and the same error. The state is \<open>Secure\<close> only if the
  response itself and every merged answer are; it is \<open>Bogus\<close> as soon as one of them is. There is an
  error exactly when no answer was merged and some target failed.
\<close>

theorem cname_any_order:
  assumes "mset outs' = mset outs" "cname_collect msg auth outs = ((m, st), err)"
  shows "content (fst (cname_collect msg auth outs')) = content (m, st) \<and> snd (cname_collect msg auth outs') = err \<and>
    (st = Secure \<longleftrightarrow> auth = Secure \<and> list_all (\<lambda>r. snd r = Secure) (cname_responses outs)) \<and>
    (st = Bogus \<longleftrightarrow> auth = Bogus \<or> list_ex (\<lambda>r. snd r = Bogus) (cname_responses outs)) \<and>
    (err \<noteq> None \<longleftrightarrow> cname_responses outs = [] \<and> cname_errors outs \<noteq> [])"
proof -
  note r = mset_responses [OF assms(1)] and e = mset_errors [OF assms(1)]
  from assms(2) have m: "(m, st) = foldl merge_cname (msg, auth) (cname_responses outs)"
    and err: "err = (if cname_responses outs = [] \<and> cname_errors outs \<noteq> [] then Some (Errorf []) else None)"
    by (simp_all add: cname_collect_def)
  have "content (m, st) = content (foldl merge_cname (msg, auth) (cname_responses outs))" by (simp only: m)
  then have st: "st = foldl Combine auth (map snd (cname_responses outs))"
    unfolding merge_content by (simp add: content_def)
  have "content (fst (cname_collect msg auth outs')) = content (m, st)"
    unfolding m cname_collect_def fst_conv by (rule merge_any_order [OF r])
  moreover have "snd (cname_collect msg auth outs') = err"
    using arg_cong [OF r, of "\<lambda>M. M = {#}"] arg_cong [OF e, of "\<lambda>M. M = {#}"] unfolding err cname_collect_def by simp
  moreover have "st = Secure \<longleftrightarrow> auth = Secure \<and> list_all (\<lambda>r. snd r = Secure) (cname_responses outs)"
    unfolding st foldl_Combine_Secure by (simp add: list_all_iff)
  moreover have "st = Bogus \<longleftrightarrow> auth = Bogus \<or> list_ex (\<lambda>r. snd r = Bogus) (cname_responses outs)"
    unfolding st foldl_Combine_Bogus by (force simp: list_ex_iff)
  ultimately show ?thesis by (simp add: err)
qed

definition ex_outs :: "cname_outcome list" where
  "ex_outs = [Some (Inl (Errorf [])), Some (Inr (new_Msg\<lparr>mAnswer := unrelated, mRcode := 3\<rparr>, Insecure)), None]"

theorem cname_any_order_witness:
  "content (fst (cname_collect new_Msg Secure (rev ex_outs))) = content (fst (cname_collect new_Msg Secure ex_outs)) \<and>
     snd (fst (cname_collect new_Msg Secure ex_outs)) = Insecure"
proof -
  have "mset (rev ex_outs) = mset ex_outs" by simp
  from cname_any_order [OF this, of new_Msg Secure "fst (fst (cname_collect new_Msg Secure ex_outs))"
      "snd (fst (cname_collect new_Msg Secure ex_outs))" "snd (cname_collect new_Msg Secure ex_outs)"]
  have "content (fst (cname_collect new_Msg Secure (rev ex_outs))) = content (fst (cname_collect new_Msg Secure ex_outs))"
    by simp
  moreover have "snd (fst (cname_collect new_Msg Secure ex_outs)) = Insecure" by code_simp
  ultimately show ?thesis by simp
qed

end
