(* ===== verification/Finalise.thy ===== *)
theory Finalise
  imports Cname
begin

text \<open>
  The end of a resolution, \<open>finaliseResponse\<close> of \<open>resolver_exchange.go\<close>: the verdict of the
  authenticator, the TTLs it allows, the aliases, and what is removed from the message.
\<close>

section \<open>Operations\<close>

text \<open>The loops over the records of a section, with the map that remembers the TTL of a type.\<close>

definition cap_ttl :: "u32 \<times> bool \<Rightarrow> RR \<Rightarrow> RR" where
  "cap_ttl v rr = (if snd v then rr\<lparr>Header := (Header rr)\<lparr>hTtl := min (fst v) (rr_ttl rr)\<rparr>\<rparr> else rr)"

fun cap_loop :: "(u16 \<Rightarrow> u32 \<times> bool) \<Rightarrow> (u16 \<times> u32 \<times> bool) list \<Rightarrow> RR list \<Rightarrow> RR list" where
  "cap_loop ttl_of ttls [] = []"
| "cap_loop ttl_of ttls (rr # rrs) =
     (case map_of ttls (rr_type rr) of
        Some v \<Rightarrow> cap_ttl v rr # cap_loop ttl_of ttls rrs
      | None \<Rightarrow>
          let v = ttl_of (rr_type rr)
          in cap_ttl v rr # cap_loop ttl_of ((rr_type rr, v) # ttls) rrs)"

definition authenticate_response :: "'w env \<Rightarrow> 'w rstate \<Rightarrow> authenticator \<Rightarrow> Response \<Rightarrow> Msg \<Rightarrow> (Response \<times> Msg) option" where
  "authenticate_response E s a response msg = do {
     (a1, auth, doe, err) \<leftarrow> auth_result E s a;
     let r = response\<lparr>r_Auth := auth, r_Doe := doe, r_Err := err\<rparr>;
     Some (r, if auth = Secure
              then msg\<lparr>mAnswer := cap_loop (resultTTLAnswer E a1) [] (mAnswer msg), mNs := cap_loop (resultTTLAuthority E a1) [] (mNs msg)\<rparr>
              else msg)
   }"

definition first_OPT :: "RR list \<Rightarrow> RR list" where
  "first_OPT extra = (case extractRecords as_OPT extra of [] \<Rightarrow> [] | opt # _ \<Rightarrow> [opt])"

definition trim_sections :: "config \<Rightarrow> Msg \<Rightarrow> Msg" where
  "trim_sections cfg m =
     (let positive = (\<lambda>m. length (mAnswer m) > 0 \<and> \<not> recordsOfTypeExist (mNs m) TypeSOA);
          m1 = (if RemoveAuthoritySectionForPositiveAnswers cfg \<and> positive m then m\<lparr>mNs := []\<rparr> else m)
      in if RemoveAdditionalSectionForPositiveAnswers cfg \<and> positive m1 then m1\<lparr>mExtra := first_OPT (mExtra m1)\<rparr> else m1)"

definition dedup_sections :: "dnslib \<Rightarrow> Msg \<Rightarrow> Msg" where
  "dedup_sections L m =
     m\<lparr>mAnswer := (if length (mAnswer m) > 0 then Dedup L (mAnswer m) else mAnswer m),
       mNs := (if length (mNs m) > 0 then Dedup L (mNs m) else mNs m),
       mExtra := (if length (mExtra m) > 0 then Dedup L (mExtra m) else mExtra m)\<rparr>"

text \<open>The flags and sections of an authenticated response.\<close>

definition mark_authenticated :: "config \<Rightarrow> Msg \<Rightarrow> AuthenticationResult \<Rightarrow> Msg \<Rightarrow> Msg" where
  "mark_authenticated cfg qmsg auth m =
     (if mCheckingDisabled qmsg then m
      else
        let m1 = m\<lparr>mAuthenticatedData := (auth = Secure)\<rparr>
        in if auth = Bogus then
             let m2 = m1\<lparr>mRcode := RcodeServerFailure\<rparr>
             in if SuppressBogusResponseSections cfg then m2\<lparr>mAnswer := [], mNs := [], mExtra := []\<rparr> else m2
           else m1)"

definition finaliseResponse :: "'w env \<Rightarrow> 'w exch \<Rightarrow> 'w rstate \<Rightarrow> authenticator option \<Rightarrow> Msg \<Rightarrow> Response \<Rightarrow> ('w rstate \<times> Response) option" where
  "finaliseResponse E ex s auth qmsg response = do {
     msg0 \<leftarrow> r_Msg response;
     (r1, msg1) \<leftarrow> (case auth of None \<Rightarrow> Some (response, msg0) | Some a \<Rightarrow> authenticate_response E s a response msg0);
     q \<leftarrow> at (mQuestion qmsg) 0;
     (s2, (msg2, auth2), err) \<leftarrow>
       (if qQtype q \<noteq> TypeCNAME \<and> recordsOfTypeExist (mAnswer msg1) TypeCNAME
        then cname E ex s qmsg msg1 (r_Auth r1) else Some (s, (msg1, r_Auth r1), None));
     (case err of
        Some e \<Rightarrow> Some (s2, newResponseError e)
      | None \<Rightarrow>
          let r2 = r1\<lparr>r_Auth := auth2,
                r_Err := (if \<not> (mRcode msg2 = RcodeSuccess \<or> mRcode msg2 = RcodeNameError) then Some (Errorf []) else r_Err r1)\<rparr>;
              msg3 = dedup_sections (E_lib E) (trim_sections (E_cfg E) msg2);
              msg4 = (if auth = None then msg3 else mark_authenticated (E_cfg E) qmsg auth2 msg3)
          in Some (s2, r2\<lparr>r_Msg := Some msg4, r_Duration := now_ns E s2 - started s2\<rparr>))
   }"

section \<open>The TTLs of an authenticated answer\<close>

text \<open>The loop with the map is a plain map over the records.\<close>

lemma cap_loop_map:
  assumes "\<And>t v. map_of ttls t = Some v \<Longrightarrow> v = ttl_of t"
  shows "cap_loop ttl_of ttls rrs = map (\<lambda>rr. cap_ttl (ttl_of (rr_type rr)) rr) rrs"
  using assms
proof (induction rrs arbitrary: ttls)
  case (Cons rr rrs)
  show ?case
  proof (cases "map_of ttls (rr_type rr)")
    case None
    have "cap_loop ttl_of ((rr_type rr, ttl_of (rr_type rr)) # ttls) rrs = map (\<lambda>rr. cap_ttl (ttl_of (rr_type rr)) rr) rrs"
      by (rule Cons.IH) (use Cons.prems in \<open>auto split: if_splits\<close>)
    with None show ?thesis by (simp add: Let_def)
  next
    case (Some v)
    with Cons show ?thesis by simp
  qed
qed simp

lemma cap_loop_fresh: "cap_loop ttl_of [] rrs = map (\<lambda>rr. cap_ttl (ttl_of (rr_type rr)) rr) rrs"
  by (rule cap_loop_map) simp

lemma cap_ttl_facts [simp]:
  "rr_name (cap_ttl v rr) = rr_name rr" "rr_type (cap_ttl v rr) = rr_type rr" "Rdata (cap_ttl v rr) = Rdata rr"
  "rr_ttl (cap_ttl v rr) \<le> rr_ttl rr" "snd v \<Longrightarrow> rr_ttl (cap_ttl v rr) \<le> fst v"
  by (simp_all add: cap_ttl_def)

section \<open>The state of the resolver\<close>

lemma finaliseResponse_agree:
  assumes "agree c ex1 ex2" "c \<le> session s"
  shows "same_run c (finaliseResponse E ex1 s auth qmsg response) (finaliseResponse E ex2 s auth qmsg response)"
  unfolding finaliseResponse_def Let_def using assms
  by (auto intro!: same_run_plain same_run_bind [OF cname_agree] same_run_Some split: option.split if_split)

context onward_exchanger
begin

lemma finaliseResponse_grows: "grows L s (finaliseResponse E ex s auth qmsg response)"
proof -
  have follow: "grows L s (if b then cname E ex s qmsg msg au else Some (s, (msg, au), None))" for b msg au
    by (simp add: cname_grows grown_refl)
  show ?thesis
    unfolding finaliseResponse_def Let_def case_prod_beta
    by (rule grows_plain, rule grows_plain, rule grows_plain, rule grows_bind [OF follow])
      (simp add: grown_refl split: option.split)
qed

end

lemma finaliseResponse_usable:
  "holds (\<lambda>y. usable (snd y)) (finaliseResponse E ex s auth qmsg response)"
  unfolding finaliseResponse_def Let_def
  by (auto simp: holds_def usable_def newResponseError_def split: Option.bind_splits option.splits)

section \<open>What the client of an authenticated response may rely on\<close>

text \<open>The steps of a finalised response, with the values between them.\<close>

lemma finaliseResponse_steps:
  assumes "finaliseResponse E ex s (Some a) qmsg response = Some (s', r)" "r_Msg r = Some m"
  obtains msg0 a1 auth doe err msg1 s2 msg2 where "r_Msg response = Some msg0"
    "auth_result E s a = Some (a1, auth, doe, err)"
    "msg1 = (if auth = Secure then msg0\<lparr>mAnswer := cap_loop (resultTTLAnswer E a1) [] (mAnswer msg0),
       mNs := cap_loop (resultTTLAuthority E a1) [] (mNs msg0)\<rparr> else msg0)"
    "(s2, (msg2, r_Auth r), None) = (s', (msg1, auth), None) \<or> cname E ex s qmsg msg1 auth = Some (s2, (msg2, r_Auth r), None)"
    "recordsOfTypeExist (mAnswer msg1) TypeCNAME \<or> msg2 = msg1 \<and> r_Auth r = auth"
    "m = mark_authenticated (E_cfg E) qmsg (r_Auth r) (dedup_sections (E_lib E) (trim_sections (E_cfg E) msg2))"
proof -
  from assms(1) obtain msg0 where m0: "r_Msg response = Some msg0"
    by (auto simp: finaliseResponse_def split: Option.bind_splits)
  with assms(1) obtain r1 msg1 where a: "authenticate_response E s a response msg0 = Some (r1, msg1)"
    by (auto simp: finaliseResponse_def split: Option.bind_splits)
  then obtain a1 auth doe err where v: "auth_result E s a = Some (a1, auth, doe, err)"
    and r1: "r1 = response\<lparr>r_Auth := auth, r_Doe := doe, r_Err := err\<rparr>"
    and msg1: "msg1 = (if auth = Secure then msg0\<lparr>mAnswer := cap_loop (resultTTLAnswer E a1) [] (mAnswer msg0),
       mNs := cap_loop (resultTTLAuthority E a1) [] (mNs msg0)\<rparr> else msg0)"
    by (auto simp: authenticate_response_def Let_def split: Option.bind_splits)
  from assms(1) m0 a obtain q s2 msg2 auth2 e where q: "at (mQuestion qmsg) 0 = Some q"
    and follow: "(if qQtype q \<noteq> TypeCNAME \<and> recordsOfTypeExist (mAnswer msg1) TypeCNAME
        then cname E ex s qmsg msg1 (r_Auth r1) else Some (s, (msg1, r_Auth r1), None)) = Some (s2, (msg2, auth2), e)"
    by (auto simp: finaliseResponse_def split: Option.bind_splits)
  from assms m0 a q follow have e: "e = None"
    by (cases e) (auto simp: finaliseResponse_def newResponseError_def new_Response_def)
  with assms m0 a q follow have fin: "s' = s2" "r_Auth r = auth2"
      "m = mark_authenticated (E_cfg E) qmsg auth2 (dedup_sections (E_lib E) (trim_sections (E_cfg E) msg2))"
    by (auto simp: finaliseResponse_def Let_def)
  show thesis
    by (rule that [OF m0 v msg1, of s2 msg2]) (use follow e fin r1 in \<open>auto split: if_splits\<close>)
qed

lemma cname_secure:
  "cname E ex s qmsg msg auth = Some (s', (m, Secure), e) \<Longrightarrow> auth = Secure"
proof -
  assume "cname E ex s qmsg msg auth = Some (s', (m, Secure), e)"
  then obtain outs where "foldl merge_cname (msg, auth) (cname_responses outs) = (m, Secure)"
    by (auto simp: cname_def cname_collect_def split: Option.bind_splits)
  moreover from merge_content [of "(msg, auth)" "cname_responses outs"]
  have "snd (foldl merge_cname (msg, auth) (cname_responses outs)) = foldl Combine auth (map snd (cname_responses outs))"
    by (simp add: content_def)
  ultimately have "foldl Combine auth (map snd (cname_responses outs)) = Secure" by simp
  then show "auth = Secure" by (simp add: foldl_Combine_Secure)
qed

lemma finaliseResponse_flag:
  assumes "finaliseResponse E ex s (Some a) qmsg response = Some (s', r)" "r_Msg r = Some m" "\<not> mCheckingDisabled qmsg"
  shows "(mAuthenticatedData m \<longleftrightarrow> r_Auth r = Secure) \<and>
    (mAuthenticatedData m \<longrightarrow> (\<exists>a' doe err. auth_result E s a = Some (a', Secure, doe, err))) \<and>
    (r_Auth r = Bogus \<longrightarrow> mRcode m = RcodeServerFailure \<and>
       (SuppressBogusResponseSections (E_cfg E) \<longrightarrow> mAnswer m = [] \<and> mNs m = [] \<and> mExtra m = []))"
proof -
  from assms(1,2) obtain a1 auth doe err msg1 s2 msg2 where v: "auth_result E s a = Some (a1, auth, doe, err)"
    and f: "(s2, (msg2, r_Auth r), None) = (s', (msg1, auth), None) \<or> cname E ex s qmsg msg1 auth = Some (s2, (msg2, r_Auth r), None)"
    and m: "m = mark_authenticated (E_cfg E) qmsg (r_Auth r) (dedup_sections (E_lib E) (trim_sections (E_cfg E) msg2))"
    by (rule finaliseResponse_steps) blast
  have "auth = Secure" if "r_Auth r = Secure"
    using f that cname_secure [of E ex s qmsg msg1 auth s2 msg2 None] by auto
  with v m assms(3) show ?thesis by (simp add: mark_authenticated_def Let_def)
qed

text \<open>
  C6: what the flag and the code of an answer to a validating query mean. Unless checking is
  disabled, the authenticated-data flag is set exactly when the state of the response is \<open>Secure\<close>, and
  then the authenticator's own verdict was \<open>Secure\<close>, whatever the aliases gave; a \<open>Bogus\<close> response is a
  server failure and, under the default setting, carries no record.
\<close>

theorem finaliseResponse_marks:
  assumes "finaliseResponse E ex s (Some a) qmsg response = Some (s', r)" "r_Msg r = Some m" "\<not> mCheckingDisabled qmsg"
  shows "(mAuthenticatedData m \<longleftrightarrow> r_Auth r = Secure) \<and>
    (mAuthenticatedData m \<longrightarrow> (\<exists>a' doe err. auth_result E s a = Some (a', Secure, doe, err))) \<and>
    (r_Auth r = Bogus \<longrightarrow> mRcode m = RcodeServerFailure \<and>
       (SuppressBogusResponseSections (E_cfg E) \<longrightarrow> mAnswer m = [] \<and> mNs m = [] \<and> mExtra m = []))"
  by (rule finaliseResponse_flag [OF assms])

text \<open>
  \<open>Dedup\<close> keeps one of several identical records, with the lowest of their TTLs.
\<close>

definition dedup_laws :: "dnslib \<Rightarrow> bool" where
  "dedup_laws L \<longleftrightarrow> (\<forall>rrs. \<forall>rr \<in> set (Dedup L rrs). \<exists>rr' \<in> set rrs. rr_type rr' = rr_type rr \<and> rr_ttl rr \<le> rr_ttl rr')"

text \<open>Whether a record is within the time its type is authenticated for.\<close>

definition within :: "(u16 \<Rightarrow> u32 \<times> bool) \<Rightarrow> RR \<Rightarrow> bool" where
  "within ttl_of rr \<longleftrightarrow> (\<not> snd (ttl_of (rr_type rr)) \<or> rr_ttl rr \<le> fst (ttl_of (rr_type rr)))"

lemma cap_loop_within: "list_all (within ttl_of) (cap_loop ttl_of [] rrs)"
  by (simp add: cap_loop_fresh list_all_iff within_def)

lemma dedup_within:
  assumes "dedup_laws L" "list_all (within ttl_of) rrs"
  shows "list_all (within ttl_of) (Dedup L rrs)"
  unfolding list_all_iff
proof
  fix rr assume "rr \<in> set (Dedup L rrs)"
  with assms(1) obtain rr' where "rr' \<in> set rrs" "rr_type rr' = rr_type rr" "rr_ttl rr \<le> rr_ttl rr'"
    unfolding dedup_laws_def by blast
  with assms(2) show "within ttl_of rr" by (force simp: list_all_iff within_def)
qed

lemma recordsOfTypeExist_cap: "recordsOfTypeExist (cap_loop ttl_of [] rrs) t = recordsOfTypeExist rrs t"
  by (simp add: cap_loop_fresh recordsOfTypeExist_iff)


section \<open>The properties at a signed answer\<close>

definition ex_secure_env :: "nat env" where
  "ex_secure_env = (ex_env (\<lambda>_ _ m. m))\<lparr>E_lib := sig_lib, E_dnssec := ex_cfg\<lparr>RootTrustAnchors := [ex_ds 2]\<rparr>, E_clock := (\<lambda>_. 900000000000)\<rparr>"

definition ex_auth :: authenticator where
  "ex_auth = \<lparr>w_auth = the (ex_chain [ex_ds 2] [ex_input]), w_errors = [], w_finished = False\<rparr>"

definition ex_response :: Response where
  "ex_response = new_Response\<lparr>r_Msg := Some (ex_msg ''w.e.'' ex_answer)\<rparr>"

definition ex_final :: "(nat rstate \<times> Response) option" where
  "ex_final = finaliseResponse ex_secure_env (\<lambda>_ _. None) ex_state (Some ex_auth) (ex_msg ''w.e.'' []) ex_response"

definition final_summary :: "('w rstate \<times> Response) option \<Rightarrow> (AuthenticationResult \<times> bool \<times> u32 list) option" where
  "final_summary x = do { (s, r) \<leftarrow> x; m \<leftarrow> r_Msg r; Some (r_Auth r, mAuthenticatedData m, map rr_ttl (mAnswer m)) }"

lemma ex_final_summary: "final_summary ex_final = Some (Secure, True, [100, 300])"
  by code_simp

theorem finaliseResponse_marks_witness:
  "\<exists>s r m. ex_final = Some (s, r) \<and> r_Msg r = Some m \<and> r_Auth r = Secure \<and> mAuthenticatedData m \<and>
     (\<exists>a' doe err. auth_result ex_secure_env ex_state ex_auth = Some (a', Secure, doe, err))"
proof -
  from ex_final_summary obtain s r m where f: "ex_final = Some (s, r)" "r_Msg r = Some m" "r_Auth r = Secure"
    by (auto simp: final_summary_def split: Option.bind_splits)
  have cd: "\<not> mCheckingDisabled (ex_msg ''w.e.'' [])" by code_simp
  from finaliseResponse_marks [OF f(1) [unfolded ex_final_def] f(2) cd] f show ?thesis by blast
qed

lemma dedup_laws_plain: "dedup_laws sig_lib"
  unfolding dedup_laws_def by (auto simp: sig_lib_def plain_lib_def)


end
