(* ===== verification/Resolver.thy ===== *)
theory Resolver
  imports Finalise
begin

text \<open>
  The resolver: \<open>resolver.go\<close> and \<open>resolver_exchange.go\<close>. A query walks down the labels of its
  name and asks the zone it has reached, until a response is not a delegation. The resolver calls
  itself for the addresses of nameservers and for aliases; \<open>exchange_with\<close> is one call, with the
  exchanger it hands on as an argument, and \<open>exchange\<close> closes the recursion. The context of a
  request is in the state; log messages and traces are left out.
\<close>

section \<open>One call\<close>

text \<open>The loop that picks the owner of the deepest record below the zone.\<close>

fun next_owner :: "dnslib \<Rightarrow> string \<Rightarrow> string \<Rightarrow> RR list \<Rightarrow> string" where
  "next_owner L zn nextRecordsOwner [] = nextRecordsOwner"
| "next_owner L zn nextRecordsOwner (record # rest) =
     (let option = rr_name record
      in next_owner L zn (if nextRecordsOwner \<noteq> option \<and> IsSubDomain L zn option \<and> CountLabel L option > CountLabel L nextRecordsOwner
           then option else nextRecordsOwner) rest)"

text \<open>A step for the authenticator, where the query has one.\<close>

definition on_auth :: "('w rstate \<Rightarrow> authenticator \<Rightarrow> ('w rstate \<times> authenticator) option) \<Rightarrow> 'w rstate \<Rightarrow> authenticator option
    \<Rightarrow> ('w rstate \<times> authenticator option) option" where
  "on_auth f s auth = (case auth of None \<Rightarrow> Some (s, None) | Some a \<Rightarrow> map_option (\<lambda>(s1, a1). (s1, Some a1)) (f s a))"

text \<open>One round of the loop over the missing domains: the zone to go on with.\<close>

definition missing_step :: "'w env \<Rightarrow> 'w rstate \<Rightarrow> nat \<Rightarrow> authenticator option \<Rightarrow> string \<Rightarrow> ('w rstate \<times> nat \<times> authenticator option) option" where
  "missing_step E s z auth missingDomain = do {
     (s1, soa, err) \<leftarrow> zone_soa E s z missingDomain;
     if err = None \<and> soa \<noteq> None then do {
       (s2, newZone) \<leftarrow> clone E s1 z missingDomain (zname s1 z);
       (s3, auth3) \<leftarrow> on_auth (\<lambda>s a. addDelegationSignerLink E s a z (zname s newZone)) s2 auth;
       Some (zones_add E s3 newZone, newZone, auth3)
     } else Some (s1, z, auth)
   }"

fun missing_loop :: "'w env \<Rightarrow> 'w rstate \<Rightarrow> domain \<Rightarrow> nat \<Rightarrow> authenticator option \<Rightarrow> string list
    \<Rightarrow> ('w rstate \<times> domain \<times> nat \<times> authenticator option) option" where
  "missing_loop E s d z auth [] = Some (s, d, z, auth)"
| "missing_loop E s d z auth (missingDomain # rest) = do {
     (s2, z2, auth2) \<leftarrow> missing_step E s z auth missingDomain;
     missing_loop E s2 (d_next d) z2 auth2 rest
   }"

definition checkForMissingZones :: "'w env \<Rightarrow> 'w rstate \<Rightarrow> domain \<Rightarrow> nat \<Rightarrow> Msg \<Rightarrow> authenticator option
    \<Rightarrow> ('w rstate \<times> domain \<times> nat \<times> authenticator option) option" where
  "checkForMissingZones E s d z rmsg auth =
     (let records = mNs rmsg @ mAnswer rmsg
      in if length records = 0 then Some (s, d, z, auth)
         else
           let nextRecordsOwner = next_owner (E_lib E) (zname s z) ''.'' records
           in if nextRecordsOwner = ''.'' then Some (s, d, z, auth)
              else do {
                missingZoneNames \<leftarrow> d_gap (E_lib E) d nextRecordsOwner;
                missing_loop E s d z auth missingZoneNames
              })"

definition processDelegation :: "'w env \<Rightarrow> 'w exch \<Rightarrow> 'w rstate \<Rightarrow> nat \<Rightarrow> Msg \<Rightarrow> ('w rstate \<times> nat option \<times> Response option) option" where
  "processDelegation E ex s z rmsg =
     (let L = E_lib E; nameservers = extractRecords as_NS (mNs rmsg)
      in case nameservers of
           [] \<Rightarrow> Some (s, None, Some (newResponseError (Errorf [RErr ErrNextNameserversNotFound])))
         | (h, _) # _ \<Rightarrow>
             let nextZoneName = CanonicalName L (hName h)
             in if nextZoneName = zname s z \<or> \<not> IsSubDomain L (zname s z) nextZoneName
                then Some (s, None, Some (newResponseError (Errorf [RErr ErrNextNameserversNotFound])))
                else do {
                  (s1, res) \<leftarrow> createZone E ex s nextZoneName (zname s z) nameservers (mExtra rmsg);
                  Some (case res of
                      Inl e \<Rightarrow> (s1, None, Some (newResponseError e))
                    | Inr newZone \<Rightarrow> (zones_add E s1 newZone, Some newZone, None))
                })"

definition is_delegation :: "Msg \<Rightarrow> bool" where
  "is_delegation rmsg \<longleftrightarrow> length (mAnswer rmsg) = 0 \<and> recordsOfTypeExist (mNs rmsg) TypeNS \<and> \<not> recordsOfTypeExist (mNs rmsg) TypeSOA"

text \<open>The result: the walker and the authenticator as they are left, the next zone and the response.\<close>

type_synonym 'w label_step = "'w rstate \<times> domain \<times> authenticator option \<times> nat option \<times> Response option"

definition resolveLabel :: "'w env \<Rightarrow> 'w exch \<Rightarrow> 'w rstate \<Rightarrow> domain \<Rightarrow> nat option \<Rightarrow> Msg \<Rightarrow> authenticator option \<Rightarrow> 'w label_step option" where
  "resolveLabel E ex s d zp qmsg auth =
     (case zp of
        None \<Rightarrow> Some (s, d, auth, None, Some (newResponseError (Errorf [RErr ErrInternalError])))
      | Some z \<Rightarrow> do {
          (s1, _) \<leftarrow> on_auth (\<lambda>s a. map_option (\<lambda>(s1, _). (s1, a)) (zone_dnskeys E s z)) s auth;
          (s2, response) \<leftarrow> zone_exchange E s1 z qmsg;
          if r_Err response \<noteq> None then Some (s2, d, auth, None, Some response)
          else (case r_Msg response of
             None \<Rightarrow> Some (s2, d, auth, None, Some (newResponseError (Errorf [RErr ErrEmptyResponse])))
           | Some rmsg \<Rightarrow> do {
               (s3, d1, z1, auth1) \<leftarrow> checkForMissingZones E s2 d z rmsg auth;
               (s4, auth2) \<leftarrow> on_auth (\<lambda>s a. addResponse E s a z1 rmsg) s3 auth1;
               if is_delegation rmsg then do {
                 (s5, nextz, r) \<leftarrow> processDelegation E ex s4 z1 rmsg;
                 Some (s5, d1, auth2, nextz, r)
               }
               else do {
                 (s5, r) \<leftarrow> finaliseResponse E ex s4 auth2 qmsg response;
                 Some (s5, d1, auth2, None, Some r)
               }
             })
        })"

text \<open>The walker only moves forward.\<close>

definition ahead :: "domain \<Rightarrow> domain \<Rightarrow> bool" where
  "ahead d d' \<longleftrightarrow> (\<exists>k. d' = (d_next ^^ k) d)"

lemma ahead_refl [simp]: "ahead d d"
  unfolding ahead_def by (rule exI [of _ 0]) simp

lemma ahead_next: "ahead (d_next d) d' \<Longrightarrow> ahead d d'"
  unfolding ahead_def by (metis comp_apply funpow_Suc_right)

lemma ahead_facts: "ahead d d' \<Longrightarrow> labelIndexes d' = labelIndexes d \<and> currentIdx d \<le> currentIdx d'"
proof -
  have "labelIndexes ((d_next ^^ k) d) = labelIndexes d" for k by (induction k) (simp_all add: d_next_def)
  then show "ahead d d' \<Longrightarrow> ?thesis" by (auto simp: ahead_def)
qed

lemma missing_loop_ahead: "missing_loop E s d z auth ns = Some (s', d', z', auth') \<Longrightarrow> ahead d d'"
  by (induction ns arbitrary: s d z auth) (auto intro: ahead_next split: Option.bind_splits)

lemma checkForMissingZones_ahead: "checkForMissingZones E s d z rmsg auth = Some (s', d', z', auth') \<Longrightarrow> ahead d d'"
  by (auto simp: checkForMissingZones_def Let_def intro: missing_loop_ahead split: if_splits Option.bind_splits)

lemma resolveLabel_ahead: "resolveLabel E ex s d zp qmsg auth = Some (s', d', auth', zp', r) \<Longrightarrow> ahead d d'"
  by (auto simp: resolveLabel_def split: option.splits if_splits Option.bind_splits) (erule checkForMissingZones_ahead)+

text \<open>The main loop of \<open>exchange\<close>.\<close>

function label_loop :: "'w env \<Rightarrow> 'w exch \<Rightarrow> Msg \<Rightarrow> 'w rstate \<Rightarrow> domain \<Rightarrow> nat option \<Rightarrow> authenticator option \<Rightarrow> ('w rstate \<times> Response) option" where
  "label_loop E ex qmsg s d zp auth =
     (if \<not> d_more d then Some (s, newResponseError (RErr ErrUnableToResolveAnswer))
      else
        let s1 = s\<lparr>session := Suc (session s)\<rparr>
        in if session s1 > unat (MaxQueriesPerRequest (E_cfg E))
           then Some (s1, newResponseError (Errorf [RErr ErrMaxQueriesPerRequestReached]))
           else
             (case d_current d of
                None \<Rightarrow> None
              | Some c \<Rightarrow>
                  (case zones_get E s1 c of
                     None \<Rightarrow> None
                   | Some known_zone \<Rightarrow>
                       if known_zone \<noteq> None \<and> \<not> d_last d then label_loop E ex qmsg s1 (d_next d) known_zone auth
                       else
                         (case resolveLabel E ex s1 d zp qmsg auth of
                            None \<Rightarrow> None
                          | Some (s2, d2, auth2, nextz, Some r) \<Rightarrow> Some (s2, r)
                          | Some (s2, d2, auth2, nextz, None) \<Rightarrow> label_loop E ex qmsg s2 (d_next d2) nextz auth2))))"
  by pat_completeness auto
termination
proof (relation "measure (\<lambda>(E, ex, qmsg, s, d, zp, auth). Suc (length (labelIndexes d)) - currentIdx d)", goal_cases)
  case (3 E ex qmsg s d zp auth s1 c known_zone x s2 p d2 q auth2 q' nextz r)
  then have "ahead d d2" using resolveLabel_ahead by (metis prod.exhaust)
  with ahead_facts [OF this] 3(1) show ?case by (auto simp: d_more_def d_next_def)
qed (auto simp: d_more_def d_next_def)

declare label_loop.simps [simp del]

text \<open>The cases of a round of the loop.\<close>

definition counted :: "'w rstate \<Rightarrow> 'w rstate" where
  "counted s = s\<lparr>session := Suc (session s)\<rparr>"

lemma counted_session [simp]: "session (counted s) = Suc (session s)"
  by (simp add: counted_def)

lemma label_loop_end: "\<not> d_more d \<Longrightarrow> label_loop E ex qmsg s d zp auth = Some (s, newResponseError (RErr ErrUnableToResolveAnswer))"
  by (simp add: label_loop.simps)

lemma label_loop_limit:
  "d_more d \<Longrightarrow> unat (MaxQueriesPerRequest (E_cfg E)) \<le> session s \<Longrightarrow>
    label_loop E ex qmsg s d zp auth = Some (counted s, newResponseError (Errorf [RErr ErrMaxQueriesPerRequestReached]))"
  by (simp add: label_loop.simps [of E ex qmsg s] counted_def)

lemma label_loop_round:
  assumes "d_more d" "session s < unat (MaxQueriesPerRequest (E_cfg E))"
  shows "label_loop E ex qmsg s d zp auth = do {
     c \<leftarrow> d_current d;
     known_zone \<leftarrow> zones_get E (counted s) c;
     if known_zone \<noteq> None \<and> \<not> d_last d then label_loop E ex qmsg (counted s) (d_next d) known_zone auth
     else do {
       (s2, d2, auth2, nextz, response) \<leftarrow> resolveLabel E ex (counted s) d zp qmsg auth;
       (case response of
          Some r \<Rightarrow> Some (s2, r)
        | None \<Rightarrow> label_loop E ex qmsg s2 (d_next d2) nextz auth2)
     }
   }"
  using assms
  by (subst label_loop.simps) (simp add: counted_def [symmetric] split: option.split Option.bind_split prod.split)

text \<open>The rounds as an induction rule.\<close>

lemma label_loop_rounds [case_names stop limit round]:
  assumes stop: "\<And>s d zp auth. \<not> d_more d \<Longrightarrow> P s d zp auth"
    and limit: "\<And>s d zp auth. d_more d \<Longrightarrow> unat (MaxQueriesPerRequest (E_cfg E)) \<le> session s \<Longrightarrow> P s d zp auth"
    and round: "\<And>s d zp auth. d_more d \<Longrightarrow> session s < unat (MaxQueriesPerRequest (E_cfg E)) \<Longrightarrow>
      (\<And>t d' zp' auth'. labelIndexes d' = labelIndexes d \<Longrightarrow> currentIdx d < currentIdx d' \<Longrightarrow> P t d' zp' auth') \<Longrightarrow> P s d zp auth"
  shows "P s d zp auth"
proof (induction "Suc (length (labelIndexes d)) - currentIdx d" arbitrary: s d zp auth rule: less_induct)
  case less
  consider "\<not> d_more d" | "d_more d" "unat (MaxQueriesPerRequest (E_cfg E)) \<le> session s"
    | "d_more d" "session s < unat (MaxQueriesPerRequest (E_cfg E))" by linarith
  then show ?case
  proof cases
    case 3
    then show ?thesis
      by (rule round) (rule less, use 3(1) in \<open>simp add: d_more_def\<close>)
  qed (use stop limit in auto)
qed

text \<open>The links between the known zones, for the authenticator.\<close>

fun link_loop :: "'w env \<Rightarrow> 'w rstate \<Rightarrow> authenticator \<Rightarrow> nat list \<Rightarrow> ('w rstate \<times> authenticator) option" where
  "link_loop E s a (c # p # rest) = do {
     (s1, a1) \<leftarrow> addDelegationSignerLink E s a p (zname s c);
     link_loop E s1 a1 (p # rest)
   }"
| "link_loop E s a zs = Some (s, a)"

definition exchange_with :: "'w env \<Rightarrow> 'w exch \<Rightarrow> 'w exch" where
  "exchange_with E ex s qmsg = do {
     q \<leftarrow> at (mQuestion qmsg) 0;
     knownZones \<leftarrow> getZoneList E s (qName q);
     (s1, auth) \<leftarrow> on_auth (\<lambda>s a. link_loop E s a knownZones) s
       (if isSetDO (E_lib E) qmsg then Some (newAuthenticator E q) else None);
     z0 \<leftarrow> at knownZones 0;
     (d, err) \<leftarrow> windTo (E_lib E) (zname s1 z0) (newDomain (E_lib E) (qName q));
     (case err of
        Some e \<Rightarrow> Some (s1, newResponseError e)
      | None \<Rightarrow> label_loop E ex qmsg s1 d (Some z0) auth)
   }"

section \<open>The recursion\<close>

text \<open>Calls nested at most \<open>n\<close> deep, with another exchanger underneath.\<close>

fun exchange_upto :: "'w env \<Rightarrow> 'w exch \<Rightarrow> nat \<Rightarrow> 'w exch" where
  "exchange_upto E base 0 = base"
| "exchange_upto E base (Suc n) = exchange_with E (exchange_upto E base n)"

text \<open>
  The resolver itself. The depth is one more than the iterations allowed for a request; the
  properties below show that no call is ever nested deeper.
\<close>

definition exchange :: "'w env \<Rightarrow> 'w exch" where
  "exchange E = exchange_upto E (\<lambda>_ _. None) (Suc (unat (MaxQueriesPerRequest (E_cfg E))))"

definition Exchange :: "'w env \<Rightarrow> 'w exch" where
  "Exchange E s qmsg =
     (if \<not> mRecursionDesired qmsg then Some (s, newResponseError (RErr ErrNotRecursionDesired))
      else do {
        (s1, r) \<leftarrow> exchange E (s\<lparr>session := 0, started := now_ns E s\<rparr>) qmsg;
        Some (s1, case r_Msg r of None \<Rightarrow> r | Some m \<Rightarrow> r\<lparr>r_Msg := Some (m\<lparr>mRecursionAvailable := True\<rparr>)\<rparr>)
      })"

text \<open>
  A new resolver. The records of the root hints (\<open>root.go\<close>) are read by the library's zone parser:
  they and the parser's error are arguments.
\<close>

fun root_loop :: "dnslib \<Rightarrow> nameserverPool \<Rightarrow> RR list \<Rightarrow> nameserverPool" where
  "root_loop L pool [] = pool"
| "root_loop L pool (rr # rest) =
     (case Rdata rr of
        A_R ip \<Rightarrow> root_loop L (pool\<lparr>ipv4 := ipv4 pool @ [\<lparr>hostname = CanonicalName L (rr_name rr), addr = ip\<rparr>]\<rparr>) rest
      | AAAA_R ip \<Rightarrow> root_loop L (pool\<lparr>ipv6 := ipv6 pool @ [\<lparr>hostname = CanonicalName L (rr_name rr), addr = ip\<rparr>]\<rparr>) rest
      | _ \<Rightarrow> root_loop L pool rest)"

definition buildRootServerPool :: "dnslib \<Rightarrow> RR list \<Rightarrow> error option \<Rightarrow> error + nameserverPool" where
  "buildRootServerPool L rrs err = (case err of Some e \<Rightarrow> Inl e | None \<Rightarrow> Inr (updateIPCount (root_loop L new_pool rrs)))"

definition NewResolver :: "'w env \<Rightarrow> RR list \<Rightarrow> error option \<Rightarrow> DNSCache option \<Rightarrow> 'w \<Rightarrow> 'w rstate option" where
  "NewResolver E rrs err cache w =
     (case buildRootServerPool (E_lib E) rrs err of
        Inl e \<Rightarrow> None
      | Inr pool \<Rightarrow>
          let z = \<lparr>zoneName = ''.'', parentName = [], z_pool = Some 0, z_calls = 0, dnskeyRecords = [], dnskeyExpiry = None\<rparr>
          in Some (zones_add E \<lparr>pools = (\<lambda>_. pool), next_pool = 1, zobjs = (\<lambda>_. z), next_zone = 1, zmap = None, rcache = cache,
               session = 0, started = 0, world = w\<rparr> 0))"

definition CountZones :: "'w rstate \<Rightarrow> nat" where
  "CountZones s = zones_count s"

section \<open>How deep calls nest\<close>

lemma clone_steady: "steady s (clone E s z n parent)"
  by (simp add: clone_def Let_def)

lemma on_auth_steady: "(\<And>a. steady s (f s a)) \<Longrightarrow> steady s (on_auth f s auth)"
  by (fastforce simp: on_auth_def steady_def holds_def split: option.split)

lemma missing_step_steady: "steady s (missing_step E s z auth n)"
  unfolding missing_step_def
  by (auto intro!: steady_bind steady_quietly [OF zone_steps_quiet(2)] clone_steady on_auth_steady
      steady_quietly [OF addDelegationSignerLink_quiet])

lemma missing_loop_steady: "steady s (missing_loop E s d z auth ns)"
proof (induction ns arbitrary: s d z auth)
  case (Cons n ns)
  show ?case unfolding missing_loop.simps
    by (rule steady_bind [OF missing_step_steady]) (auto intro: Cons.IH)
qed simp

lemma checkForMissingZones_steady: "steady s (checkForMissingZones E s d z rmsg auth)"
  unfolding checkForMissingZones_def Let_def by (auto intro: steady_plain missing_loop_steady)

lemma processDelegation_agree:
  assumes "agree c ex1 ex2" "c \<le> session s"
  shows "same_run c (processDelegation E ex1 s z rmsg) (processDelegation E ex2 s z rmsg)"
  unfolding processDelegation_def Let_def using assms
  by (auto intro!: same_run_bind [OF createZone_agree] same_run_Some split: list.split sum.split)

lemma resolveLabel_agree:
  assumes "agree c ex1 ex2" "c \<le> session s"
  shows "same_run c (resolveLabel E ex1 s d zp qmsg auth) (resolveLabel E ex2 s d zp qmsg auth)"
proof -
  have keys: "same_run c (on_auth (\<lambda>s a. map_option (\<lambda>(s1, _). (s1, a)) (zone_dnskeys E s z)) t auth)
      (on_auth (\<lambda>s a. map_option (\<lambda>(s1, _). (s1, a)) (zone_dnskeys E s z)) t auth)" if "c \<le> session t" for t z
    by (rule same_run_steady [OF on_auth_steady that])
      (use steady_quietly [OF zone_steps_quiet(3), of t E z] in \<open>auto simp: steady_def holds_def\<close>)
  have add: "same_run c (on_auth (\<lambda>s a. addResponse E s a z m) t au) (on_auth (\<lambda>s a. addResponse E s a z m) t au)"
    if "c \<le> session t" for t z m au
    by (rule same_run_steady [OF on_auth_steady that]) (rule steady_quietly [OF addResponse_quiet])
  show ?thesis
    unfolding resolveLabel_def using assms
    by (auto intro!: same_run_Some same_run_bind [OF keys] same_run_bind [OF zone_steps_same(1)] same_run_bind [OF add]
        same_run_bind [OF same_run_steady [OF checkForMissingZones_steady]] same_run_bind [OF processDelegation_agree]
        same_run_bind [OF finaliseResponse_agree] split: option.split)
qed

lemma same_run_weaken: "same_run (Suc c) x y \<Longrightarrow> same_run c x y"
  unfolding same_run_def by (blast dest: Suc_leD)

text \<open>A call hands on its exchanger only after it has counted, and not at all once the limit is reached.\<close>

lemma label_loop_agree:
  assumes ag: "agree (Suc c) ex1 ex2 \<or> unat (MaxQueriesPerRequest (E_cfg E)) \<le> c" and "c \<le> session s"
  shows "same_run c (label_loop E ex1 qmsg s d zp auth) (label_loop E ex2 qmsg s d zp auth)"
  using assms(2)
proof (induction s d zp auth rule: label_loop_rounds [where E = E])
  case (round s d zp auth)
  then have ag': "agree (Suc c) ex1 ex2" using ag by auto
  have step: "same_run c (label_loop E ex1 qmsg t d' zp' auth') (label_loop E ex2 qmsg t d' zp' auth')"
    if "labelIndexes d' = labelIndexes d" "currentIdx d < currentIdx d'" "c \<le> session t" for t d' zp' auth'
    by (rule round.IH [OF that(1,2)]) (rule that(3))
  have ask: "same_run c (resolveLabel E ex1 (counted s) d zp qmsg auth) (resolveLabel E ex2 (counted s) d zp qmsg auth)"
    by (rule same_run_weaken [OF resolveLabel_agree [OF ag']]) (use round.prems in simp)
  have next_label: "labelIndexes (d_next d) = labelIndexes d" "currentIdx d < currentIdx (d_next d)" by (simp_all add: d_next_def)
  have later: "labelIndexes (d_next d2) = labelIndexes d" "currentIdx d < currentIdx (d_next d2)"
    if "resolveLabel E ex2 (counted s) d zp qmsg auth = Some (s2, d2, auth2, nextz, r)" for s2 d2 auth2 nextz r
    using ahead_facts [OF resolveLabel_ahead [OF that]] by (simp_all add: d_next_def)
  show ?case
    unfolding label_loop_round [OF round.hyps]
    by (rule same_run_plain, rule same_run_plain, rule same_run_if, rule step [OF next_label],
        use round.prems in simp, rule same_run_bind [OF ask])
      (auto intro!: step later same_run_Some split: option.split)
qed (simp_all add: label_loop_end label_loop_limit run_intros)

lemma link_loop_quiet: "quietly s (link_loop E s a zs)"
proof (induction E s a zs rule: link_loop.induct)
  case (1 E s a c p rest)
  show ?case unfolding link_loop.simps
    by (rule quietly_bind [OF addDelegationSignerLink_quiet]) (use 1 in auto)
qed simp_all

lemma exchange_with_agree:
  assumes "agree (Suc c) ex1 ex2 \<or> unat (MaxQueriesPerRequest (E_cfg E)) \<le> c" "c \<le> session s"
  shows "same_run c (exchange_with E ex1 s m) (exchange_with E ex2 s m)"
proof -
  have link: "same_run c (on_auth (\<lambda>s a. link_loop E s a kz) s auth) (on_auth (\<lambda>s a. link_loop E s a kz) s auth)" for kz auth
    by (rule same_run_steady [OF on_auth_steady assms(2)]) (rule steady_quietly [OF link_loop_quiet])
  show ?thesis
    unfolding exchange_with_def
    by (rule same_run_plain, rule same_run_plain, rule same_run_bind [OF link], unfold prod.case)
      (auto intro!: same_run_plain same_run_Some label_loop_agree [OF assms(1)] split: option.split)
qed

lemma exchange_upto_agree:
  "unat (MaxQueriesPerRequest (E_cfg E)) < c + n \<Longrightarrow> 0 < n \<Longrightarrow> agree c (exchange_upto E b1 n) (exchange_upto E b2 n)"
proof (induction n arbitrary: c)
  case (Suc k)
  have "same_run c' (exchange_upto E b1 (Suc k) s m) (exchange_upto E b2 (Suc k) s m)" if "c \<le> c'" "c' \<le> session s" for c' s m
    unfolding exchange_upto.simps
    by (rule exchange_with_agree [OF _ that(2)]) (use Suc that(1) in \<open>cases k; auto\<close>)
  then show ?case by (auto simp: agree_def)
qed simp

lemma exchange_upto_limit:
  assumes "unat (MaxQueriesPerRequest (E_cfg E)) < n"
  shows "exchange_upto E b1 n = exchange_upto E b2 n"
proof (intro ext)
  fix s m
  from assms have "agree 0 (exchange_upto E b1 n) (exchange_upto E b2 n)" by (intro exchange_upto_agree) simp_all
  then show "exchange_upto E b1 n s m = exchange_upto E b2 n s m"
    using agree_run [of 0 _ _ s m] by (simp add: same_run_def)
qed

lemma exchange_upto_add: "exchange_upto E base (n + k) = exchange_upto E (exchange_upto E base k) n"
  by (induction n) simp_all


section \<open>The invariant\<close>

text \<open>A sound state that has grown out of another, with a zone in it to go on with.\<close>

definition zone_at :: "dnslib \<Rightarrow> 'w rstate \<Rightarrow> 'w rstate \<Rightarrow> nat \<Rightarrow> bool" where
  "zone_at L s t z \<longleftrightarrow> grown L s t \<and> z < next_zone t"

lemma zone_at_refl: "resolver_ok L s \<Longrightarrow> z < next_zone s \<Longrightarrow> zone_at L s s z"
  by (simp add: zone_at_def grown_refl)

lemma zone_at_trans: "zone_at L s t z \<Longrightarrow> zone_at L t u z' \<Longrightarrow> zone_at L s u z'"
  using grown_trans by (auto simp: zone_at_def)

lemma grown_zone: "grown L t u \<Longrightarrow> z < next_zone t \<Longrightarrow> z < next_zone u"
  by (simp add: grown_def extends_def)

lemma zone_at_grown: "zone_at L s t z \<Longrightarrow> grown L t u \<Longrightarrow> zone_at L s u z"
  using grown_trans grown_zone by (auto simp: zone_at_def)

lemma zone_at_quiet: "zone_at L s t z \<Longrightarrow> quiet t u \<Longrightarrow> zone_at L s u z"
  by (rule zone_at_grown) (auto simp: zone_at_def grown_def intro: resolver_ok_quiet quiet_extends)

lemma zone_at_ok: "zone_at L s t z \<Longrightarrow> resolver_ok L t \<and> z < next_zone t"
  by (simp add: zone_at_def grown_def)

lemma below_not_root:
  assumes "root_laws L" "CanonicalName L n \<noteq> CanonicalName L p" "IsSubDomain L p n"
  shows "CanonicalName L n \<noteq> ''.''"
  using assms unfolding root_laws_def by auto

lemma zones_add_at:
  assumes "zone_at (E_lib E) s t z" "zname t z \<noteq> ''.''" "CanonicalName (E_lib E) (zname t z) = zname t z"
  shows "zone_at (E_lib E) s (zones_add E t z) z"
proof (rule zone_at_grown [OF assms(1)])
  from zone_at_ok [OF assms(1)] have "resolver_ok (E_lib E) t" "z < next_zone t" by simp_all
  with resolver_ok_add [OF this assms(2,3)] show "grown (E_lib E) t (zones_add E t z)" by (simp add: grown_def)
qed

lemma clone_at:
  assumes ok: "resolver_ok (E_lib E) s" and z: "z < next_zone s" and c: "clone E s z n parent = Some (s', nz)"
  shows "zone_at (E_lib E) s s' nz \<and> zname s' nz = CanonicalName (E_lib E) n \<and> CanonicalName (E_lib E) n \<noteq> ''.''"
proof -
  let ?L = "E_lib E"
  let ?v = "\<lparr>zoneName = CanonicalName ?L n, parentName = CanonicalName ?L parent,
    z_pool = z_pool (zobjs s z), z_calls = 0, dnskeyRecords = [], dnskeyExpiry = None\<rparr>"
  from c have guard: "CanonicalName ?L n \<noteq> CanonicalName ?L parent" "IsSubDomain ?L parent n"
    and new: "new_zone ?v s = (s', nz)" by (auto simp: clone_def Let_def split: if_splits)
  from ok z obtain p where p: "z_pool (zobjs s z) = Some p" "p < next_pool s" "has_server (pools s p)"
    by (auto simp: resolver_ok_def zone_sound_def)
  from new_zone_grown [OF ok, of ?v p] p new have g: "grown ?L s s'" by simp
  from new have "nz < next_zone s'" "zname s' nz = CanonicalName ?L n" by (auto simp: new_zone_def)
  moreover have "CanonicalName ?L n \<noteq> ''.''"
    using below_not_root [OF _ guard] ok by (simp add: resolver_ok_def)
  ultimately show ?thesis using g by (simp add: zone_at_def)
qed

lemma on_auth_quiet: "(\<And>a. quietly s (f s a)) \<Longrightarrow> quietly s (on_auth f s auth)"
  by (fastforce simp: on_auth_def quietly_def holds_def split: option.split)

lemma missing_step_at:
  assumes "resolver_ok (E_lib E) s" "z < next_zone s" "missing_step E s z auth n = Some (s', z', auth')"
  shows "zone_at (E_lib E) s s' z'"
proof -
  let ?L = "E_lib E"
  from assms(3) obtain s1 soa err where soa: "zone_soa E s z n = Some (s1, soa, err)"
    and rest: "(if err = None \<and> soa \<noteq> None then do {
       (s2, newZone) \<leftarrow> clone E s1 z n (zname s1 z);
       (s3, auth3) \<leftarrow> on_auth (\<lambda>s a. addDelegationSignerLink E s a z (zname s newZone)) s2 auth;
       Some (zones_add E s3 newZone, newZone, auth3)
     } else Some (s1, z, auth)) = Some (s', z', auth')"
    by (auto simp: missing_step_def split: Option.bind_splits)
  have 1: "zone_at ?L s s1 z"
    by (rule zone_at_quiet [OF zone_at_refl [OF assms(1,2)] quietlyD [OF zone_steps_quiet(2) soa]])
  show ?thesis
  proof (cases "err = None \<and> soa \<noteq> None")
    case True
    with rest obtain s2 nz s3 auth3 where c: "clone E s1 z n (zname s1 z) = Some (s2, nz)"
      and a: "on_auth (\<lambda>s a. addDelegationSignerLink E s a z (zname s nz)) s2 auth = Some (s3, auth3)"
      and s': "s' = zones_add E s3 nz" "z' = nz"
      by (auto split: Option.bind_splits)
    from clone_at [OF _ _ c] zone_at_ok [OF 1] have 2: "zone_at ?L s1 s2 nz" "zname s2 nz = CanonicalName ?L n" "CanonicalName ?L n \<noteq> ''.''"
      by simp_all
    have q: "quiet s2 s3" by (rule quietlyD [OF on_auth_quiet [OF addDelegationSignerLink_quiet] a])
    then have "zname s3 nz = CanonicalName ?L n" using 2(2) by (simp add: quiet_def same_zone_def)
    moreover have "CanonicalName ?L (CanonicalName ?L n) = CanonicalName ?L n"
      using assms(1) by (simp add: resolver_ok_def root_laws_def)
    ultimately show ?thesis
      unfolding s' using zones_add_at [OF zone_at_quiet [OF zone_at_trans [OF 1 2(1)] q]] 2(3) by simp
  next
    case False
    from rest [unfolded if_not_P [OF False]] 1 show ?thesis by simp
  qed
qed

lemma missing_loop_at:
  assumes "resolver_ok (E_lib E) s" "z < next_zone s" "missing_loop E s d z auth ns = Some (s', d', z', auth')"
  shows "zone_at (E_lib E) s s' z'"
  using assms
proof (induction ns arbitrary: s d z auth)
  case (Cons n ns)
  from Cons.prems(3) obtain s2 z2 auth2 where step: "missing_step E s z auth n = Some (s2, z2, auth2)"
    and rest: "missing_loop E s2 (d_next d) z2 auth2 ns = Some (s', d', z', auth')" by (auto split: Option.bind_splits)
  from missing_step_at [OF Cons.prems(1,2) step] have 1: "zone_at (E_lib E) s s2 z2" .
  with Cons.IH [OF _ _ rest] zone_at_ok [OF 1] show ?case using zone_at_trans [OF 1] by simp
qed (simp add: zone_at_refl)

lemma checkForMissingZones_at:
  assumes "resolver_ok (E_lib E) s" "z < next_zone s" "checkForMissingZones E s d z rmsg auth = Some (s', d', z', auth')"
  shows "zone_at (E_lib E) s s' z'"
  using assms missing_loop_at [OF assms(1,2)] zone_at_refl [OF assms(1,2)]
  by (auto simp: checkForMissingZones_def Let_def split: if_splits Option.bind_splits)

text \<open>The next zone of a step, if there is one.\<close>

definition next_at :: "dnslib \<Rightarrow> 'w rstate \<Rightarrow> 'w rstate \<Rightarrow> nat option \<Rightarrow> bool" where
  "next_at L s t zp \<longleftrightarrow> grown L s t \<and> (case zp of None \<Rightarrow> True | Some z \<Rightarrow> z < next_zone t)"

lemma next_at_None: "grown L s t \<Longrightarrow> next_at L s t None"
  by (simp add: next_at_def)

lemma next_at_Some: "zone_at L s t z \<Longrightarrow> next_at L s t (Some z)"
  by (simp add: next_at_def zone_at_def)

lemma next_at_trans: "grown L s t \<Longrightarrow> next_at L t u zp \<Longrightarrow> next_at L s u zp"
  using grown_trans by (auto simp: next_at_def)

lemma processDelegation_cases:
  assumes "processDelegation E ex s z rmsg = Some (s', zp, r)"
  obtains (stop) e where "(s', zp, r) = (s, None, Some (newResponseError e))"
  | (zone) n s1 res where "IsSubDomain (E_lib E) (zname s z) n"
      "createZone E ex s n (zname s z) (extractRecords as_NS (mNs rmsg)) (mExtra rmsg) = Some (s1, res)"
      "(s', zp, r) = (case res of Inl e \<Rightarrow> (s1, None, Some (newResponseError e)) | Inr nz \<Rightarrow> (zones_add E s1 nz, Some nz, None))"
proof (cases "extractRecords as_NS (mNs rmsg)")
  case Nil
  with assms show thesis by (intro stop [of "Errorf [RErr ErrNextNameserversNotFound]"]) (simp add: processDelegation_def)
next
  case (Cons x xs)
  obtain h ns where x: "x = (h, ns)" by (cases x)
  let ?n = "CanonicalName (E_lib E) (hName h)"
  show thesis
  proof (cases "?n = zname s z \<or> \<not> IsSubDomain (E_lib E) (zname s z) ?n")
    case True
    with assms Cons x show thesis by (intro stop [of "Errorf [RErr ErrNextNameserversNotFound]"]) (simp add: processDelegation_def Let_def)
  next
    case False
    from assms Cons x have "do { (s1, res) \<leftarrow> createZone E ex s ?n (zname s z) (extractRecords as_NS (mNs rmsg)) (mExtra rmsg);
        Some (case res of Inl e \<Rightarrow> (s1, None, Some (newResponseError e)) | Inr nz \<Rightarrow> (zones_add E s1 nz, Some nz, None)) } = Some (s', zp, r)"
      unfolding processDelegation_def Let_def by (simp only: list.case prod.case if_not_P [OF False])
    then obtain s1 res where "createZone E ex s ?n (zname s z) (extractRecords as_NS (mNs rmsg)) (mExtra rmsg) = Some (s1, res)"
      "(case res of Inl e \<Rightarrow> (s1, None, Some (newResponseError e)) | Inr nz \<Rightarrow> (zones_add E s1 nz, Some nz, None)) = (s', zp, r)"
      by (auto simp: Option.bind_eq_Some_conv)
    with False show thesis by (intro zone) auto
  qed
qed

context onward_exchanger
begin

lemma processDelegation_at:
  assumes E: "E_lib E = L" and ok: "resolver_ok L s" and d: "processDelegation E ex s z rmsg = Some (s', zp, r)"
  shows "next_at L s s' zp \<and> (\<forall>x. r = Some x \<longrightarrow> usable x)"
  using d
proof (cases rule: processDelegation_cases)
  case (stop e)
  then show ?thesis using ok by (simp add: next_at_None grown_refl)
next
  case (zone n s1 res)
  note c = zone(2) and res = zone(3)
  from holdsD [OF createZone_keeps [OF ok E] c] have m: "made s n (zname s z) (s1, res)" .
  show ?thesis
  proof (cases res)
    case (Inl e)
    with res m show ?thesis by (simp add: made_def next_at_None)
  next
    case (Inr nz)
    with m have at: "zone_at L s s1 nz" and name: "zname s1 nz = CanonicalName L n"
      and sub: "CanonicalName L n \<noteq> CanonicalName L (zname s z)" "IsSubDomain L (CanonicalName L (zname s z)) (CanonicalName L n)"
      by (auto simp: made_def zone_at_def)
    from ok have laws: "root_laws L" by (simp add: resolver_ok_def)
    then have idem: "CanonicalName L (CanonicalName L t) = CanonicalName L t" for t by (simp add: root_laws_def)
    from below_not_root [OF laws, of "CanonicalName L n" "CanonicalName L (zname s z)"] sub
    have "CanonicalName L n \<noteq> ''.''" by (simp add: idem)
    with zones_add_at [of E s s1 nz] at name E idem Inr res show ?thesis by (auto intro: next_at_Some)
  qed
qed

lemma resolveLabel_at:
  assumes E: "E_lib E = L" and ok: "resolver_ok L s" and z: "case zp of None \<Rightarrow> True | Some z \<Rightarrow> z < next_zone s"
    and run: "resolveLabel E ex s d zp qmsg auth = Some (s', d', auth', zp', r)"
  shows "next_at L s s' zp' \<and> (\<forall>x. r = Some x \<longrightarrow> usable x)"
proof (cases zp)
  case None
  with run ok show ?thesis by (auto simp: resolveLabel_def intro: next_at_None grown_refl)
next
  case (Some z)
  let ?keys = "\<lambda>s a. map_option (\<lambda>(s1, _). (s1, a)) (zone_dnskeys E s z)"
  from run Some obtain s1 u s2 response where k: "on_auth ?keys s auth = Some (s1, u)"
    and x: "zone_exchange E s1 z qmsg = Some (s2, response)"
    by (auto simp: resolveLabel_def split: Option.bind_splits)
  have "quietly s (?keys s a)" for a using zone_steps_quiet(3) [of s E z] by (auto simp: quietly_def holds_def)
  then have "quietly s (on_auth ?keys s auth)" by (rule on_auth_quiet)
  from quietlyD [OF this k] have q1: "quiet s s1" .
  from quietlyD [OF zone_steps_quiet(1) x] quiet_trans [OF q1] have q2: "quiet s s2" by blast
  have 2: "zone_at L s s2 z" using zone_at_quiet [OF zone_at_refl [OF ok] q2] z Some by simp
  then have g2: "grown L s s2" by (simp add: zone_at_def)
  show ?thesis
  proof (cases "r_Err response = None \<and> r_Msg response \<noteq> None")
    case False
    with run Some k x have "s' = s2 \<and> zp' = None \<and> (\<exists>e. r = Some e \<and> (e = response \<and> r_Err response \<noteq> None \<or> usable e))"
      by (auto simp: resolveLabel_def split: if_splits option.splits)
    with g2 show ?thesis by (auto simp: next_at_None usable_def)
  next
    case True
    then obtain rmsg where rmsg: "r_Msg response = Some rmsg" "r_Err response = None" by auto
    with run Some k x obtain s3 d1 z1 auth1 s4 auth2 where
      c: "checkForMissingZones E s2 d z rmsg auth = Some (s3, d1, z1, auth1)"
      and a: "on_auth (\<lambda>s a. addResponse E s a z1 rmsg) s3 auth1 = Some (s4, auth2)"
      by (auto simp: resolveLabel_def split: Option.bind_splits)
    from checkForMissingZones_at [OF _ _ c] zone_at_ok [OF 2] E have "zone_at L s2 s3 z1" by simp
    from zone_at_trans [OF 2 this] have 3: "zone_at L s s3 z1" .
    have q: "quiet s3 s4" by (rule quietlyD [OF on_auth_quiet [OF addResponse_quiet] a])
    from zone_at_quiet [OF 3 q] have 4: "zone_at L s s4 z1" .
    then have ok4: "resolver_ok L s4" and g4: "grown L s s4" by (simp_all add: zone_at_def grown_def)
    show ?thesis
    proof (cases "is_delegation rmsg")
      case True
      with run Some k x rmsg c a have "processDelegation E ex s4 z1 rmsg = Some (s', zp', r)"
        by (auto simp: resolveLabel_def split: Option.bind_splits)
      from processDelegation_at [OF E ok4 this] next_at_trans [OF g4] show ?thesis by blast
    next
      case False
      with run Some k x rmsg c a obtain y where f: "finaliseResponse E ex s4 auth2 qmsg response = Some (s', y)"
        and r: "zp' = None" "r = Some y"
        by (auto simp: resolveLabel_def split: Option.bind_splits)
      from finaliseResponse_grows [of s4 E auth2 qmsg response] f ok4 have "grown L s4 s'" by (simp add: grows_def)
      with grown_trans [OF g4] holdsD [OF finaliseResponse_usable f] r show ?thesis by (simp add: next_at_None)
    qed
  qed
qed

end

lemma known_zone_bound:
  assumes "resolver_ok L s" "z \<in> snd ` set (known s)"
  shows "z < next_zone s"
  using assms by (auto simp: resolver_ok_def list_all_iff entry_sound_def)

lemma zones_get_bound:
  assumes "resolver_ok L s" "zones_get E s n = Some (Some z)"
  shows "z < next_zone s"
proof (rule known_zone_bound [OF assms(1)])
  from assms(2) show "z \<in> snd ` set (known s)"
    by (force simp: zones_get_def known_def split: option.splits Option.bind_splits if_splits dest: map_of_SomeD)
qed

lemma zone_list_loop_set:
  "zone_list_loop E s zs name lastz result idxs = Some zl \<Longrightarrow> set zl \<subseteq> set result \<union> snd ` set zs"
proof (induction idxs arbitrary: lastz result)
  case (Cons i js)
  from Cons.prems obtain n where n: "slice_from name i = Some n" by (auto split: Option.bind_splits)
  show ?case
  proof (cases "map_of zs n")
    case None
    with Cons n show ?thesis by simp
  next
    case (Some z)
    then have mem: "z \<in> snd ` set zs" by (force dest: map_of_SomeD)
    from Cons.prems n Some obtain ex where ex: "zone_expired E s z = Some ex" by (auto split: Option.bind_splits)
    have add: "set zl \<subseteq> set result \<union> snd ` set zs" if "zone_list_loop E s zs name (Some z) (result @ [z]) js = Some zl"
      using Cons.IH [OF that] mem by auto
    show ?thesis
    proof (cases ex)
      case True
      with Cons n Some ex show ?thesis by simp
    next
      case False
      with Cons.prems n Some ex add show ?thesis by (cases lastz) (simp_all split: if_splits)
    qed
  qed
qed simp

lemma getZoneList_bound:
  assumes "resolver_ok L s" "getZoneList E s name = Some zl" "z \<in> set zl"
  shows "z < next_zone s"
proof (rule known_zone_bound [OF assms(1)])
  from assms(2,3) show "z \<in> snd ` set (known s)"
    by (auto simp: getZoneList_def known_def Let_def simp del: zone_list_loop.simps rev_append
        split: option.splits dest!: zone_list_loop_set)
qed

lemma counted_grown: "resolver_ok L s \<Longrightarrow> grown L s (counted s)"
proof -
  have "extends s (counted s)" "zmap (counted s) = zmap s" "next_zone (counted s) = next_zone s"
    by (simp_all add: counted_def extends_def)
  then show "resolver_ok L s \<Longrightarrow> grown L s (counted s)"
    using resolver_ok_extends [of s "counted s" L] by (simp add: grown_def)
qed

context onward_exchanger
begin

lemma label_loop_keeps:
  assumes E: "E_lib E = L" and "resolver_ok L s" "case zp of None \<Rightarrow> True | Some z \<Rightarrow> z < next_zone s"
    and "label_loop E ex qmsg s d zp auth = Some (s', r)"
  shows "grown L s s' \<and> usable r"
  using assms(2-)
proof (induction s d zp auth rule: label_loop_rounds [where E = E])
  case (stop s d zp auth)
  then show ?case by (auto simp: label_loop_end grown_refl)
next
  case (limit s d zp auth)
  then show ?case by (auto simp: label_loop_limit counted_grown)
next
  case (round s d zp auth)
  let ?s1 = "counted s"
  from counted_grown [OF round.prems(1)] have g1: "grown L s ?s1" .
  then have ok1: "resolver_ok L ?s1" by (simp add: grown_def)
  from round.prems(3) [unfolded label_loop_round [OF round.hyps]] obtain c kz where get: "zones_get E ?s1 c = Some kz"
    and rest: "(if kz \<noteq> None \<and> \<not> d_last d then label_loop E ex qmsg ?s1 (d_next d) kz auth
     else do {
       (s2, d2, auth2, nextz, response) \<leftarrow> resolveLabel E ex ?s1 d zp qmsg auth;
       (case response of Some r \<Rightarrow> Some (s2, r) | None \<Rightarrow> label_loop E ex qmsg s2 (d_next d2) nextz auth2)
     }) = Some (s', r)"
    by (auto simp: Option.bind_eq_Some_conv)
  show ?case
  proof (cases "kz \<noteq> None \<and> \<not> d_last d")
    case True
    then obtain z where z: "kz = Some z" by auto
    have "grown L ?s1 s' \<and> usable r"
    proof (rule round.IH)
      show "label_loop E ex qmsg ?s1 (d_next d) (Some z) auth = Some (s', r)" using rest [unfolded if_P [OF True]] z by simp
      show "case Some z of None \<Rightarrow> True | Some z \<Rightarrow> z < next_zone ?s1" using zones_get_bound [OF ok1] get z by simp
    qed (simp_all add: d_next_def ok1)
    then show ?thesis using grown_trans [OF g1] by blast
  next
    case False
    from rest [unfolded if_not_P [OF False]] obtain s2 d2 auth2 nextz response where
      ask: "resolveLabel E ex ?s1 d zp qmsg auth = Some (s2, d2, auth2, nextz, response)"
      and go: "(case response of Some r \<Rightarrow> Some (s2, r) | None \<Rightarrow> label_loop E ex qmsg s2 (d_next d2) nextz auth2) = Some (s', r)"
      by (auto simp: Option.bind_eq_Some_conv)
    have z1: "case zp of None \<Rightarrow> True | Some z \<Rightarrow> z < next_zone ?s1"
      using round.prems(2) by (simp add: counted_def split: option.splits)
    from resolveLabel_at [OF E ok1 z1 ask] have n: "next_at L ?s1 s2 nextz" and u: "\<And>x. response = Some x \<Longrightarrow> usable x" by auto
    then have g2: "grown L s s2" using grown_trans [OF g1] by (simp add: next_at_def)
    show ?thesis
    proof (cases response)
      case (Some x)
      with go g2 u show ?thesis by auto
    next
      case None
      have "grown L s2 s' \<and> usable r"
      proof (rule round.IH)
        show "label_loop E ex qmsg s2 (d_next d2) nextz auth2 = Some (s', r)" using go None by simp
      qed (use ahead_facts [OF resolveLabel_ahead [OF ask]] n in \<open>auto simp: d_next_def next_at_def grown_def\<close>)
      then show ?thesis using grown_trans [OF g2] by blast
    qed
  qed
qed

lemma exchange_with_keeps:
  assumes E: "E_lib E = L" and ok: "resolver_ok L s" and run: "exchange_with E ex s m = Some (s', r)"
  shows "grown L s s' \<and> usable r"
proof -
  from run obtain q kz s1 auth z0 d err where list: "getZoneList E s (qName q) = Some kz"
    and link: "on_auth (\<lambda>s a. link_loop E s a kz) s (if isSetDO (E_lib E) m then Some (newAuthenticator E q) else None) = Some (s1, auth)"
    and z0: "at kz 0 = Some z0"
    and rest: "(case err of Some e \<Rightarrow> Some (s1, newResponseError e) | None \<Rightarrow> label_loop E ex m s1 d (Some z0) auth) = Some (s', r)"
    by (auto simp: exchange_with_def Option.bind_eq_Some_conv)
  have "quietly s (on_auth (\<lambda>s a. link_loop E s a kz) s au)" for au by (rule on_auth_quiet) (rule link_loop_quiet)
  from quietlyD [OF this link] have q: "quiet s s1" .
  have g1: "grown L s s1" by (rule grown_quiet [OF ok q])
  have "z0 < next_zone s" using getZoneList_bound [OF ok list] z0 by (auto simp: at_Some_iff)
  then have z1: "case Some z0 of None \<Rightarrow> True | Some z \<Rightarrow> z < next_zone s1" using q by (simp add: quiet_def)
  show ?thesis
  proof (cases err)
    case None
    with rest label_loop_keeps [OF E _ z1, of m d auth s' r] g1 show ?thesis
      using grown_trans [OF g1] by (auto simp: grown_def)
  qed (use rest g1 in auto)
qed

end

lemma exchange_upto_keeps: "onward_exchanger (E_lib E) (exchange_upto E (\<lambda>_ _. None) n)"
proof (induction n)
  case (Suc n)
  show ?case
    by unfold_locales (use onward_exchanger.exchange_with_keeps [OF Suc refl] in simp)
qed (unfold_locales, simp)

interpretation resolver: onward_exchanger "E_lib E" "exchange E" for E
  unfolding exchange_def by (rule exchange_upto_keeps)

section \<open>Every state of a resolver\<close>

text \<open>
  The states of a resolver in use: a new one, and after a query from a client. What may happen
  between two queries is only that the outside world changes.
\<close>

inductive resolver_reachable :: "'w env \<Rightarrow> RR list \<Rightarrow> 'w rstate \<Rightarrow> bool" for E rrs where
  new: "NewResolver E rrs err cache w = Some s \<Longrightarrow> resolver_reachable E rrs s"
| query: "resolver_reachable E rrs s \<Longrightarrow> Exchange E s qmsg = Some (s', r) \<Longrightarrow> resolver_reachable E rrs s'"
| world: "resolver_reachable E rrs s \<Longrightarrow> resolver_reachable E rrs (s\<lparr>world := w\<rparr>)"

definition is_root_server :: "RR \<Rightarrow> bool" where
  "is_root_server rr \<longleftrightarrow> (case Rdata rr of A_R _ \<Rightarrow> True | AAAA_R _ \<Rightarrow> True | _ \<Rightarrow> False)"

lemma root_loop_facts:
  "expires (root_loop L pool rrs) = expires pool \<and>
   (has_server (root_loop L pool rrs) \<longleftrightarrow> has_server pool \<or> list_ex is_root_server rrs)"
  by (induction rrs arbitrary: pool) (auto simp: has_server_def is_root_server_def split: rdata.split)

lemma NewResolver_ok:
  assumes "NewResolver E rrs err cache w = Some s" "root_laws (E_lib E)" "list_ex is_root_server rrs"
  shows "resolver_ok (E_lib E) s"
proof -
  let ?L = "E_lib E"
  let ?pool = "updateIPCount (root_loop ?L new_pool rrs)"
  let ?z = "\<lparr>zoneName = ''.'', parentName = [], z_pool = Some 0, z_calls = 0, dnskeyRecords = [], dnskeyExpiry = None\<rparr>"
  from assms(1) have s: "s = zones_add E \<lparr>pools = (\<lambda>_. ?pool), next_pool = 1, zobjs = (\<lambda>_. ?z), next_zone = 1, zmap = None,
      rcache = cache, session = 0, started = 0, world = w\<rparr> 0"
    by (simp add: NewResolver_def buildRootServerPool_def Let_def split: option.splits)
  from assms(2) have root: "CanonicalName ?L ''.'' = ''.''" by (simp add: root_laws_def)
  have "has_server ?pool" "expires ?pool = 0"
    using root_loop_facts [of ?L new_pool rrs] assms(3) by (simp_all add: updateIPCount_def has_server_def new_pool_def)
  with root assms(2) show ?thesis
    unfolding s resolver_ok_def zones_add_def Let_def
    by (simp add: zone_sound_def entry_sound_def root_known_def known_def)
qed

lemma Exchange_keeps:
  assumes "resolver_ok (E_lib E) s" "Exchange E s qmsg = Some (s', r)"
  shows "resolver_ok (E_lib E) s' \<and> usable r"
proof (cases "mRecursionDesired qmsg")
  case False
  with assms show ?thesis by (auto simp: Exchange_def)
next
  case True
  let ?s0 = "s\<lparr>session := 0, started := now_ns E s\<rparr>"
  have "resolver_ok (E_lib E) ?s0"
    using assms(1) unfolding resolver_ok_def zone_sound_def entry_sound_def root_known_def known_def by (simp add: list_all_iff)
  moreover from True assms(2) obtain r1 where "exchange E ?s0 qmsg = Some (s', r1)"
    and "r = (case r_Msg r1 of None \<Rightarrow> r1 | Some m \<Rightarrow> r1\<lparr>r_Msg := Some (m\<lparr>mRecursionAvailable := True\<rparr>)\<rparr>)"
    by (auto simp: Exchange_def split: Option.bind_splits)
  ultimately show ?thesis
    using resolver.keeps [of E ?s0 qmsg s' r1] by (auto simp: grown_def usable_def split: option.split)
qed

lemma reachable_ok:
  assumes "resolver_reachable E rrs s" "root_laws (E_lib E)" "list_ex is_root_server rrs"
  shows "resolver_ok (E_lib E) s"
  using assms(1)
proof (induction rule: resolver_reachable.induct)
  case (new err cache w s)
  then show ?case by (rule NewResolver_ok [OF _ assms(2,3)])
next
  case (query s qmsg s' r)
  then show ?case using Exchange_keeps by blast
next
  case (world s w)
  show ?case by (rule resolver_ok_quiet [OF quiet_world world.IH])
qed

lemma resolver_ok_store:
  assumes "resolver_ok L s"
  shows "store_ok s" and "named s"
proof -
  from assms have "z_pool (zobjs s (snd e)) \<noteq> None \<and> zname s (snd e) = fst e" if "e \<in> set (known s)" for e
    using that by (auto simp: resolver_ok_def list_all_iff entry_sound_def zone_sound_def)
  then show "store_ok s" and "named s" by (auto simp: store_ok_def named_def list_all_iff)
qed

lemma root_live:
  assumes "resolver_ok L s"
  obtains r where "live_in E s (known s) ''.'' = Some r"
proof -
  from assms obtain r p where "map_of (known s) ''.'' = Some r" "z_pool (zobjs s r) = Some p" "expires (pools s p) \<le> 0"
    by (auto simp: resolver_ok_def root_known_def)
  then have "live_in E s (known s) ''.'' = Some r"
    by (simp add: live_in_def live_def zone_expired_def pool_expired_def)
  then show thesis by (rule that)
qed

lemma getZoneList_nonempty:
  assumes ok: "resolver_ok (E_lib E) s" and laws: "name_laws (E_lib E) name"
    and dot: "ancestors (E_lib E) (CanonicalName (E_lib E) name) ! 0 = ''.''"
  shows "\<exists>zl. getZoneList E s name = Some zl \<and> zl \<noteq> [] \<and> list_all (zone_sound s) zl"
proof -
  from root_live [OF ok] obtain r where r: "live_in E s (known s) ''.'' = Some r" .
  then obtain zs where zs: "zmap s = Some zs" by (auto simp: known_def live_in_def split: option.splits)
  let ?p = "zone_path (live_in E s zs) (zname s) (zparent s) None (ancestors (E_lib E) (CanonicalName (E_lib E) name))"
  have list: "getZoneList E s name = Some (rev ?p)"
    by (rule getZoneList_path [OF name_lawsD(1) [OF laws] resolver_ok_store(1) [OF ok] zs])
  obtain ns where ns: "ancestors (E_lib E) (CanonicalName (E_lib E) name) = ''.'' # ns"
    using dot by (simp add: ancestors_def)
  have "live_in E s zs ''.'' = Some r" using r zs by (simp add: known_def)
  then have "?p \<noteq> []" unfolding ns by simp
  moreover have "list_all (zone_sound s) (rev ?p)"
    using getZoneList_bound [OF ok list] ok by (simp add: resolver_ok_def list_all_iff)
  ultimately show ?thesis using list by simp
qed


section \<open>The properties at a concrete resolver\<close>

lemma plain_root_laws: "root_laws plain_lib"
proof -
  have dot: "plain_ancestors ''.'' = [''.'']" "plain_canonical ''.'' = ''.''" by code_simp+
  show ?thesis unfolding root_laws_def plain_lib_simps by (auto simp: plain_canonical_idem dot)
qed

definition ex_hints :: "RR list" where
  "ex_hints = [ex_rr ''.'' TypeNS (NS_R ''a.root.''), ex_rr ''A.root.'' TypeA (A_R ''192.0.2.53'')]"

definition ex_new :: "nat rstate option" where
  "ex_new = NewResolver (ex_env (\<lambda>_ _ m. m)) ex_hints None (Some (new_cache 10000)) 0"


section \<open>A delegation that stops the program\<close>

text \<open>
  A server that answers for the zones above a name can make the resolver panic. Its response
  delegates to \<open>b.c.d.\<close>, three labels at once, and carries another record with a longer, unrelated
  owner, so that the walker does not skip the labels between. The next zone is then below the name
  the walker has reached, and a SOA record for that name leads to the clone of a zone with a child
  above its parent. The same message serves as both responses.
\<close>

definition evil_answer :: "RR list \<Rightarrow> string \<Rightarrow> u16 \<Rightarrow> Msg \<Rightarrow> Msg" where
  "evil_answer extra_rrs n t m =
     (if t = TypeSOA then m\<lparr>mAnswer := [ex_rr n TypeSOA (SOA_R [])]\<rparr>
      else m\<lparr>mNs := ex_rr ''b.c.d.'' TypeNS (NS_R ''ns.d.'') # extra_rrs, mExtra := [ex_rr ''ns.d.'' TypeA (A_R ''192.0.2.66'')]\<rparr>)"

definition evil_env :: "RR list \<Rightarrow> nat env" where
  "evil_env rrs = (ex_env (evil_answer rrs))\<lparr>E_cfg := default_config\<lparr>MaxQueriesPerRequest := 10\<rparr>\<rparr>"

definition evil_query :: Msg where
  "evil_query = new_Msg\<lparr>mRecursionDesired := True, mQuestion := [\<lparr>qName = ''a.b.c.d.'', qQtype = TypeA, qQclass = 1\<rparr>]\<rparr>"

definition returns_with :: "RR list \<Rightarrow> bool option" where
  "returns_with rrs = map_option (\<lambda>s. Exchange (evil_env rrs) s evil_query \<noteq> None) ex_new"

lemma evil_runs: "returns_with [] = Some True" "returns_with [ex_rr ''x.x.x.x.x.'' 16 (Other_R [])] = Some False"
  unfolding returns_with_def by code_simp+

text \<open>Without the unrelated record the resolver answers; with it there is no response.\<close>

theorem delegation_panics:
  "\<exists>s. resolver_reachable (ex_env (\<lambda>_ _ m. m)) ex_hints s \<and> Exchange (evil_env []) s evil_query \<noteq> None \<and>
     Exchange (evil_env [ex_rr ''x.x.x.x.x.'' 16 (Other_R [])]) s evil_query = None"
proof -
  from evil_runs(1) obtain s where s: "ex_new = Some s" by (auto simp: returns_with_def)
  from evil_runs [unfolded returns_with_def s option.map] have "Exchange (evil_env []) s evil_query \<noteq> None"
    "Exchange (evil_env [ex_rr ''x.x.x.x.x.'' 16 (Other_R [])]) s evil_query = None"
    by (simp_all only: option.inject simp_thms)
  with resolver_reachable.new [OF s [unfolded ex_new_def]] show ?thesis by blast
qed

end
