(* ===== verification/Trust.thy ===== *)
theory Trust
  imports Resolver
begin

text \<open>
  From the flag in a client's answer back to the trust anchors. A query with the DO bit gets an
  authenticator, which the resolver feeds with the responses on its way; this theory follows it
  through \<open>resolver_exchange.go\<close>. Whatever the resolver does to it, it is in a state that the calls of
  the \<open>dnssec\<close> package reach, so the package's own guarantee holds for the verdict behind the flag.
  The chain of that verdict is not a statement about the records delivered with the flag, and two
  runs at the end show what is between them: refused responses leave the verdict of the zones above.
\<close>

section \<open>The authenticator of a query\<close>

abbreviation (input) "verifiers E \<equiv> range (verify (E_lib E) (E_dnssec E))"

definition in_use :: "'w env \<Rightarrow> Question \<Rightarrow> authenticator \<Rightarrow> bool" where
  "in_use E q a \<longleftrightarrow> auth_reachable (E_lib E) (anchors_of E) (verifiers E) q (w_auth a)"

lemma in_use_new: "in_use E q (newAuthenticator E q)"
  by (simp add: in_use_def newAuthenticator_def auth_reachable.new)

lemma verifier_among: "verifier_at E s \<in> verifiers E"
  by (simp add: verifier_at_def)

lemma process_input_in_use:
  assumes "in_use E q a"
  shows "holds (\<lambda>y. in_use E q (snd y)) (process_input E s a z msg)"
  unfolding holds_def
proof (intro allI impI)
  fix y assume "process_input E s a z msg = Some y"
  then obtain s1 zn auth err where add: "AddResponse (E_lib E) (anchors_of E) (verifier_at E s1) (w_auth a) zn msg = Some (auth, err)"
    and y: "w_auth (snd y) = auth"
    by (auto simp: process_input_def split: Option.bind_splits)
  from auth_reachable.add [OF assms [unfolded in_use_def] verifier_among add] y
  show "in_use E q (snd y)" by (simp add: in_use_def)
qed

lemma addResponse_in_use: "in_use E q a \<Longrightarrow> holds (\<lambda>y. in_use E q (snd y)) (addResponse E s a z msg)"
  by (simp add: addResponse_def process_input_in_use)

lemma addDelegationSignerLink_in_use:
  "in_use E q a \<Longrightarrow> holds (\<lambda>y. in_use E q (snd y)) (addDelegationSignerLink E s a z n)"
  unfolding addDelegationSignerLink_def
  by (auto intro!: holds_bind [where P = "\<lambda>_. True"] process_input_in_use simp: holds_def [of "\<lambda>_. True"] split: option.split)

lemma link_loop_in_use: "in_use E q a \<Longrightarrow> holds (\<lambda>y. in_use E q (snd y)) (link_loop E s a zs)"
proof (induction E s a zs rule: link_loop.induct)
  case (1 E s a c p rest)
  show ?case unfolding link_loop.simps
    by (rule holds_bind [OF addDelegationSignerLink_in_use [OF 1(2)]]) (use 1(1) in auto)
qed simp_all

text \<open>The same for a query that has an authenticator.\<close>

definition in_use_opt :: "'w env \<Rightarrow> Question \<Rightarrow> authenticator option \<Rightarrow> bool" where
  "in_use_opt E q auth \<longleftrightarrow> (\<exists>a. auth = Some a \<and> in_use E q a)"

lemma on_auth_in_use:
  assumes "in_use_opt E q auth" "\<And>a. in_use E q a \<Longrightarrow> holds (\<lambda>y. in_use E q (snd y)) (f s a)"
  shows "holds (\<lambda>y. in_use_opt E q (snd y)) (on_auth f s auth)"
  using assms by (fastforce simp: on_auth_def in_use_opt_def holds_def)

lemma missing_step_in_use:
  assumes "in_use_opt E q auth"
  shows "holds (\<lambda>y. in_use_opt E q (snd (snd y))) (missing_step E s z auth n)"
proof -
  have "holds (\<lambda>y. in_use_opt E q (snd y)) (on_auth (\<lambda>s a. addDelegationSignerLink E s a z (zname s nz)) t auth)" for t nz
    by (rule on_auth_in_use [OF assms]) (rule addDelegationSignerLink_in_use)
  then show ?thesis
    unfolding missing_step_def holds_def using assms by (fastforce split: Option.bind_splits if_splits)
qed

lemma missing_loop_in_use:
  "in_use_opt E q auth \<Longrightarrow> holds (\<lambda>y. in_use_opt E q (snd (snd (snd y)))) (missing_loop E s d z auth ns)"
proof (induction ns arbitrary: s d z auth)
  case (Cons n ns)
  show ?case unfolding missing_loop.simps
    by (rule holds_bind [OF missing_step_in_use [OF Cons.prems]]) (use Cons.IH in auto)
qed simp

lemma checkForMissingZones_in_use:
  "in_use_opt E q auth \<Longrightarrow> holds (\<lambda>y. in_use_opt E q (snd (snd (snd y)))) (checkForMissingZones E s d z rmsg auth)"
  unfolding checkForMissingZones_def Let_def
  by (auto intro!: holds_bind [where P = "\<lambda>_. True"] missing_loop_in_use simp: holds_def [of "\<lambda>_. True"])

section \<open>The flag\<close>

text \<open>
  A chain of signatures: for every response a key of its zone matches one of the DS records handed
  down to it and signs the zone's keys, and each record type that is signed in the response is
  verified with a key of the zone; the DS records of a response are handed down to the next one.
\<close>

definition signed_response :: "dnslib \<Rightarrow> DS list \<Rightarrow> result \<Rightarrow> bool" where
  "signed_response L ds r \<longleftrightarrow> (\<exists>keys. z_DNSKEYs (rs_zone r) = (keys, None) \<and>
     (\<exists>s \<in> set (rs_keys r). \<exists>k \<in> set (extractRecords as_DNSKEY keys). \<exists>d \<in> set ds. signed_by L s k \<and> DS_matches L d k) \<and>
     (\<forall>s \<in> set (rs_answer r @ rs_authority r). \<exists>s' \<in> set (rs_answer r @ rs_authority r).
        \<exists>k \<in> set (extractRecords as_DNSKEY keys). sg_rtype s' = sg_rtype s \<and> signed_by L s' k))"

fun signed_chain :: "dnslib \<Rightarrow> DS list \<Rightarrow> string option \<Rightarrow> result list \<Rightarrow> bool" where
  "signed_chain L ds parent [] \<longleftrightarrow> True"
| "signed_chain L ds parent (r # rs) \<longleftrightarrow> signed_response L ds r \<and> below L parent r \<and>
     signed_chain L (rs_dsRecords r) (Some (z_Name (rs_zone r))) rs"

lemma verified_by_signed:
  assumes "verified_by (range (verify L cfg)) ds r" "rs_state r = Secure"
  shows "signed_response L ds r"
proof -
  from assms(1) obtain now r0 st err where v: "verify L cfg now (rs_zone r) (rs_msg r) ds = Some (r0, st, err)"
    and r: "r = r0\<lparr>rs_err := (case err of None \<Rightarrow> rs_err r0 | Some e \<Rightarrow> Some e), rs_state := (if st = Unknown then Bogus else st)\<rparr>"
    unfolding verified_by_def verified_with_def by blast
  have same: "rs_keys r = rs_keys r0" "rs_answer r = rs_answer r0" "rs_authority r = rs_authority r0"
    "rs_state r = (if st = Unknown then Bogus else st)"
    by (subst r, simp)+
  with assms(2) v have "verify L cfg now (rs_zone r) (rs_msg r) ds = Some (r0, Secure, err)" by (simp split: if_splits)
  from verify_Secure [OF this] show ?thesis unfolding signed_response_def same(1-3) by blast
qed

lemma trust_chain_signed:
  "trust_chain L (range (verify L cfg)) ds parent rs \<Longrightarrow> (\<forall>r \<in> set rs. rs_state r = Secure) \<Longrightarrow> signed_chain L ds parent rs"
  by (induction rs arbitrary: ds parent) (auto intro: verified_by_signed)

text \<open>The chain for a question starts at the trust anchors, and its last response answers or denies the question.\<close>

definition trusted :: "'w env \<Rightarrow> Question \<Rightarrow> result list \<Rightarrow> bool" where
  "trusted E q rs \<longleftrightarrow> rs \<noteq> [] \<and> signed_chain (E_lib E) (anchors_of E) None rs \<and> answers_question q (last rs)"

definition flag_justified :: "'w env \<Rightarrow> Question \<Rightarrow> Response \<Rightarrow> bool" where
  "flag_justified E q r \<longleftrightarrow> (\<forall>m. r_Err r = None \<longrightarrow> r_Msg r = Some m \<longrightarrow> mAuthenticatedData m \<longrightarrow> (\<exists>rs. trusted E q rs))"

lemma flag_justified_error [simp]: "flag_justified E q (newResponseError e)"
  by (simp add: flag_justified_def newResponseError_def new_Response_def)

lemma auth_result_trusted:
  assumes "auth_result E s a = Some (a', Secure, doe, err)" "in_use E q a"
  shows "\<exists>rs. trusted E q rs"
proof -
  from assms(1) obtain auth where "Result (E_lib E) (anchors_of E) (verify (E_lib E) (E_dnssec E) (now_unix E s)) (w_auth a) = Some (auth, Secure, doe, err)"
    by (auto simp: auth_result_def verifier_at_def Let_def split: list.splits Option.bind_splits)
  from Result_Secure [OF assms(2) [unfolded in_use_def] this] show ?thesis
    using trust_chain_signed by (auto simp: trusted_def)
qed

lemma finaliseResponse_justified:
  assumes "in_use_opt E q auth" "\<not> mCheckingDisabled qmsg"
  shows "holds (\<lambda>y. flag_justified E q (snd y)) (finaliseResponse E ex s auth qmsg response)"
  unfolding holds_def flag_justified_def
proof (intro allI impI)
  fix y m assume "finaliseResponse E ex s auth qmsg response = Some y" "r_Msg (snd y) = Some m" "mAuthenticatedData m"
  with assms finaliseResponse_flag [of E ex s _ qmsg response "fst y" "snd y" m] auth_result_trusted
  show "\<exists>rs. trusted E q rs" by (fastforce simp: in_use_opt_def)
qed

lemma processDelegation_justified:
  "holds (\<lambda>(s1, nz, r). \<forall>x. r = Some x \<longrightarrow> flag_justified E q x) (processDelegation E ex s z rmsg)"
  unfolding processDelegation_def Let_def
  by (auto simp: holds_def split: list.splits if_splits Option.bind_splits sum.splits)

lemma resolveLabel_justified:
  assumes auth: "in_use_opt E q auth" and cd: "\<not> mCheckingDisabled qmsg"
  shows "holds (\<lambda>(s1, d1, auth1, nz, r). in_use_opt E q auth1 \<and> (\<forall>x. r = Some x \<longrightarrow> flag_justified E q x))
    (resolveLabel E ex s d zp qmsg auth)"
  unfolding holds_def
proof (intro allI impI)
  fix y assume run: "resolveLabel E ex s d zp qmsg auth = Some y"
  show "case y of (s1, d1, auth1, nz, r) \<Rightarrow> in_use_opt E q auth1 \<and> (\<forall>x. r = Some x \<longrightarrow> flag_justified E q x)"
  proof (cases zp)
    case None
    with run auth show ?thesis by (auto simp: resolveLabel_def)
  next
    case (Some z)
    with run obtain s1 u s2 response where
      keys: "on_auth (\<lambda>s a. map_option (\<lambda>(s1, _). (s1, a)) (zone_dnskeys E s z)) s auth = Some (s1, u)"
      and x: "zone_exchange E s1 z qmsg = Some (s2, response)"
      by (auto simp: resolveLabel_def split: Option.bind_splits)
    show ?thesis
    proof (cases "r_Err response = None \<and> r_Msg response \<noteq> None")
      case False
      with run Some keys x auth show ?thesis
        by (auto simp: resolveLabel_def flag_justified_def newResponseError_def new_Response_def split: if_splits)
    next
      case True
      then obtain rmsg where rmsg: "r_Err response = None" "r_Msg response = Some rmsg" by auto
      with run Some keys x obtain s3 d1 z1 auth1 s4 auth2 where
        missing: "checkForMissingZones E s2 d z rmsg auth = Some (s3, d1, z1, auth1)"
        and add: "on_auth (\<lambda>s a. addResponse E s a z1 rmsg) s3 auth1 = Some (s4, auth2)"
        by (auto simp: resolveLabel_def split: Option.bind_splits)
      from holdsD [OF checkForMissingZones_in_use [OF auth] missing] have "in_use_opt E q auth1" by simp
      from on_auth_in_use [OF this addResponse_in_use] add have auth2: "in_use_opt E q auth2" by (auto simp: holds_def)
      show ?thesis
      proof (cases "is_delegation rmsg")
        case True
        with run Some keys x rmsg missing add obtain s5 nz r where
          "processDelegation E ex s4 z1 rmsg = Some (s5, nz, r)" "y = (s5, d1, auth2, nz, r)"
          by (auto simp: resolveLabel_def split: Option.bind_splits)
        with holdsD [OF processDelegation_justified [of E q]] auth2 show ?thesis by fastforce
      next
        case False
        with run Some keys x rmsg missing add obtain s5 r where
          "finaliseResponse E ex s4 auth2 qmsg response = Some (s5, r)" "y = (s5, d1, auth2, None, Some r)"
          by (auto simp: resolveLabel_def split: Option.bind_splits)
        with holdsD [OF finaliseResponse_justified [OF auth2 cd]] auth2 show ?thesis by fastforce
      qed
    qed
  qed
qed

lemma label_loop_justified:
  assumes cd: "\<not> mCheckingDisabled qmsg" and "in_use_opt E q auth"
  shows "holds (\<lambda>y. flag_justified E q (snd y)) (label_loop E ex qmsg s d zp auth)"
  using assms(2)
proof (induction s d zp auth rule: label_loop_rounds [where E = E])
  case (round s d zp auth)
  have step: "holds (\<lambda>y. flag_justified E q (snd y)) (label_loop E ex qmsg t d' zp' auth')"
    if "labelIndexes d' = labelIndexes d" "currentIdx d < currentIdx d'" "in_use_opt E q auth'" for t d' zp' auth'
    by (rule round.IH [OF that(1,2)]) (rule that(3))
  have next_label: "labelIndexes (d_next d) = labelIndexes d" "currentIdx d < currentIdx (d_next d)" by (simp_all add: d_next_def)
  have later: "labelIndexes (d_next d2) = labelIndexes d" "currentIdx d < currentIdx (d_next d2)"
    if "resolveLabel E ex (counted s) d zp qmsg auth = Some (s2, d2, auth2, nextz, r)" for s2 d2 auth2 nextz r
    using ahead_facts [OF resolveLabel_ahead [OF that]] by (simp_all add: d_next_def)
  show ?case
    unfolding label_loop_round [OF round.hyps]
  proof (rule holds_bind [where P = "\<lambda>_. True"], simp add: holds_def, rule holds_bind [where P = "\<lambda>_. True"], simp add: holds_def)
    fix kz
    show "holds (\<lambda>y. flag_justified E q (snd y))
      (if kz \<noteq> None \<and> \<not> d_last d then label_loop E ex qmsg (counted s) (d_next d) kz auth
       else do {
         (s2, d2, auth2, nextz, response) \<leftarrow> resolveLabel E ex (counted s) d zp qmsg auth;
         (case response of Some r \<Rightarrow> Some (s2, r) | None \<Rightarrow> label_loop E ex qmsg s2 (d_next d2) nextz auth2)
       })"
      using step [OF next_label round.prems] step later
      by (auto intro!: holds_bind [OF resolveLabel_justified [OF round.prems cd]] split: option.split)
  qed
qed (simp_all add: label_loop_end label_loop_limit)

lemma exchange_with_justified:
  assumes "isSetDO (E_lib E) qmsg" "\<not> mCheckingDisabled qmsg" "at (mQuestion qmsg) 0 = Some q"
  shows "holds (\<lambda>y. flag_justified E q (snd y)) (exchange_with E ex s qmsg)"
proof -
  have new: "in_use_opt E q (Some (newAuthenticator E q))" by (simp add: in_use_opt_def in_use_new)
  have link: "holds (\<lambda>y. in_use_opt E q (snd y)) (on_auth (\<lambda>s a. link_loop E s a kz) s (Some (newAuthenticator E q)))" for kz
    by (rule on_auth_in_use [OF new]) (rule link_loop_in_use)
  have any: "holds (\<lambda>_. True) x" for x :: "'x option" by (simp add: holds_def)
  show ?thesis
    unfolding exchange_with_def assms(3)
    using assms(1,2)
    by (auto intro!: holds_bind [OF link] holds_bind [where P = "\<lambda>_. True"] any label_loop_justified split: option.split)
qed

lemma Exchange_justified:
  assumes "Exchange E s qmsg = Some (s', r)" "isSetDO (E_lib E) qmsg" "\<not> mCheckingDisabled qmsg"
    and "at (mQuestion qmsg) 0 = Some q"
  shows "flag_justified E q r"
proof (cases "mRecursionDesired qmsg")
  case False
  with assms(1) show ?thesis by (auto simp: Exchange_def)
next
  case True
  with assms(1) obtain r1 where x: "exchange E (s\<lparr>session := 0, started := now_ns E s\<rparr>) qmsg = Some (s', r1)"
    and r: "r = (case r_Msg r1 of None \<Rightarrow> r1 | Some m \<Rightarrow> r1\<lparr>r_Msg := Some (m\<lparr>mRecursionAvailable := True\<rparr>)\<rparr>)"
    by (auto simp: Exchange_def split: Option.bind_splits)
  from x have "exchange_with E (exchange_upto E (\<lambda>_ _. None) (unat (MaxQueriesPerRequest (E_cfg E)))) (s\<lparr>session := 0, started := now_ns E s\<rparr>) qmsg = Some (s', r1)"
    by (simp add: exchange_def)
  from holdsD [OF exchange_with_justified [OF assms(2-4)] this] show ?thesis
    by (auto simp: r flag_justified_def split: option.splits)
qed

section \<open>A signed root\<close>

text \<open>
  A world in which the root answers questions for an address itself, with a key that matches the
  trust anchor and good signatures. The flag that its responses carry is the one given.
\<close>

definition root_rrsig :: "string \<Rightarrow> u16 \<Rightarrow> u8 \<Rightarrow> RR" where
  "root_rrsig owner t labels = ex_rr owner TypeRRSIG
     (RRSIG_R \<lparr>sigTypeCovered = t, sigAlgorithm = 13, sigLabels = labels, sigOrigTtl = 600,
        sigExpiration = 1000, sigInception = 0, sigKeyTag = 7, sigSignerName = ''.'', sigSignature = ''good''\<rparr>)"

definition root_answer :: "bool \<Rightarrow> string \<Rightarrow> u16 \<Rightarrow> Msg \<Rightarrow> Msg" where
  "root_answer ad n t m =
     m\<lparr>mAuthoritative := True, mAuthenticatedData := ad,
       mAnswer := (if t = TypeDNSKEY then [ex_rr n TypeDNSKEY (DNSKEY_R (snd ex_key)), root_rrsig n TypeDNSKEY 0]
                   else [ex_rr n TypeA (A_R ''192.0.2.80''), root_rrsig n TypeA 1])\<rparr>"

definition root_anchor :: DS where
  "root_anchor = (\<lparr>hName = ''.'', hRrtype = TypeDS, hClass = 1, hTtl = 300\<rparr>, snd (ex_ds 2))"

definition root_env :: "bool \<Rightarrow> nat env" where
  "root_env ad = (ex_env (root_answer ad))\<lparr>E_lib := sig_lib, E_dnssec := ex_cfg\<lparr>RootTrustAnchors := [root_anchor]\<rparr>, E_clock := (\<lambda>_. 900000000000)\<rparr>"

definition root_query :: "bool \<Rightarrow> Msg" where
  "root_query dobit = SetEdns0 plain_lib (new_Msg\<lparr>mRecursionDesired := True, mQuestion := [\<lparr>qName = ''e.'', qQtype = TypeA, qQclass = 1\<rparr>]\<rparr>) 4096 dobit"

definition root_run :: "bool \<Rightarrow> bool \<Rightarrow> (nat rstate \<times> nat rstate \<times> Response) option" where
  "root_run ad dobit = do {
     s \<leftarrow> NewResolver (root_env ad) ex_hints None (Some (new_cache 10000)) 0;
     (s', r) \<leftarrow> Exchange (root_env ad) s (root_query dobit);
     Some (s, s', r)
   }"

definition flag_of :: "(nat rstate \<times> nat rstate \<times> Response) option \<Rightarrow> (bool \<times> bool) option" where
  "flag_of x = do { (s, s', r) \<leftarrow> x; m \<leftarrow> r_Msg r; Some (r_Err r = None, mAuthenticatedData m) }"

lemma root_flags:
  "flag_of (root_run False True) = Some (True, True)"
  "flag_of (root_run True False) = Some (True, True)"
  "flag_of (root_run False False) = Some (True, False)"
  by code_simp+

text \<open>
  Without the DO bit nothing is authenticated, and the flag of the server that answered is handed
  to the client as it is: set if that server sets it, for an answer that nobody has checked.
\<close>

theorem flag_handed_through:
  "flag_of (root_run True False) = Some (True, True) \<and> flag_of (root_run False False) = Some (True, False)"
  using root_flags(2,3) by simp

section \<open>Responses that do not repeat the question\<close>

text \<open>
  The root of this world signs everything it says, and delegates \<open>e.\<close> to a server of its owner with
  a signed proof that the delegation has no DS record. The two servers of the owner answer with the
  name \<open>x.\<close> in the question section. The authenticator refuses both responses, which are not about
  an ancestor of the name asked for; two errors are dropped where one is returned, so that the
  result left over is the root's signed denial.
\<close>

definition no_ds :: "RR list" where
  "no_ds = [ex_rr ''e.'' TypeNSEC (NSEC_R \<lparr>nsecNextDomain = ''f.'', nsecTypeBitMap = [TypeNS, TypeRRSIG, TypeNSEC]\<rparr>),
     root_rrsig ''e.'' TypeNSEC 1]"

definition attack_answer :: "string \<Rightarrow> string \<Rightarrow> u16 \<Rightarrow> Msg \<Rightarrow> Msg" where
  "attack_answer server n t m =
     (if server = ''192.0.2.53'' then
        if t = TypeDNSKEY then root_answer False n t m
        else if t = TypeDS then m\<lparr>mAuthoritative := True, mNs := [ex_rr ''.'' TypeSOA (SOA_R ''''), root_rrsig ''.'' TypeSOA 0] @ no_ds\<rparr>
        else m\<lparr>mNs := ex_rr ''e.'' TypeNS (NS_R ''ns.e.'') # no_ds, mExtra := [ex_rr ''ns.e.'' TypeA (A_R ''192.0.2.66'')]\<rparr>
      else if t = TypeDNSKEY then m
      else let x = m\<lparr>mQuestion := [\<lparr>qName = ''x.'', qQtype = t, qQclass = 1\<rparr>]\<rparr> in
        if server = ''192.0.2.66'' then
          x\<lparr>mNs := [ex_rr ''w.e.'' TypeNS (NS_R ''ns.w.e.'')], mExtra := [ex_rr ''ns.w.e.'' TypeA (A_R ''192.0.2.67'')]\<rparr>
        else x\<lparr>mAuthoritative := True, mAnswer := [ex_rr n TypeA (A_R ''203.0.113.66'')]\<rparr>)"

definition attack_env :: "nat env" where
  "attack_env = (root_env False)\<lparr>E_net := (\<lambda>w p ns m. (Suc w, Some (attack_answer (addr ns) (qName (hd (mQuestion m)))
     (qQtype (hd (mQuestion m))) (m\<lparr>mResponse := True, mExtra := []\<rparr>)), 5, None))\<rparr>"

definition deep_query :: "bool \<Rightarrow> Msg" where
  "deep_query dobit = SetEdns0 plain_lib (new_Msg\<lparr>mRecursionDesired := True, mQuestion := [\<lparr>qName = ''a.w.e.'', qQtype = TypeA, qQclass = 1\<rparr>]\<rparr>) 4096 dobit"

definition attack_run :: "Response option" where
  "attack_run = do {
     s \<leftarrow> NewResolver attack_env ex_hints None (Some (new_cache 10000)) 0;
     (s1, r1) \<leftarrow> Exchange attack_env s (deep_query False);
     (s2, r2) \<leftarrow> Exchange attack_env s1 (deep_query True);
     Some r2
   }"

text \<open>
  So the second client is told that the answer is authenticated, although no record of it is signed.
\<close>

theorem unsigned_answer_authenticated:
  "(do { r \<leftarrow> attack_run; m \<leftarrow> r_Msg r; Some (r_Err r = None, r_Auth r, mAuthenticatedData m, mAnswer m) })
     = Some (True, Secure, True, [ex_rr ''a.w.e.'' TypeA (A_R ''203.0.113.66'')])"
  by code_simp

text \<open>
  A response without a question section is one that the library accepts. Without the DO bit it is
  handed on; with it the authenticator looks at its first question, which is a panic of the resolver.
\<close>

definition mute_env :: "nat env" where
  "mute_env = (root_env False)\<lparr>E_net := (\<lambda>w p ns m. (Suc w, Some (root_answer False (qName (hd (mQuestion m)))
     (qQtype (hd (mQuestion m))) (m\<lparr>mResponse := True, mExtra := [], mQuestion := []\<rparr>)), 5, None))\<rparr>"

definition mute_run :: "bool \<Rightarrow> (nat rstate \<times> Response) option" where
  "mute_run dobit = do {
     s \<leftarrow> NewResolver mute_env ex_hints None (Some (new_cache 10000)) 0;
     Exchange mute_env s (root_query dobit)
   }"

theorem no_question_panics:
  "NewResolver mute_env ex_hints None (Some (new_cache 10000)) 0 \<noteq> None \<and>
   mute_run False \<noteq> None \<and> mute_run True = None"
proof (intro conjI)
  show "NewResolver mute_env ex_hints None (Some (new_cache 10000)) 0 \<noteq> None" by code_simp
  show "mute_run False \<noteq> None" by code_simp
  show "mute_run True = None" by code_simp
qed

end
