(* ===== verification/Covered.thy ===== *)
theory Covered
  imports Trust
begin

text \<open>
  Which responses a verdict is about. The results of an authenticator are those of the responses in
  its buffer, in the order of the buffer: as far as it has come while responses are added, and all
  of them once there is a verdict. A response that was added without an error is in the buffer.
\<close>

definition source_of :: "result \<Rightarrow> input" where
  "source_of r = \<lparr>in_zone = rs_zone r, in_msg = rs_msg r\<rparr>"

definition filled :: "input option list \<Rightarrow> input list" where
  "filled xs = List.map_filter id xs"

lemma filled_simps [simp]:
  "filled [] = []" "filled (None # xs) = filled xs" "filled (Some i # xs) = i # filled xs" "filled (xs @ ys) = filled xs @ filled ys"
  by (simp_all add: filled_def List.map_filter_def)

lemma set_filled: "set (filled xs) = {i. Some i \<in> set xs}"
proof (induction xs)
  case (Cons x xs)
  then show ?case by (cases x) auto
qed simp

text \<open>The results so far are those of the first entries of the buffer, which have no gap.\<close>

definition in_step :: "Authenticator \<Rightarrow> bool" where
  "in_step a \<longleftrightarrow> inputBufferIdx a \<le> length (inputBuffer a) \<and> None \<notin> set (take (inputBufferIdx a) (inputBuffer a)) \<and>
     map source_of (a_results a) = filled (take (inputBufferIdx a) (inputBuffer a))"

lemma in_step_new: "in_step (NewAuth L q)"
  by (simp add: in_step_def NewAuth_def)

context response_verifier
begin

lemma processResponse_source:
  assumes "processResponse L anchors vf a (in_zone i) (in_msg i) = Some (a', None)" "vf \<in> V"
  shows "map source_of (a_results a') = map source_of (a_results a) @ [i]"
proof -
  obtain rs where p: "process L anchors vf (a_question a) (a_results a) i = Some (rs, None)" and a': "a_results a' = rs"
    using assms(1) by (auto simp: processResponse_def split: Option.bind_splits)
  from p obtain r0 st err ds where v: "vf (in_zone i) (in_msg i) ds = Some (r0, st, err)"
    and rs: "rs = a_results a @ [(case err of None \<Rightarrow> r0 | Some e \<Rightarrow> r0\<lparr>rs_err := Some e\<rparr>)\<lparr>rs_state := if st = Unknown then Bogus else st\<rparr>]"
    by (auto simp: process_def Let_def split: option.splits Option.bind_splits)
  from keeps_source [OF assms(2) v] show ?thesis by (simp add: a' rs source_of_def split: option.split)
qed

text \<open>Draining the rest of the buffer.\<close>

lemma drain_in_step:
  assumes "vf \<in> V"
  shows "drain L anchors vf a xs = Some (a', e) \<Longrightarrow> inputBuffer a = done_part @ xs \<Longrightarrow> inputBufferIdx a = length done_part \<Longrightarrow>
    None \<notin> set done_part \<Longrightarrow> map source_of (a_results a) = filled done_part \<Longrightarrow> in_step a'"
proof (induction xs arbitrary: a done_part)
  case (Cons x xs)
  from Cons.prems(1) show ?case
  proof (cases rule: drain_Cons_cases)
    case gap
    with Cons.prems show ?thesis by (simp add: in_step_def)
  next
    case (failed i err)
    with processResponse_error_same [OF failed(3) [unfolded failed(2)]] Cons.prems show ?thesis by (simp add: in_step_def)
  next
    case (ok i a1)
    let ?a = "a1\<lparr>inputBufferIdx := Suc (inputBufferIdx a1)\<rparr>"
    from processResponse_frame [OF ok(2)] Cons.prems(2,3) ok(1)
    have "inputBuffer ?a = (done_part @ [x]) @ xs" "inputBufferIdx ?a = length (done_part @ [x])" by simp_all
    moreover have "map source_of (a_results ?a) = filled (done_part @ [x])"
      using processResponse_source [OF ok(2) assms] Cons.prems(5) ok(1) by simp
    moreover have "None \<notin> set (done_part @ [x])" using Cons.prems(4) ok(1) by simp
    ultimately show ?thesis using Cons.IH [OF ok(3), of "done_part @ [x]"] by blast
  qed
qed (simp add: in_step_def)

lemma drain_all_sources:
  assumes "vf \<in> V"
  shows "drain_all L anchors vf a xs = Some (a', None) \<Longrightarrow> map source_of (a_results a') = map source_of (a_results a) @ filled xs"
proof (induction xs arbitrary: a)
  case (Cons x xs)
  show ?case
  proof (cases x)
    case (Some i)
    with Cons.prems obtain a1 where p: "processResponse L anchors vf a (in_zone i) (in_msg i) = Some (a1, None)"
      and rest: "drain_all L anchors vf (a1\<lparr>inputBufferIdx := Suc (inputBufferIdx a1)\<rparr>) xs = Some (a', None)"
      by (auto split: Option.bind_splits option.splits)
    from Cons.IH [OF rest] processResponse_source [OF p assms] Some show ?thesis by simp
  qed (use Cons in simp)
qed simp

text \<open>Adding a response keeps in step, keeps what is in the buffer, and without an error stores the response.\<close>

lemma AddResponse_in_step:
  assumes add: "AddResponse L anchors vf a zone msg = Some (a', e)" and vf: "vf \<in> V" and ok: "in_step a"
  shows "in_step a' \<and> set (filled (inputBuffer a)) \<subseteq> set (filled (inputBuffer a')) \<and>
    (e = None \<longrightarrow> \<lparr>in_zone = zone, in_msg = msg\<rparr> \<in> set (filled (inputBuffer a')))"
proof (cases "a' = a \<and> e \<noteq> None")
  case False
  let ?i = "\<lparr>in_zone = zone, in_msg = msg\<rparr>" and ?k = "inputBufferIdx a"
  from add False obtain p where p: "at (inputBuffer a) p = Some None"
    and d: "drain L anchors vf (a\<lparr>inputBuffer := (inputBuffer a)[nat p := Some ?i]\<rparr>)
      (drop ?k ((inputBuffer a)[nat p := Some ?i])) = Some (a', e)"
    by (auto simp: AddResponse_def Let_def split: if_splits Option.bind_splits option.splits)
  from p have n: "nat p < length (inputBuffer a)" "inputBuffer a ! nat p = None" by (auto simp: at_Some_iff)
  let ?buf = "(inputBuffer a)[nat p := Some ?i]"
  have k: "?k \<le> nat p"
  proof (rule ccontr)
    assume "\<not> ?k \<le> nat p"
    with n have "None \<in> set (take ?k (inputBuffer a))" by (auto simp: in_set_conv_nth intro!: exI [of _ "nat p"])
    with ok show False by (simp add: in_step_def)
  qed
  then have t: "take ?k ?buf = take ?k (inputBuffer a)" by simp
  have "in_step a'"
  proof (rule drain_in_step [OF vf d, of "take ?k ?buf"])
    show "inputBuffer (a\<lparr>inputBuffer := ?buf\<rparr>) = take ?k ?buf @ drop ?k ?buf" by simp
  qed (use ok t in \<open>simp_all add: in_step_def\<close>)
  moreover have "inputBuffer a' = ?buf" using drain_frame [OF d] by simp
  moreover have "set (filled (inputBuffer a)) \<subseteq> set (filled ?buf)"
  proof
    fix i assume "i \<in> set (filled (inputBuffer a))"
    then obtain m where "m < length (inputBuffer a)" "inputBuffer a ! m = Some i" by (auto simp: set_filled in_set_conv_nth)
    with n show "i \<in> set (filled ?buf)" by (auto simp: set_filled in_set_conv_nth nth_list_update intro!: exI [of _ m])
  qed
  moreover have "?i \<in> set (filled ?buf)" using n by (auto simp: set_filled intro: set_update_memI)
  ultimately show ?thesis by simp
qed (use assms in auto)

lemma Result_covers:
  assumes "Result L anchors vf a = Some (a', Secure, doe, err)" "vf \<in> V" "in_step a"
  shows "map source_of (a_results a') = filled (inputBuffer a)"
proof -
  from assms(1) have d: "drain_all L anchors vf a (drop (inputBufferIdx a) (inputBuffer a)) = Some (a', None)"
    by (auto simp: Result_def split: Option.bind_splits option.splits)
  have "filled (inputBuffer a) = filled (take (inputBufferIdx a) (inputBuffer a)) @ filled (drop (inputBufferIdx a) (inputBuffer a))"
    by (metis append_take_drop_id filled_simps(4))
  with drain_all_sources [OF assms(2) d] assms(3) show ?thesis by (simp add: in_step_def)
qed

end

end
