(* ===== verification/Auth_Queue.thy ===== *)
theory Auth_Queue
  imports Covered "HOL-Library.Multiset"
begin

text \<open>
  The goroutines of \<open>auth.go\<close>, step by step. \<open>Validation\<close> has the operations as the resolver uses
  them, one after the other; here the resolver's goroutine, one goroutine for every delegation link
  and the goroutine of \<open>start\<close> run in any order, over the channel with its eight places, the wait
  group and the flag \<open>finished\<close>. Every step that looks at the resolver takes its state as other
  goroutines have left it: any state at all. The key fetches ahead of time, which nobody waits for,
  are among those others.
\<close>

section \<open>The goroutines\<close>

type_synonym authenticatorInput = "nat \<times> Msg"

text \<open>The goroutine of a delegation link: it asks for the DS records, sends them on, and signs off.\<close>

datatype linker = Asks nat string | Delivers nat Msg | Ends

text \<open>
  The resolver's goroutine: between its calls, in \<open>addResponse\<close> before the channel, in the wait of
  \<open>result\<close> or of \<open>close\<close> alone, after the wait of \<open>result\<close>, and at the end of the two.
\<close>

datatype caller = Ready | Sends nat Msg | Waits bool | Closed | Departed | Returned verdict

text \<open>
  The goroutine of \<open>start\<close>. It reads the field \<open>queue\<close> when it starts, and waits for ever if the
  field is nil by then.
\<close>

datatype consumer = Unstarted | Receives | Handles nat Msg | Marks | Gone | Stuck

record queue_state =
  q_auth :: authenticator
  q_queue :: "authenticatorInput list"
  q_closed :: bool
  q_processing :: int
  q_links :: "linker list"
  q_caller :: caller
  q_worker :: consumer

definition queue_start :: "'w env \<Rightarrow> Question \<Rightarrow> queue_state" where
  "queue_start E question = \<lparr>q_auth = newAuthenticator E question, q_queue = [], q_closed = False, q_processing = 0,
     q_links = [], q_caller = Ready, q_worker = Unstarted\<rparr>"

definition queue_capacity :: nat where
  "queue_capacity = 8"

definition has_room :: "queue_state \<Rightarrow> bool" where
  "has_room st \<longleftrightarrow> \<not> q_closed st \<and> length (q_queue st) < queue_capacity"

text \<open>What the steps show: what was handed in, taken into the channel, and worked on.\<close>

datatype 'w event = Submitted nat Msg | Queued nat Msg | Handled nat Msg "'w rstate" | Silent

text \<open>The goroutine of a link after the answer to its query.\<close>

definition after_answer :: "nat \<Rightarrow> Response \<Rightarrow> linker" where
  "after_answer z response = (case (r_Msg response, r_Err response) of (Some msg, None) \<Rightarrow> Delivers z msg | _ \<Rightarrow> Ends)"

fun answer_event :: "linker \<Rightarrow> 'w event" where
  "answer_event (Delivers z msg) = Submitted z msg"
| "answer_event _ = Silent"

fun added :: "linker \<Rightarrow> int" where
  "added (Delivers z msg) = 1"
| "added _ = 0"

inductive queue_step :: "'w env \<Rightarrow> queue_state \<Rightarrow> 'w event \<Rightarrow> queue_state \<Rightarrow> bool" for E where
  link: "q_caller st = Ready \<Longrightarrow> \<not> w_finished (q_auth st) \<Longrightarrow>
    queue_step E st Silent (st\<lparr>q_processing := q_processing st + 1, q_links := q_links st @ [Asks z qname]\<rparr>)"
| ask: "q_links st = ls @ Asks z qname # ls' \<Longrightarrow> zone_exchange E s z (ds_query E qname) = Some (s', response) \<Longrightarrow>
    l = after_answer z response \<Longrightarrow>
    queue_step E st (answer_event l) (st\<lparr>q_processing := q_processing st + added l, q_links := ls @ l # ls'\<rparr>)"
| deliver: "q_links st = ls @ Delivers z msg # ls' \<Longrightarrow> has_room st \<Longrightarrow>
    queue_step E st (Queued z msg) (st\<lparr>q_queue := q_queue st @ [(z, msg)], q_links := ls @ Ends # ls'\<rparr>)"
| sign_off: "q_links st = ls @ Ends # ls' \<Longrightarrow>
    queue_step E st Silent (st\<lparr>q_processing := q_processing st - 1, q_links := ls @ ls'\<rparr>)"
| respond: "q_caller st = Ready \<Longrightarrow> \<not> w_finished (q_auth st) \<Longrightarrow>
    queue_step E st (Submitted z msg) (st\<lparr>q_processing := q_processing st + 1, q_caller := Sends z msg\<rparr>)"
| send: "q_caller st = Sends z msg \<Longrightarrow> has_room st \<Longrightarrow>
    queue_step E st (Queued z msg) (st\<lparr>q_queue := q_queue st @ [(z, msg)], q_caller := Ready\<rparr>)"
| finish: "q_caller st = Ready \<Longrightarrow>
    queue_step E st Silent (st\<lparr>q_auth := (q_auth st)\<lparr>w_finished := True\<rparr>, q_caller := Waits verdict_wanted\<rparr>)"
| close: "q_caller st = Waits verdict_wanted \<Longrightarrow> q_processing st = 0 \<Longrightarrow>
    queue_step E st Silent (st\<lparr>q_closed := True, q_caller := (if verdict_wanted then Closed else Departed)\<rparr>)"
| conclude: "q_caller st = Closed \<Longrightarrow> auth_result E s (q_auth st) = Some (a, v) \<Longrightarrow>
    queue_step E st Silent (st\<lparr>q_auth := a, q_caller := Returned v\<rparr>)"
| start: "q_worker st = Unstarted \<Longrightarrow>
    queue_step E st Silent (st\<lparr>q_worker := (if q_closed st then Stuck else Receives)\<rparr>)"
| receive: "q_worker st = Receives \<Longrightarrow> q_queue st = (z, msg) # rest \<Longrightarrow>
    queue_step E st Silent (st\<lparr>q_queue := rest, q_worker := Handles z msg\<rparr>)"
| handle: "q_worker st = Handles z msg \<Longrightarrow> process_input E s (q_auth st) z msg = Some (s', a) \<Longrightarrow>
    queue_step E st (Handled z msg s) (st\<lparr>q_auth := a, q_worker := Marks\<rparr>)"
| mark: "q_worker st = Marks \<Longrightarrow>
    queue_step E st Silent (st\<lparr>q_processing := q_processing st - 1, q_worker := Receives\<rparr>)"
| exit: "q_worker st = Receives \<Longrightarrow> q_queue st = [] \<Longrightarrow> q_closed st \<Longrightarrow>
    queue_step E st Silent (st\<lparr>q_worker := Gone\<rparr>)"

text \<open>
  How a goroutine can panic in a state: the misuses of the channel and of the wait group that the
  Go runtime detects, and a panic inside one of the calls.
\<close>

datatype panic = SendOnClosed | CloseOfClosed | NegativeCounter | Inside

inductive queue_panic :: "'w env \<Rightarrow> queue_state \<Rightarrow> panic \<Rightarrow> bool" for E where
  send_closed: "q_caller st = Sends z msg \<Longrightarrow> q_closed st \<Longrightarrow> queue_panic E st SendOnClosed"
| deliver_closed: "Delivers z msg \<in> set (q_links st) \<Longrightarrow> q_closed st \<Longrightarrow> queue_panic E st SendOnClosed"
| close_closed: "q_caller st = Waits b \<Longrightarrow> q_processing st = 0 \<Longrightarrow> q_closed st \<Longrightarrow> queue_panic E st CloseOfClosed"
| sign_off_negative: "Ends \<in> set (q_links st) \<Longrightarrow> q_processing st \<le> 0 \<Longrightarrow> queue_panic E st NegativeCounter"
| mark_negative: "q_worker st = Marks \<Longrightarrow> q_processing st \<le> 0 \<Longrightarrow> queue_panic E st NegativeCounter"
| in_exchange: "Asks z qname \<in> set (q_links st) \<Longrightarrow> zone_exchange E s z (ds_query E qname) = None \<Longrightarrow> queue_panic E st Inside"
| in_AddResponse: "q_worker st = Handles z msg \<Longrightarrow> process_input E s (q_auth st) z msg = None \<Longrightarrow> queue_panic E st Inside"
| in_Result: "q_caller st = Closed \<Longrightarrow> auth_result E s (q_auth st) = None \<Longrightarrow> queue_panic E st Inside"

inductive queue_run :: "'w env \<Rightarrow> queue_state \<Rightarrow> 'w event list \<Rightarrow> queue_state \<Rightarrow> bool" for E where
  stay: "queue_run E st [] st"
| more: "queue_run E st es st' \<Longrightarrow> queue_step E st' e st'' \<Longrightarrow> queue_run E st (es @ [e]) st''"

lemma queue_run_Cons:
  assumes "queue_step E st e st'" "queue_run E st' es st''"
  shows "queue_run E st (e # es) st''"
  using assms(2,1)
proof (induction rule: queue_run.induct)
  case (stay st')
  from queue_run.more [OF queue_run.stay stay] show ?case by simp
next
  case (more st' es t e' u)
  from queue_run.more [OF more.IH [OF more.prems] more.hyps(2)] show ?case by simp
qed

lemma queue_run_append:
  assumes "queue_run E st es st'" "queue_run E st' es' st''"
  shows "queue_run E st (es @ es') st''"
  using assms by (induction arbitrary: es' rule: queue_run.induct) (auto intro: queue_run_Cons)

section \<open>The wait group counts the work\<close>

fun link_work :: "linker \<Rightarrow> int" where
  "link_work l = 1 + added l"

definition caller_work :: "queue_state \<Rightarrow> int" where
  "caller_work st = (case q_caller st of Sends _ _ \<Rightarrow> 1 | _ \<Rightarrow> 0)"

definition worker_work :: "queue_state \<Rightarrow> int" where
  "worker_work st = (case q_worker st of Handles _ _ \<Rightarrow> 1 | Marks \<Rightarrow> 1 | _ \<Rightarrow> 0)"

definition outstanding :: "queue_state \<Rightarrow> int" where
  "outstanding st = sum_list (map link_work (q_links st)) + int (length (q_queue st)) + caller_work st + worker_work st"

lemma link_work_pos: "0 < link_work l" by (cases l) auto

lemma links_work_nonneg: "0 \<le> sum_list (map link_work ls)"
  by (induction ls) (use link_work_pos in \<open>auto simp: less_imp_le add_nonneg_nonneg simp del: link_work.simps\<close>)

lemma links_work_zero [simp]: "sum_list (map link_work ls) = 0 \<longleftrightarrow> ls = []"
proof (cases ls)
  case (Cons l ls')
  with link_work_pos [of l] links_work_nonneg [of ls'] show ?thesis by (simp del: link_work.simps)
qed simp

lemma work_nonneg [simp]: "0 \<le> caller_work st" "0 \<le> worker_work st"
  by (auto simp: caller_work_def worker_work_def split: caller.split consumer.split)

lemma outstanding_zero:
  "outstanding st = 0 \<longleftrightarrow> q_links st = [] \<and> q_queue st = [] \<and> caller_work st = 0 \<and> worker_work st = 0"
  using links_work_nonneg [of "q_links st"] work_nonneg [of st]
  by (auto simp: outstanding_def simp del: work_nonneg link_work.simps links_work_zero)
    (metis add_nonneg_eq_0_iff links_work_zero of_nat_0_le_iff add_nonneg_nonneg of_nat_eq_0_iff length_0_conv)+

definition past_wait :: "caller \<Rightarrow> bool" where
  "past_wait c \<longleftrightarrow> (case c of Closed \<Rightarrow> True | Departed \<Rightarrow> True | Returned _ \<Rightarrow> True | _ \<Rightarrow> False)"

definition queue_ok :: "queue_state \<Rightarrow> bool" where
  "queue_ok st \<longleftrightarrow> q_processing st = outstanding st \<and> (q_closed st \<longleftrightarrow> past_wait (q_caller st)) \<and>
     (q_closed st \<longrightarrow> outstanding st = 0) \<and> (w_finished (q_auth st) \<longleftrightarrow> past_wait (q_caller st) \<or> (\<exists>b. q_caller st = Waits b)) \<and>
     (q_worker st \<in> {Gone, Stuck} \<longrightarrow> q_closed st) \<and> length (q_queue st) \<le> queue_capacity"

lemma process_input_finished: "process_input E s a z msg = Some (s', a') \<Longrightarrow> w_finished a' = w_finished a"
  by (auto simp: process_input_def split: Option.bind_splits)

lemma auth_result_finished: "auth_result E s a = Some (a', v) \<Longrightarrow> w_finished a'"
  by (auto simp: auth_result_def Let_def split: list.splits Option.bind_splits)

lemmas queue_defs = queue_ok_def outstanding_def caller_work_def worker_work_def past_wait_def has_room_def

lemma queue_ok_start: "queue_ok (queue_start E q)"
  by (simp add: queue_defs queue_start_def newAuthenticator_def)

lemma closed_nothing_left:
  assumes "queue_ok st" "q_closed st"
  shows "q_links st = []" "q_queue st = []" "caller_work st = 0" "worker_work st = 0"
  using assms by (auto simp: queue_ok_def outstanding_zero)

lemma queue_ok_step:
  assumes "queue_step E st e st'" "queue_ok st"
  shows "queue_ok st'"
  using assms
proof (induction rule: queue_step.induct)
  case (close st wanted)
  then have "outstanding st = 0" by (simp add: queue_ok_def)
  with close show ?case by (auto simp: outstanding_zero queue_defs)
next
  case (ask st ls z qname ls' s s' response l)
  then have "\<not> q_closed st" using closed_nothing_left by auto
  with ask show ?case by (cases l) (auto simp: queue_defs split: option.splits)
next
  case (sign_off st ls ls')
  then have "\<not> q_closed st" using closed_nothing_left by auto
  with sign_off show ?case by (auto simp: queue_defs split: caller.splits consumer.splits)
next
  case (mark st)
  then have "\<not> q_closed st" using closed_nothing_left(4) [of st] by (auto simp: worker_work_def)
  with mark show ?case by (auto simp: queue_defs split: caller.splits)
next
  case (handle st z msg s s' a)
  from process_input_finished [OF handle.hyps(2)] handle show ?case by (auto simp: queue_defs)
next
  case (conclude st s a v)
  from auth_result_finished [OF conclude.hyps(2)] conclude show ?case by (auto simp: queue_defs)
qed (auto simp: queue_defs split: caller.splits consumer.splits)

lemma queue_ok_run:
  assumes "queue_run E st es st'" "queue_ok st"
  shows "queue_ok st'"
  using assms by (induction rule: queue_run.induct) (auto intro: queue_ok_step)

lemma queue_ok_reached: "queue_run E (queue_start E q) es st \<Longrightarrow> queue_ok st"
  by (rule queue_ok_run [OF _ queue_ok_start])

text \<open>
  C11: the goroutines use the channel and the wait group correctly. In every state that a new
  authenticator reaches, under every interleaving, the wait group holds exactly the number of
  link goroutines, of their answers and of responses that are not yet worked on; the channel is
  closed only when there are none; and no goroutine panics by sending to the closed channel, by
  closing it again or by taking the counter below zero: a panic can only come from inside the
  exchange, \<open>AddResponse\<close> or \<open>Result\<close>.
\<close>

theorem queue_never_misused:
  assumes "queue_run E (queue_start E q) es st"
  shows "q_processing st = outstanding st \<and> (q_closed st \<longrightarrow> outstanding st = 0) \<and> (\<forall>p. queue_panic E st p \<longrightarrow> p = Inside)"
proof -
  note ok = queue_ok_reached [OF assms]
  have "p = Inside" if "queue_panic E st p" for p
    using that
  proof cases
    case (send_closed z msg)
    with closed_nothing_left(3) [OF ok] show ?thesis by (simp add: caller_work_def)
  next
    case (deliver_closed z msg)
    with closed_nothing_left(1) [OF ok] show ?thesis by simp
  next
    case (close_closed b)
    with ok show ?thesis by (simp add: queue_ok_def past_wait_def)
  next
    case sign_off_negative
    then obtain ls ls' where "q_links st = ls @ Ends # ls'" by (auto dest: split_list)
    with sign_off_negative ok links_work_nonneg [of ls] links_work_nonneg [of ls'] work_nonneg [of st]
    show ?thesis by (simp add: queue_ok_def outstanding_def del: work_nonneg)
  next
    case mark_negative
    with ok links_work_nonneg [of "q_links st"] work_nonneg(1) [of st]
    show ?thesis by (simp add: queue_ok_def outstanding_def worker_work_def del: work_nonneg)
  qed simp_all
  with ok show ?thesis by (auto simp: queue_ok_def)
qed

section \<open>Every run is a run of the sequential program\<close>

fun submitted :: "'w event list \<Rightarrow> authenticatorInput list" where
  "submitted [] = []"
| "submitted (Submitted z msg # es) = (z, msg) # submitted es"
| "submitted (_ # es) = submitted es"

fun queued :: "'w event list \<Rightarrow> authenticatorInput list" where
  "queued [] = []"
| "queued (Queued z msg # es) = (z, msg) # queued es"
| "queued (_ # es) = queued es"

fun handled :: "'w event list \<Rightarrow> (authenticatorInput \<times> 'w rstate) list" where
  "handled [] = []"
| "handled (Handled z msg s # es) = ((z, msg), s) # handled es"
| "handled (_ # es) = handled es"

lemma events_append [simp]:
  "submitted (es @ es') = submitted es @ submitted es'"
  "queued (es @ es') = queued es @ queued es'"
  "handled (es @ es') = handled es @ handled es'"
  subgoal by (induction es rule: submitted.induct) simp_all
  subgoal by (induction es rule: queued.induct) simp_all
  subgoal by (induction es rule: handled.induct) simp_all
  done

text \<open>The responses worked on one after the other, each in the state the resolver is in then.\<close>

fun replay :: "'w env \<Rightarrow> authenticator \<Rightarrow> (authenticatorInput \<times> 'w rstate) list \<Rightarrow> authenticator option" where
  "replay E a [] = Some a"
| "replay E a (((z, msg), s) # xs) = do { (s', a') \<leftarrow> process_input E s a z msg; replay E a' xs }"

lemma replay_append: "replay E a (xs @ ys) = do { b \<leftarrow> replay E a xs; replay E b ys }"
  by (induction E a xs rule: replay.induct) (auto split: Option.bind_splits)

text \<open>What is under way: in a link's hands or the caller's, and in the worker's hands or the channel.\<close>

fun link_holds :: "linker \<Rightarrow> authenticatorInput list" where
  "link_holds (Delivers z msg) = [(z, msg)]"
| "link_holds _ = []"

definition unsent :: "queue_state \<Rightarrow> authenticatorInput list" where
  "unsent st = concat (map link_holds (q_links st)) @ (case q_caller st of Sends z msg \<Rightarrow> [(z, msg)] | _ \<Rightarrow> [])"

definition unworked :: "queue_state \<Rightarrow> authenticatorInput list" where
  "unworked st = (case q_worker st of Handles z msg \<Rightarrow> [(z, msg)] | _ \<Rightarrow> []) @ q_queue st"

lemma answer_event_flow [simp]:
  "submitted [answer_event l] = link_holds l" "queued [answer_event l] = []" "handled [answer_event l] = []"
  by (cases l; simp)+

text \<open>Up to the flag \<open>finished\<close>, which the worker does not look at.\<close>

definition same_progress :: "authenticator \<Rightarrow> authenticator \<Rightarrow> bool" where
  "same_progress x a \<longleftrightarrow> w_auth x = w_auth a \<and> w_errors x = w_errors a"

lemma same_progress_simps [simp]:
  "same_progress a a" "same_progress (x\<lparr>w_finished := f\<rparr>) a = same_progress x a"
  by (simp_all add: same_progress_def)

lemma process_input_same:
  assumes "process_input E s x z msg = Some (s', x')" "same_progress x a"
  obtains a' where "process_input E s a z msg = Some (s', a')" "same_progress x' a'"
proof -
  have "process_input E s a z msg = Some (s', a\<lparr>w_auth := w_auth x', w_errors := w_errors x'\<rparr>)"
    using assms by (auto simp: process_input_def same_progress_def split: Option.bind_splits)
  from that [OF this] show thesis by (simp add: same_progress_def)
qed

lemma auth_result_same: "same_progress x a \<Longrightarrow> auth_result E s x = auth_result E s a"
proof -
  assume "same_progress x a"
  then have "x\<lparr>w_finished := True\<rparr> = a\<lparr>w_finished := True\<rparr>" by (simp add: same_progress_def)
  then show ?thesis by (simp add: auth_result_def)
qed

text \<open>
  The authenticator is what adding the responses worked on so far makes of a new one, and a verdict
  the one of that authenticator.
\<close>

definition explains :: "'w env \<Rightarrow> authenticator \<Rightarrow> queue_state \<Rightarrow> bool" where
  "explains E a st \<longleftrightarrow> (case q_caller st of Returned v \<Rightarrow> \<exists>s. auth_result E s a = Some (q_auth st, v)
     | _ \<Rightarrow> same_progress (q_auth st) a)"

lemma explains_open: "\<forall>v. q_caller st \<noteq> Returned v \<Longrightarrow> explains E a st = same_progress (q_auth st) a"
  by (auto simp: explains_def split: caller.split)

lemma explains_frame [simp]:
  "explains E a (st\<lparr>q_links := ls\<rparr>) = explains E a st" "explains E a (st\<lparr>q_queue := xs\<rparr>) = explains E a st"
  "explains E a (st\<lparr>q_processing := n\<rparr>) = explains E a st" "explains E a (st\<lparr>q_worker := w\<rparr>) = explains E a st"
  "explains E a (st\<lparr>q_closed := b\<rparr>) = explains E a st"
  by (cases "q_caller st"; simp add: explains_def)+

definition accounted_for :: "'w env \<Rightarrow> Question \<Rightarrow> 'w event list \<Rightarrow> queue_state \<Rightarrow> bool" where
  "accounted_for E q es st \<longleftrightarrow> (\<exists>a. replay E (newAuthenticator E q) (handled es) = Some a \<and> explains E a st)"

lemma accounted_for_step:
  assumes "queue_step E st e st'" "queue_ok st" "accounted_for E q es st"
  shows "accounted_for E q (es @ [e]) st'"
  using assms
proof (induction rule: queue_step.induct)
  case (handle st z msg s s' b)
  have unreturned: "\<forall>v. q_caller st \<noteq> Returned v"
    using handle closed_nothing_left(4) [OF handle.prems(1)] by (auto simp: worker_work_def queue_ok_def past_wait_def)
  with handle.prems(2) obtain a where a: "replay E (newAuthenticator E q) (handled es) = Some a" "same_progress (q_auth st) a"
    by (auto simp: accounted_for_def explains_open)
  from process_input_same [OF handle.hyps(2) a(2)] obtain a'
    where "process_input E s a z msg = Some (s', a')" "same_progress b a'" .
  with a(1) unreturned show ?case by (auto simp: accounted_for_def explains_open replay_append)
next
  case (conclude st s b v)
  then obtain a where a: "replay E (newAuthenticator E q) (handled es) = Some a" "same_progress (q_auth st) a"
    by (auto simp: accounted_for_def explains_open)
  from conclude.hyps(2) auth_result_same [OF a(2), of E s] have "auth_result E s a = Some (b, v)" by simp
  with a(1) show ?case by (auto simp: accounted_for_def explains_def)
qed (auto simp: accounted_for_def explains_open)

lemma run_accounted_for:
  assumes "queue_run E (queue_start E q) es st"
  shows "accounted_for E q es st"
  using assms
proof (induction "queue_start E q" es st rule: queue_run.induct)
  case (more es st' e st'')
  from accounted_for_step [OF more.hyps(3) queue_ok_reached [OF more.hyps(1)] more.hyps(2)] show ?case .
qed (simp add: accounted_for_def explains_def queue_start_def)

text \<open>Nothing is lost, nothing is made up, and the channel keeps the order.\<close>

lemma step_flow:
  assumes "queue_step E st e st'"
  shows "mset (submitted [e]) + mset (unsent st) = mset (queued [e]) + mset (unsent st')"
    and "unworked st @ queued [e] = map fst (handled [e]) @ unworked st'"
  using assms by (induction rule: queue_step.induct) (auto simp: unsent_def unworked_def)

lemma run_flow:
  assumes "queue_run E (queue_start E q) es st"
  shows "mset (submitted es) = mset (queued es) + mset (unsent st)" "queued es = map fst (handled es) @ unworked st"
  using assms
proof (induction "queue_start E q" es st rule: queue_run.induct)
  case (more es st' e st'')
  note flow = step_flow [OF more.hyps(4)]
  {
    case 1
    from more.hyps(2) flow(1) show ?case by (simp add: add.assoc) (simp add: add.commute)
  next
    case 2
    from more.hyps(3) flow(2) show ?case by simp
  }
qed (simp_all add: unsent_def unworked_def queue_start_def)

text \<open>When the wait of \<open>result\<close> is over, everything that was handed in has been worked on.\<close>

lemma closed_complete:
  assumes "queue_run E (queue_start E q) es st" "q_closed st"
  shows "map fst (handled es) = queued es" "mset (queued es) = mset (submitted es)"
proof -
  note ok = queue_ok_reached [OF assms(1)]
  have "unsent st = []" "unworked st = []"
    using closed_nothing_left [OF ok assms(2)]
    by (auto simp: unsent_def unworked_def caller_work_def worker_work_def split: caller.splits consumer.splits)
  with run_flow [OF assms(1)] show "map fst (handled es) = queued es" "mset (queued es) = mset (submitted es)" by simp_all
qed

lemma returned_closed: "queue_run E (queue_start E q) es st \<Longrightarrow> q_caller st = Returned v \<Longrightarrow> q_closed st"
  using queue_ok_reached by (fastforce simp: queue_ok_def past_wait_def)

lemma returned_replay:
  assumes "queue_run E (queue_start E q) es st" "q_caller st = Returned v"
  obtains a s where "replay E (newAuthenticator E q) (handled es) = Some a" "auth_result E s a = Some (q_auth st, v)"
  using run_accounted_for [OF assms(1)] assms(2) by (auto simp: accounted_for_def explains_def)

text \<open>
  C3: the concurrent queue refines the sequential program. Under every interleaving of the caller,
  the link goroutines and the worker, a verdict that \<open>result\<close> returns is the one that the
  sequential program returns which adds the responses one after the other, in the order in which
  the channel took them: each response that the caller or a link handed in exactly once, none of
  them lost in the channel or still under way, and no other.
\<close>

theorem queue_refines_sequential:
  assumes "queue_run E (queue_start E q) es st" "q_caller st = Returned v"
  shows "mset (map fst (handled es)) = mset (submitted es) \<and> map fst (handled es) = queued es \<and>
    (\<exists>a s. replay E (newAuthenticator E q) (handled es) = Some a \<and> auth_result E s a = Some (q_auth st, v))"
  using closed_complete [OF assms(1) returned_closed [OF assms]] by (metis returned_replay [OF assms])

text \<open>The guarantee of the package therefore holds for the verdict, whatever the interleaving.\<close>

lemma replay_in_use: "replay E a xs = Some b \<Longrightarrow> in_use E q a \<Longrightarrow> in_use E q b"
proof (induction E a xs rule: replay.induct)
  case (2 E a z msg s xs)
  then obtain s' a' where p: "process_input E s a z msg = Some (s', a')" "replay E a' xs = Some b"
    by (auto split: Option.bind_splits)
  from holdsD [OF process_input_in_use [OF 2(3)] p(1)] 2(1) [OF p(1)] p(2) show ?case by simp
qed simp


section \<open>The wait ends\<close>

definition queue_next :: "'w env \<Rightarrow> queue_state \<Rightarrow> queue_state \<Rightarrow> bool" where
  "queue_next E st st' \<longleftrightarrow> (\<exists>e. queue_step E st e st')"

text \<open>
  The steps that are left once no call can come any more: three for a response in the channel, and
  as many for every goroutine as it has until its end.
\<close>

fun link_steps :: "linker \<Rightarrow> nat" where
  "link_steps (Asks z qname) = 6" | "link_steps (Delivers z msg) = 5" | "link_steps Ends = 1"

fun caller_steps :: "caller \<Rightarrow> nat" where
  "caller_steps Ready = 3" | "caller_steps (Sends z msg) = 7" | "caller_steps (Waits b) = 2"
| "caller_steps Closed = 1" | "caller_steps Departed = 0" | "caller_steps (Returned v) = 0"

fun worker_steps :: "consumer \<Rightarrow> nat" where
  "worker_steps Unstarted = 2" | "worker_steps Receives = 1" | "worker_steps (Handles z msg) = 3" | "worker_steps Marks = 2"
| "worker_steps Gone = 0" | "worker_steps Stuck = 0"

definition steps_left :: "queue_state \<Rightarrow> nat" where
  "steps_left st = sum_list (map link_steps (q_links st)) + 3 * length (q_queue st) + caller_steps (q_caller st) + worker_steps (q_worker st)"

lemma after_answer_steps: "link_steps (after_answer z response) < 6"
  by (auto simp: after_answer_def split: option.split)

lemma steps_left_decrease:
  assumes "queue_step E st e st'" "queue_ok st" "w_finished (q_auth st)"
  shows "steps_left st' < steps_left st"
  using assms
proof (induction rule: queue_step.induct)
  case (ask st ls z qname ls' s s' response l)
  with after_answer_steps [of z response] show ?case by (simp add: steps_left_def)
qed (auto simp: steps_left_def)

lemma finished_step: "queue_step E st e st' \<Longrightarrow> w_finished (q_auth st) \<Longrightarrow> w_finished (q_auth st')"
  by (induction rule: queue_step.induct) (auto dest: process_input_finished auth_result_finished)

lemma steps_bounded:
  assumes "(queue_next E ^^ k) st st'" "queue_ok st" "w_finished (q_auth st)"
  shows "k + steps_left st' \<le> steps_left st \<and> queue_ok st' \<and> w_finished (q_auth st')"
  using assms(1)
proof (induction k arbitrary: st')
  case (Suc k)
  then obtain t where "(queue_next E ^^ k) st t" "queue_next E t st'" by auto
  then obtain e where t: "(queue_next E ^^ k) st t" "queue_step E t e st'" using queue_next_def by blast
  from Suc.IH [OF t(1)] steps_left_decrease [OF t(2)] queue_ok_step [OF t(2)] finished_step [OF t(2)] show ?case by auto
qed (use assms in simp)

text \<open>A state from which no goroutine can go on.\<close>

definition all_done :: "queue_state \<Rightarrow> bool" where
  "all_done st \<longleftrightarrow> q_links st = [] \<and> q_queue st = [] \<and> q_worker st \<in> {Gone, Stuck} \<and> (q_caller st = Departed \<or> (\<exists>v. q_caller st = Returned v))"

lemma link_goes_on:
  assumes "queue_ok st" "q_links st = l # ls" "q_queue st = []" "\<not> queue_panic E st Inside"
  shows "\<exists>st'. queue_next E st st'"
proof (cases l)
  case (Asks z qname)
  obtain s :: "'a rstate" where True by simp
  from assms(2,4) Asks queue_panic.in_exchange [of z qname st E s]
  obtain s' response where "zone_exchange E s z (ds_query E qname) = Some (s', response)" by fastforce
  from queue_step.ask [OF _ this refl, of st "[]" ls] assms(2) Asks show ?thesis by (auto simp: queue_next_def)
next
  case (Delivers z msg)
  from assms have "has_room st" using closed_nothing_left(1) [OF assms(1)] by (auto simp: has_room_def queue_capacity_def)
  from queue_step.deliver [OF _ this, of "[]" z msg ls] assms(2) Delivers show ?thesis by (auto simp: queue_next_def)
next
  case Ends
  from queue_step.sign_off [of st "[]" ls E] assms(2) Ends show ?thesis by (auto simp: queue_next_def)
qed

lemma worker_goes_on:
  assumes "q_worker st \<in> {Unstarted, Marks} \<or> (\<exists>z msg. q_worker st = Handles z msg) \<or> q_worker st = Receives \<and> q_queue st \<noteq> []"
    and "\<not> queue_panic E st Inside"
  shows "\<exists>st'. queue_next E st st'"
proof -
  obtain s :: "'a rstate" where True by simp
  from assms(1) consider "q_worker st = Unstarted" | "q_worker st = Marks" | z msg where "q_worker st = Handles z msg"
    | z msg rest where "q_worker st = Receives" "q_queue st = (z, msg) # rest" by (cases "q_queue st") auto
  then show ?thesis
  proof cases
    case (3 z msg)
    with assms(2) queue_panic.in_AddResponse [of st z msg E s] obtain s' a where "process_input E s (q_auth st) z msg = Some (s', a)" by fastforce
    from queue_step.handle [OF 3 this] show ?thesis by (auto simp: queue_next_def)
  qed (use queue_step.start queue_step.mark queue_step.receive in \<open>fastforce simp: queue_next_def\<close>)+
qed

lemma caller_goes_on:
  assumes "queue_ok st" "q_links st = []" "q_queue st = []" "worker_work st = 0" "\<not> queue_panic E st Inside"
    and "q_caller st \<noteq> Departed" "\<forall>v. q_caller st \<noteq> Returned v"
  shows "\<exists>st'. queue_next E st st'"
proof (cases "q_caller st")
  case (Sends z msg)
  with assms(1,3) have "has_room st" by (auto simp: has_room_def queue_ok_def past_wait_def queue_capacity_def)
  from queue_step.send [OF Sends this] show ?thesis by (auto simp: queue_next_def)
next
  case (Waits b)
  with assms have "q_processing st = 0" by (auto simp: queue_ok_def outstanding_def caller_work_def)
  from queue_step.close [OF Waits this] show ?thesis by (auto simp: queue_next_def)
next
  case Closed
  obtain s :: "'a rstate" where True by simp
  from assms(5) queue_panic.in_Result [OF Closed, of E s] obtain a v where "auth_result E s (q_auth st) = Some (a, v)" by fastforce
  from queue_step.conclude [OF Closed this] show ?thesis by (auto simp: queue_next_def)
next
  case Ready
  from queue_step.finish [OF this] show ?thesis by (auto simp: queue_next_def)
qed (use assms(6,7) in auto)

lemma stuck_all_done:
  assumes "queue_ok st" "\<not> (\<exists>st'. queue_next E st st')" "\<not> queue_panic E st Inside"
  shows "all_done st"
proof -
  note idle_worker = worker_goes_on [OF _ assms(3)]
  have worker: "q_worker st = Receives \<and> q_queue st = [] \<or> q_worker st \<in> {Gone, Stuck}"
    using assms(2) idle_worker by (cases "q_worker st") auto
  then have queue: "q_queue st = []"
    using assms(1) closed_nothing_left(2) [OF assms(1)] by (auto simp: queue_ok_def)
  have links: "q_links st = []"
    using link_goes_on [OF assms(1) _ queue assms(3)] assms(2) by (cases "q_links st") auto
  have caller: "q_caller st = Departed \<or> (\<exists>v. q_caller st = Returned v)"
  proof -
    from worker have "worker_work st = 0" by (auto simp: worker_work_def)
    from caller_goes_on [OF assms(1) links queue this assms(3)] assms(2) show ?thesis by blast
  qed
  have "q_worker st \<noteq> Receives"
    using queue_step.exit [of st E] queue caller assms(1,2) by (auto simp: queue_next_def queue_ok_def past_wait_def)
  with worker queue links caller show ?thesis by (simp add: all_done_def)
qed


text \<open>
  A worker that starts only after \<open>close\<close> finds the field \<open>queue\<close> nil and waits on it for ever. It
  happens only where nothing was ever handed in, as after a query that fails at its first server.
\<close>

theorem worker_leaks:
  "\<exists>st. queue_run E (queue_start E q) [Silent, Silent, Silent] st \<and> q_caller st = Departed \<and> q_worker st = Stuck \<and>
     \<not> (\<exists>st'. queue_next E st st')"
proof -
  let ?s0 = "queue_start E q"
  let ?s1 = "?s0\<lparr>q_auth := (q_auth ?s0)\<lparr>w_finished := True\<rparr>, q_caller := Waits False\<rparr>"
  let ?s2 = "?s1\<lparr>q_closed := True, q_caller := Departed\<rparr>"
  let ?s3 = "?s2\<lparr>q_worker := Stuck\<rparr>"
  have "queue_step E ?s0 Silent ?s1" by (rule queue_step.finish) (simp add: queue_start_def)
  moreover have "queue_step E ?s1 Silent ?s2" using queue_step.close [of ?s1 False E] by (simp add: queue_start_def)
  moreover have "queue_step E ?s2 Silent ?s3" using queue_step.start [of ?s2 E] by (simp add: queue_start_def)
  ultimately have "queue_run E ?s0 [Silent, Silent, Silent] ?s3" by (rule queue_run_Cons [OF _ queue_run_Cons [OF _ queue_run_Cons [OF _ queue_run.stay]]])
  moreover have "\<not> queue_step E ?s3 e st'" for e st' by (auto elim!: queue_step.cases simp: queue_start_def)
  ultimately show ?thesis by (intro exI [of _ ?s3]) (auto simp: queue_next_def)
qed

lemma stuck_worker_idle:
  assumes "queue_run E (queue_start E q) es st" "q_worker st \<in> {Unstarted, Stuck}"
  shows "handled es = []"
  using assms
proof (induction "queue_start E q" es st rule: queue_run.induct)
  case (more es st' e st'')
  from more.hyps(3,2) more.prems show ?case by (cases rule: queue_step.cases) auto
qed simp

section \<open>The sequential operations are a schedule\<close>

text \<open>The state between two calls, when all the work is done.\<close>

definition at_rest :: "authenticator \<Rightarrow> queue_state" where
  "at_rest a = \<lparr>q_auth = a, q_queue = [], q_closed = False, q_processing = 0, q_links = [], q_caller = Ready, q_worker = Receives\<rparr>"

text \<open>The calls of the resolver, each with the state that it makes them in.\<close>

datatype call = Link nat string | Respond nat Msg

fun in_sequence :: "'w env \<Rightarrow> authenticator \<Rightarrow> (call \<times> 'w rstate) list \<Rightarrow> authenticator option" where
  "in_sequence E a [] = Some a"
| "in_sequence E a ((Link z qname, s) # cs) = do { (s', a') \<leftarrow> addDelegationSignerLink E s a z qname; in_sequence E a' cs }"
| "in_sequence E a ((Respond z msg, s) # cs) = do { (s', a') \<leftarrow> addResponse E s a z msg; in_sequence E a' cs }"

lemma start_at_rest: "queue_run E (queue_start E q) [Silent] (at_rest (newAuthenticator E q))"
  using queue_run_Cons [OF queue_step.start queue_run.stay, of "queue_start E q" E]
  by (simp add: queue_start_def at_rest_def)

text \<open>From the channel to the end of the work on a response.\<close>

lemma worked_on:
  assumes "process_input E s a z msg = Some (s', a')"
  shows "queue_run E ((at_rest a)\<lparr>q_queue := [(z, msg)], q_processing := 1\<rparr>) [Silent, Handled z msg s, Silent] (at_rest a')"
proof -
  let ?s0 = "(at_rest a)\<lparr>q_queue := [(z, msg)], q_processing := 1\<rparr>"
  let ?s1 = "?s0\<lparr>q_queue := [], q_worker := Handles z msg\<rparr>"
  let ?s2 = "?s1\<lparr>q_auth := a', q_worker := Marks\<rparr>"
  have "queue_step E ?s0 Silent ?s1" by (rule queue_step.receive) (simp_all add: at_rest_def)
  moreover have "queue_step E ?s1 (Handled z msg s) ?s2" by (rule queue_step.handle) (use assms in \<open>simp_all add: at_rest_def\<close>)
  moreover have "queue_step E ?s2 Silent (at_rest a')" using queue_step.mark [of ?s2 E] by (simp add: at_rest_def)
  ultimately show ?thesis by (rule queue_run_Cons [OF _ queue_run_Cons [OF _ queue_run_Cons [OF _ queue_run.stay]]])
qed

lemma addResponse_schedule:
  assumes "addResponse E s a z msg = Some (s', a')" "\<not> w_finished a"
  shows "queue_run E (at_rest a) [Submitted z msg, Queued z msg, Silent, Handled z msg s, Silent] (at_rest a')"
proof -
  let ?s1 = "(at_rest a)\<lparr>q_processing := 1, q_caller := Sends z msg\<rparr>"
  have "queue_step E (at_rest a) (Submitted z msg) ?s1" using queue_step.respond [of "at_rest a" E z msg] assms(2) by (simp add: at_rest_def)
  moreover have "queue_step E ?s1 (Queued z msg) ((at_rest a)\<lparr>q_queue := [(z, msg)], q_processing := 1\<rparr>)"
    using queue_step.send [of ?s1 z msg E] by (simp add: at_rest_def has_room_def queue_capacity_def)
  moreover have "process_input E s a z msg = Some (s', a')" using assms by (simp add: addResponse_def)
  ultimately show ?thesis by (blast intro: queue_run_Cons worked_on)
qed

lemma addDelegationSignerLink_schedule:
  assumes "addDelegationSignerLink E s a z qname = Some (s', a')" "\<not> w_finished a"
  shows "\<exists>es. queue_run E (at_rest a) es (at_rest a')"
proof -
  from assms obtain s1 response where x: "zone_exchange E s z (ds_query E qname) = Some (s1, response)"
    and rest: "(case (r_Msg response, r_Err response) of (Some msg, None) \<Rightarrow> process_input E s1 a z msg | _ \<Rightarrow> Some (s1, a)) = Some (s', a')"
    by (auto simp: addDelegationSignerLink_def split: Option.bind_splits)
  let ?s1 = "(at_rest a)\<lparr>q_processing := 1, q_links := [Asks z qname]\<rparr>" and ?l = "after_answer z response"
  let ?s2 = "(at_rest a)\<lparr>q_processing := 1 + added ?l, q_links := [?l]\<rparr>"
  have s1: "queue_step E (at_rest a) Silent ?s1" using queue_step.link [of "at_rest a" E z qname] assms(2) by (simp add: at_rest_def)
  have s2: "queue_step E ?s1 (answer_event ?l) ?s2" using queue_step.ask [OF _ x refl, of ?s1 "[]" "[]"] by (simp add: at_rest_def)
  have off: "queue_step E (st\<lparr>q_processing := n, q_links := [Ends]\<rparr>) Silent (st\<lparr>q_processing := n - 1, q_links := []\<rparr>)" for st n
    using queue_step.sign_off [of "st\<lparr>q_processing := n, q_links := [Ends]\<rparr>" "[]" "[]" E] by simp
  have "\<exists>es. queue_run E ?s2 es (at_rest a')"
  proof (cases ?l)
    case (Delivers z' msg)
    with rest have z': "z' = z" and p: "process_input E s1 a z msg = Some (s', a')" by (auto simp: after_answer_def split: option.splits)
    let ?s3 = "(at_rest a)\<lparr>q_queue := [(z, msg)], q_processing := 2, q_links := [Ends]\<rparr>"
    have "queue_step E ?s2 (Queued z msg) ?s3"
      using queue_step.deliver [of ?s2 "[]" z msg "[]" E] Delivers z' by (simp add: at_rest_def has_room_def queue_capacity_def)
    moreover have "queue_step E ?s3 Silent ((at_rest a)\<lparr>q_queue := [(z, msg)], q_processing := 1\<rparr>)"
      using off [of 2 "(at_rest a)\<lparr>q_queue := [(z, msg)]\<rparr>"] by (simp add: at_rest_def)
    ultimately show ?thesis by (blast intro: queue_run_Cons worked_on [OF p])
  next
    case Ends
    with rest have "a' = a" by (auto simp: after_answer_def split: option.splits)
    with off [of 1 "at_rest a"] Ends have "queue_step E ?s2 Silent (at_rest a')" by (simp add: at_rest_def)
    then show ?thesis by (blast intro: queue_run_Cons queue_run.stay)
  qed (simp add: after_answer_def split: option.splits)
  with s1 s2 show ?thesis by (blast intro: queue_run_Cons)
qed

lemma call_finished:
  "addResponse E s a z msg = Some (s', a') \<Longrightarrow> w_finished a' = w_finished a"
  "addDelegationSignerLink E s a z qname = Some (s', a') \<Longrightarrow> w_finished a' = w_finished a"
  by (auto simp: addResponse_def addDelegationSignerLink_def dest: process_input_finished split: Option.bind_splits option.splits if_splits)

lemma in_sequence_schedule:
  "in_sequence E a cs = Some b \<Longrightarrow> \<not> w_finished a \<Longrightarrow> \<exists>es. queue_run E (at_rest a) es (at_rest b)"
proof (induction E a cs rule: in_sequence.induct)
  case (1 E a)
  then show ?case by (auto intro: queue_run.stay)
next
  case (2 E a z qname s cs)
  from 2(2) obtain s' a' where c: "addDelegationSignerLink E s a z qname = Some (s', a')" "in_sequence E a' cs = Some b"
    by (auto split: Option.bind_splits)
  from 2(1) [OF c(1) refl] c call_finished(2) [OF c(1)] addDelegationSignerLink_schedule [OF c(1) 2(3)] 2(3)
  show ?case by (auto intro: queue_run_append)
next
  case (3 E a z msg s cs)
  from 3(2) obtain s' a' where c: "addResponse E s a z msg = Some (s', a')" "in_sequence E a' cs = Some b"
    by (auto split: Option.bind_splits)
  from 3(1) [OF c(1) refl] c call_finished(1) [OF c(1)] addResponse_schedule [OF c(1) 3(3)] 3(3)
  show ?case by (auto intro: queue_run_append)
qed

lemma replay_schedule:
  "replay E a xs = Some b \<Longrightarrow> \<not> w_finished a \<Longrightarrow> \<exists>es. queue_run E (at_rest a) es (at_rest b) \<and> handled es = xs"
proof (induction E a xs rule: replay.induct)
  case (1 E a)
  then show ?case by (intro exI [of _ "[]"]) (simp add: queue_run.stay)
next
  case (2 E a z msg s xs)
  from 2(2) obtain s' a' where p: "process_input E s a z msg = Some (s', a')" "replay E a' xs = Some b"
    by (auto split: Option.bind_splits)
  from p(1) 2(3) have "addResponse E s a z msg = Some (s', a')" by (simp add: addResponse_def)
  note first = addResponse_schedule [OF this 2(3)]
  from 2(1) [OF p(1) refl p(2)] 2(3) process_input_finished [OF p(1)] obtain es
    where "queue_run E (at_rest a') es (at_rest b)" "handled es = xs" by auto
  with queue_run_append [OF first this(1)] show ?case
    by (intro exI [of _ "[Submitted z msg, Queued z msg, Silent, Handled z msg s, Silent] @ es"]) simp
qed

lemma conclude_schedule:
  assumes "auth_result E s a = Some (a', v)"
  shows "\<exists>st. queue_run E (at_rest a) [Silent, Silent, Silent] st \<and> q_caller st = Returned v \<and> q_auth st = a'"
proof -
  let ?s1 = "(at_rest a)\<lparr>q_auth := a\<lparr>w_finished := True\<rparr>, q_caller := Waits True\<rparr>"
  let ?s2 = "?s1\<lparr>q_closed := True, q_caller := Closed\<rparr>"
  let ?s3 = "?s2\<lparr>q_auth := a', q_caller := Returned v\<rparr>"
  have "queue_step E (at_rest a) Silent ?s1" using queue_step.finish [of "at_rest a" E True] by (simp add: at_rest_def)
  moreover have "queue_step E ?s1 Silent ?s2" using queue_step.close [of ?s1 True E] by (simp add: at_rest_def)
  moreover have "queue_step E ?s2 Silent ?s3"
    by (rule queue_step.conclude) (use assms auth_result_same [of "a\<lparr>w_finished := True\<rparr>" a E s] in simp_all)
  ultimately have "queue_run E (at_rest a) [Silent, Silent, Silent] ?s3"
    by (rule queue_run_Cons [OF _ queue_run_Cons [OF _ queue_run_Cons [OF _ queue_run.stay]]])
  then show ?thesis by (intro exI [of _ ?s3]) simp
qed

text \<open>
  C39: the operations that the resolver's model uses are one of the interleavings. For every sequence
  of calls of \<open>addResponse\<close> and \<open>addDelegationSignerLink\<close>, each in its own state of the resolver, that
  the sequential definitions carry out, and for the verdict that they return then, the goroutines
  have a run from a new authenticator in which \<open>result\<close> returns this verdict and leaves the
  authenticator in the same state.
\<close>

theorem sequential_is_a_schedule:
  assumes "in_sequence E (newAuthenticator E q) cs = Some a" "auth_result E s a = Some (a', v)"
  shows "\<exists>es st. queue_run E (queue_start E q) es st \<and> q_caller st = Returned v \<and> q_auth st = a'"
proof -
  have "\<not> w_finished (newAuthenticator E q)" by (simp add: newAuthenticator_def)
  from in_sequence_schedule [OF assms(1) this] conclude_schedule [OF assms(2)] obtain es st
    where es: "queue_run E (at_rest (newAuthenticator E q)) es (at_rest a)"
      and st: "queue_run E (at_rest a) [Silent, Silent, Silent] st" "q_caller st = Returned v" "q_auth st = a'" by blast
  from queue_run_append [OF start_at_rest queue_run_append [OF es st(1)]] st(2,3) show ?thesis by blast
qed

section \<open>The order does not matter\<close>

text \<open>What the authenticator of the package sees of a response that is worked on.\<close>

definition input_of :: "'w env \<Rightarrow> authenticatorInput \<times> 'w rstate \<Rightarrow> input option" where
  "input_of E x = (case x of ((z, msg), s) \<Rightarrow> map_option (\<lambda>(s1, keys). \<lparr>in_zone = authZoneWrapper s1 z keys, in_msg = msg\<rparr>) (zone_dnskeys E s z))"

lemma process_input_errors:
  assumes "process_input E s a z msg = Some (s', a')"
  obtains e where "w_errors a' = w_errors a @ e"
  using assms by (auto simp: process_input_def split: Option.bind_splits)

lemma replay_errors: "replay E a xs = Some b \<Longrightarrow> \<exists>e. w_errors b = w_errors a @ e"
proof (induction E a xs rule: replay.induct)
  case (2 E a z msg s xs)
  then obtain s' a' where p: "process_input E s a z msg = Some (s', a')" "replay E a' xs = Some b"
    by (auto split: Option.bind_splits)
  from 2(1) [OF p(1) refl p(2)] process_input_errors [OF p(1)] show ?case by (metis append.assoc)
qed simp

text \<open>Without errors at the end there was none at any call.\<close>

lemma replay_clean:
  assumes "\<forall>s. now_unix E s = t"
  shows "replay E a xs = Some b \<Longrightarrow> w_errors b = [] \<Longrightarrow> \<exists>ins. those (map (input_of E) xs) = Some ins \<and>
    add_clean (E_lib E) (anchors_of E) (verify (E_lib E) (E_dnssec E) t) (w_auth a) ins = Some (w_auth b)"
  using assms
proof (induction E a xs rule: replay.induct)
  case (2 E a z msg s xs)
  from 2(2) obtain s' a' where p: "process_input E s a z msg = Some (s', a')" "replay E a' xs = Some b"
    by (auto split: Option.bind_splits)
  from 2(1) [OF p(1) refl p(2) 2(3,4)] obtain ins where ins: "those (map (input_of E) xs) = Some ins"
    "add_clean (E_lib E) (anchors_of E) (verify (E_lib E) (E_dnssec E) t) (w_auth a') ins = Some (w_auth b)" by blast
  from p(1) obtain keys err where k: "zone_dnskeys E s z = Some (s', keys)"
    "AddResponse (E_lib E) (anchors_of E) (verifier_at E s') (w_auth a) (authZoneWrapper s' z keys) msg = Some (w_auth a', err)"
    and e: "w_errors a' = w_errors a @ (case err of None \<Rightarrow> [] | Some e \<Rightarrow> [e])"
    by (auto simp: process_input_def split: Option.bind_splits)
  from replay_errors [OF p(2)] 2(3) e have "err = None" by (cases err) auto
  have "input_of E ((z, msg), s) = Some \<lparr>in_zone = authZoneWrapper s' z keys, in_msg = msg\<rparr>" by (simp add: input_of_def k(1))
  with \<open>err = None\<close> show ?case using ins k(2) 2(4) by (auto simp: verifier_at_def)
qed simp

lemma those_map_Some: "those xs = Some ys \<longleftrightarrow> xs = map Some ys"
  by (induction xs arbitrary: ys) (auto simp: map_eq_Cons_conv Cons_eq_map_conv split: option.split)

lemma perm_map_Some:
  assumes "mset xs = mset (map Some ys)"
  shows "\<exists>zs. xs = map Some zs \<and> mset zs = mset ys"
proof (intro exI [of _ "map the xs"] conjI)
  from assms have "set xs = Some ` set ys" by (metis mset_eq_setD set_map)
  then show "xs = map Some (map the xs)" by (intro nth_equalityI) (auto simp: subset_iff dest!: nth_mem)
  show "mset (map the xs) = mset ys" by (simp add: assms multiset.map_comp comp_def)
qed

lemma clean_replay:
  assumes "\<forall>s. now_unix E s = t"
  shows "replay E a xs = Some b \<Longrightarrow> w_errors a = [] \<Longrightarrow> map (input_of E) xs = map Some ins \<Longrightarrow>
    add_clean (E_lib E) (anchors_of E) (verify (E_lib E) (E_dnssec E) t) (w_auth a) ins = Some c \<Longrightarrow> w_errors b = [] \<and> w_auth b = c"
  using assms
proof (induction E a xs arbitrary: ins rule: replay.induct)
  case (2 E a z msg s xs)
  from 2(2) obtain s' a' where p: "process_input E s a z msg = Some (s', a')" "replay E a' xs = Some b"
    by (auto split: Option.bind_splits)
  then obtain keys err where k: "zone_dnskeys E s z = Some (s', keys)"
    "AddResponse (E_lib E) (anchors_of E) (verifier_at E s') (w_auth a) (authZoneWrapper s' z keys) msg = Some (w_auth a', err)"
    and e: "w_errors a' = w_errors a @ (case err of None \<Rightarrow> [] | Some e \<Rightarrow> [e])"
    by (auto simp: process_input_def split: Option.bind_splits)
  have "input_of E ((z, msg), s) = Some \<lparr>in_zone = authZoneWrapper s' z keys, in_msg = msg\<rparr>" by (simp add: input_of_def k(1))
  with 2(4) obtain ins' where ins: "ins = \<lparr>in_zone = authZoneWrapper s' z keys, in_msg = msg\<rparr> # ins'" "map (input_of E) xs = map Some ins'"
    by (auto simp: Cons_eq_map_conv)
  from 2(5,6) k(2) ins(1) have "err = None"
    "add_clean (E_lib E) (anchors_of E) (verify (E_lib E) (E_dnssec E) t) (w_auth a') ins' = Some c"
    by (auto simp: verifier_at_def split: option.splits)
  with 2(1) [OF p(1) refl p(2) _ ins(2)] e 2(3,6) show ?case by simp
qed simp

lemma auth_result_errors: "auth_result E s a = Some (a', v) \<Longrightarrow> w_errors a' = w_errors a"
  by (auto simp: auth_result_def Let_def split: list.splits Option.bind_splits)

text \<open>
  C22: the verdict does not depend on the interleaving. Take two runs within the same second in which
  the same responses are worked on, with the same keys of their zones, one response for a zone of
  each depth. If the first run ends without an error of a response, then so does the second, and
  both return the same verdict from the same state of the authenticator.
\<close>

theorem verdict_schedule_independent:
  assumes "queue_run E (queue_start E q) es st" "q_caller st = Returned v" "w_errors (q_auth st) = []"
    and "queue_run E (queue_start E q) es' st'" "q_caller st' = Returned v'"
    and "mset (map (input_of E) (handled es')) = mset (map (input_of E) (handled es))"
    and "distinct (map (map_option (position_of (E_lib E)) \<circ> input_of E) (handled es))" and "\<forall>s. now_unix E s = t"
  shows "v' = v \<and> w_auth (q_auth st') = w_auth (q_auth st) \<and> w_errors (q_auth st') = []"
proof -
  obtain a s where a: "replay E (newAuthenticator E q) (handled es) = Some a" "auth_result E s a = Some (q_auth st, v)"
    by (rule returned_replay [OF assms(1,2)])
  obtain b s' where b: "replay E (newAuthenticator E q) (handled es') = Some b" "auth_result E s' b = Some (q_auth st', v')"
    by (rule returned_replay [OF assms(4,5)])
  let ?add = "add_clean (E_lib E) (anchors_of E) (verify (E_lib E) (E_dnssec E) t) (NewAuth (E_lib E) q)"
  from auth_result_errors [OF a(2)] assms(3) have ea: "w_errors a = []" by simp
  from replay_clean [OF assms(8) a(1) ea] obtain ins where ins: "map (input_of E) (handled es) = map Some ins" "?add ins = Some (w_auth a)"
    by (auto simp: those_map_Some newAuthenticator_def)
  from perm_map_Some [OF assms(6) [unfolded ins(1)]] obtain ins'
    where ins': "map (input_of E) (handled es') = map Some ins'" and "mset ins' = mset ins" by blast
  moreover have "distinct (map (position_of (E_lib E)) ins)"
  proof -
    have "map (map_option (position_of (E_lib E)) \<circ> input_of E) (handled es) = map (map_option (position_of (E_lib E))) (map Some ins)"
      by (simp flip: ins(1))
    also have "\<dots> = map Some (map (position_of (E_lib E)) ins)" by simp
    finally show ?thesis using assms(7) by (simp add: distinct_map inj_on_def)
  qed
  ultimately have "?add ins' = Some (w_auth a)" using add_clean_perm [OF ins(2)] by blast
  from clean_replay [OF assms(8) b(1) _ ins'] this have eb: "w_errors b = []" "w_auth b = w_auth a"
    by (auto simp: newAuthenticator_def)
  with ea have "auth_result E s' b = auth_result E s' a" by (intro auth_result_same) (simp add: same_progress_def)
  also have "\<dots> = auth_result E s a"
  proof -
    have "verifier_at E s' = verifier_at E s" using assms(8) by (simp add: verifier_at_def)
    then show ?thesis by (simp only: auth_result_def)
  qed
  finally show ?thesis using a(2) b(2) auth_result_errors [OF b(2)] eb(1) by simp
qed

text \<open>A run for every sequence of responses that can be worked on.\<close>

lemma replay_run:
  assumes "replay E (newAuthenticator E q) xs = Some a" "auth_result E s a = Some (a', v)"
  shows "\<exists>es st. queue_run E (queue_start E q) es st \<and> handled es = xs \<and> q_caller st = Returned v \<and> q_auth st = a'"
proof -
  have "\<not> w_finished (newAuthenticator E q)" by (simp add: newAuthenticator_def)
  from replay_schedule [OF assms(1) this] conclude_schedule [OF assms(2)] obtain es st
    where es: "queue_run E (at_rest (newAuthenticator E q)) es (at_rest a)" "handled es = xs"
      and st: "queue_run E (at_rest a) [Silent, Silent, Silent] st" "q_caller st = Returned v" "q_auth st = a'" by blast
  from queue_run_append [OF start_at_rest queue_run_append [OF es(1) st(1)]] es(2) st(2,3) show ?thesis
    by (intro exI [of _ "[Silent] @ es @ [Silent, Silent, Silent]"] exI [of _ st]) simp
qed

section \<open>Examples\<close>

text \<open>The signed root answers a question about \<open>e.\<close>; the resolver knows the root and the zone \<open>e.\<close>.\<close>

definition root_q :: Question where
  "root_q = \<lparr>qName = ''e.'', qQtype = TypeA, qQclass = 1\<rparr>"

definition signed_answer :: Msg where
  "signed_answer = root_answer False ''e.'' TypeA ((root_query True)\<lparr>mResponse := True, mExtra := []\<rparr>)"

definition worked_result :: "(authenticatorInput \<times> nat rstate) list \<Rightarrow> (authenticator \<times> verdict) option" where
  "worked_result xs = do { a \<leftarrow> replay (root_env False) (newAuthenticator (root_env False) root_q) xs; auth_result (root_env False) ex_state a }"

definition from_root :: "authenticatorInput \<times> nat rstate" where
  "from_root = ((0, signed_answer), ex_state)"

definition from_child :: "authenticatorInput \<times> nat rstate" where
  "from_child = ((1, signed_answer), ex_state)"

lemma worked_run:
  assumes "worked_result xs = Some (a', v)"
  obtains es st where "queue_run (root_env False) (queue_start (root_env False) root_q) es st" "handled es = xs" "q_caller st = Returned v" "q_auth st = a'"
proof -
  from assms obtain a where "replay (root_env False) (newAuthenticator (root_env False) root_q) xs = Some a"
    "auth_result (root_env False) ex_state a = Some (a', v)" by (auto simp: worked_result_def split: Option.bind_splits)
  from replay_run [OF this] that show thesis by blast
qed

definition outcome_is :: "AuthenticationResult \<Rightarrow> (authenticator \<times> verdict) option \<Rightarrow> bool" where
  "outcome_is st x = (case x of None \<Rightarrow> False | Some (a, v) \<Rightarrow> w_errors a = [] \<and> fst v = st)"

lemma worked_outcomes:
  "outcome_is Secure (worked_result [from_root])"
  "outcome_is Bogus (worked_result [from_root, from_child])"
  "outcome_is Bogus (worked_result [from_child, from_root])"
  by code_simp+

lemma outcome_run:
  assumes "outcome_is r (worked_result xs)"
  obtains es st doe err where "queue_run (root_env False) (queue_start (root_env False) root_q) es st" "handled es = xs"
    "q_caller st = Returned (r, doe, err)" "w_errors (q_auth st) = []"
proof -
  from assms obtain a doe err where a: "worked_result xs = Some (a, r, doe, err)" "w_errors a = []"
    by (auto simp: outcome_is_def split: option.splits prod.splits)
  show thesis by (rule worked_run [OF a(1)]) (use that a(2) in blast)
qed

theorem queue_never_misused_witness:
  "\<exists>es st. queue_run (root_env False) (queue_start (root_env False) root_q) es st \<and> handled es = [from_root] \<and> q_processing st = outstanding st"
  by (rule outcome_run [OF worked_outcomes(1)]) (use queue_never_misused in blast)

theorem queue_refines_sequential_witness:
  "\<exists>es st. queue_run (root_env False) (queue_start (root_env False) root_q) es st \<and> handled es = [from_root] \<and> mset (submitted es) = {#fst from_root#}"
  by (rule outcome_run [OF worked_outcomes(1)]) (use queue_refines_sequential in fastforce)



theorem sequential_is_a_schedule_witness:
  "\<exists>es st a v. queue_run (root_env False) (queue_start (root_env False) root_q) es st \<and> q_caller st = Returned v \<and> fst v = Secure"
proof -
  have "outcome_is Secure (do { a \<leftarrow> in_sequence (root_env False) (newAuthenticator (root_env False) root_q) [(Respond 0 signed_answer, ex_state)];
      auth_result (root_env False) ex_state a })" by code_simp
  then obtain a a' v where "in_sequence (root_env False) (newAuthenticator (root_env False) root_q) [(Respond 0 signed_answer, ex_state)] = Some a"
    "auth_result (root_env False) ex_state a = Some (a', v)" "fst v = Secure"
    by (auto simp: outcome_is_def Option.bind_eq_Some_conv split: option.splits)
  with sequential_is_a_schedule [OF this(1,2)] show ?thesis by blast
qed

theorem verdict_schedule_independent_witness:
  "\<exists>es st es' st' v. queue_run (root_env False) (queue_start (root_env False) root_q) es st \<and> handled es = [from_root, from_child] \<and>
     queue_run (root_env False) (queue_start (root_env False) root_q) es' st' \<and> handled es' = [from_child, from_root] \<and>
     q_caller st = Returned v \<and> q_caller st' = Returned v"
proof -
  obtain es st doe err where r: "queue_run (root_env False) (queue_start (root_env False) root_q) es st" "handled es = [from_root, from_child]"
    "q_caller st = Returned (Bogus, doe, err)" "w_errors (q_auth st) = []" by (rule outcome_run [OF worked_outcomes(2)])
  obtain es' st' doe' err' where r': "queue_run (root_env False) (queue_start (root_env False) root_q) es' st'" "handled es' = [from_child, from_root]"
    "q_caller st' = Returned (Bogus, doe', err')" by (rule outcome_run [OF worked_outcomes(3)])
  have "distinct (map (map_option (position_of (E_lib (root_env False))) \<circ> input_of (root_env False)) [from_root, from_child])" by code_simp
  moreover have "\<forall>s. now_unix (root_env False) s = 900" by (simp add: now_unix_def now_ns_def root_env_def)
  ultimately have "(Bogus, doe', err') = (Bogus, doe, err)"
    using verdict_schedule_independent [OF r(1,3,4) r'(1,3)] r(2) r'(2) by (auto simp: add.commute)
  with r r' show ?thesis by metis
qed

section \<open>What a Secure verdict covers\<close>

definition in_buffer :: "authenticator \<Rightarrow> Msg \<Rightarrow> bool" where
  "in_buffer a msg \<longleftrightarrow> (\<exists>i \<in> set (filled (inputBuffer (w_auth a))). in_msg i = msg)"

lemma process_input_in_step:
  assumes "process_input E s a z msg = Some (s', a')" "in_step (w_auth a)"
  shows "in_step (w_auth a') \<and> (\<forall>m. in_buffer a m \<longrightarrow> in_buffer a' m) \<and> (w_errors a' = [] \<longrightarrow> in_buffer a' msg)"
proof -
  from assms(1) obtain s1 keys e where add: "AddResponse (E_lib E) (anchors_of E) (verifier_at E s1) (w_auth a) (authZoneWrapper s1 z keys) msg = Some (w_auth a', e)"
    and err: "w_errors a' = w_errors a @ (case e of None \<Rightarrow> [] | Some x \<Rightarrow> [x])"
    by (auto simp: process_input_def split: Option.bind_splits)
  note step = verifier.AddResponse_in_step [OF add verifier_among assms(2)]
  have "in_buffer a' msg" if "w_errors a' = []"
  proof -
    from that err have "e = None" by (cases e) auto
    with step have "\<lparr>in_zone = authZoneWrapper s1 z keys, in_msg = msg\<rparr> \<in> set (filled (inputBuffer (w_auth a')))" by blast
    then show ?thesis unfolding in_buffer_def by (intro bexI [of _ "\<lparr>in_zone = authZoneWrapper s1 z keys, in_msg = msg\<rparr>"]) simp_all
  qed
  with step show ?thesis unfolding in_buffer_def by blast
qed

lemma replay_in_step:
  "replay E a xs = Some b \<Longrightarrow> in_step (w_auth a) \<Longrightarrow>
    in_step (w_auth b) \<and> (\<forall>m. in_buffer a m \<longrightarrow> in_buffer b m) \<and> (w_errors b = [] \<longrightarrow> (\<forall>((z, msg), s) \<in> set xs. in_buffer b msg))"
proof (induction E a xs rule: replay.induct)
  case (2 E a z msg s xs)
  from 2(2) obtain s' a' where p: "process_input E s a z msg = Some (s', a')" "replay E a' xs = Some b"
    by (auto split: Option.bind_splits)
  note first = process_input_in_step [OF p(1) 2(3)] and rest = 2(1) [OF p(1) refl p(2)]
  from replay_errors [OF p(2)] have "w_errors b = [] \<Longrightarrow> w_errors a' = []" by auto
  with first rest show ?case by auto
qed simp

lemma auth_result_covers:
  assumes "auth_result E s a = Some (a', Secure, doe, err)" "in_step (w_auth a)" "in_use E q a" "in_buffer a msg"
  shows "trusted E q (a_results (w_auth a')) \<and> (\<exists>r \<in> set (a_results (w_auth a')). rs_msg r = msg \<and> rs_state r = Secure)"
proof -
  from assms(1) have r: "Result (E_lib E) (anchors_of E) (verify (E_lib E) (E_dnssec E) (now_unix E s)) (w_auth a) = Some (w_auth a', Secure, doe, err)"
    by (auto simp: auth_result_def verifier_at_def Let_def split: list.splits Option.bind_splits)
  note secure = Result_Secure [OF assms(3) [unfolded in_use_def] r]
  from assms(4) obtain i where "i \<in> set (filled (inputBuffer (w_auth a)))" "in_msg i = msg" by (auto simp: in_buffer_def)
  with verifier.Result_covers [OF r rangeI assms(2)] obtain x where "x \<in> set (a_results (w_auth a'))" "in_msg (source_of x) = msg"
    by (metis (no_types, lifting) imageE set_map)
  with secure show ?thesis using trust_chain_signed by (fastforce simp: trusted_def source_of_def)
qed

text \<open>
  C2: a Secure verdict is about every response. Under every interleaving, when \<open>result\<close> returns Secure
  and no more than one response was refused, every response that the resolver or a link handed in,
  the one with the records that go to the client among them, is one of the Secure responses of the
  chain that leads from the trust anchors to the answer or denial: none of them was left out of the
  validation. (With two or more refused responses this fails: \<open>unsigned_answer_authenticated\<close>.)
\<close>

theorem secure_covers_every_response:
  assumes "queue_run E (queue_start E q) es st" "q_caller st = Returned (Secure, doe, err)" "length (w_errors (q_auth st)) < 2"
    and "(z, msg) \<in> set (submitted es)"
  shows "trusted E q (a_results (w_auth (q_auth st))) \<and> (\<exists>r \<in> set (a_results (w_auth (q_auth st))). rs_msg r = msg \<and> rs_state r = Secure)"
proof -
  obtain a s where a: "replay E (newAuthenticator E q) (handled es) = Some a" "auth_result E s a = Some (q_auth st, Secure, doe, err)"
    by (rule returned_replay [OF assms(1,2)])
  from a(2) have "length (w_errors a) \<noteq> 1"
    by (auto simp: auth_result_def Let_def length_Suc_conv split: list.splits)
  with auth_result_errors [OF a(2)] assms(3) have clean: "w_errors a = []" by (cases "w_errors a") auto
  have new: "in_step (w_auth (newAuthenticator E q))" by (simp add: newAuthenticator_def in_step_new)
  note step = replay_in_step [OF a(1) new]
  from closed_complete [OF assms(1) returned_closed [OF assms(1,2)]] assms(4) have "(z, msg) \<in> set (map fst (handled es))"
    by (metis set_mset_mset)
  with step clean have "in_buffer a msg" by fastforce
  with auth_result_covers [OF a(2) _ replay_in_use [OF a(1) in_use_new]] step show ?thesis by blast
qed

theorem secure_covers_every_response_witness:
  "\<exists>es st. queue_run (root_env False) (queue_start (root_env False) root_q) es st \<and> fst from_root \<in> set (submitted es) \<and>
     (\<exists>r \<in> set (a_results (w_auth (q_auth st))). rs_msg r = signed_answer \<and> rs_state r = Secure)"
proof -
  obtain es st doe err where r: "queue_run (root_env False) (queue_start (root_env False) root_q) es st" "handled es = [from_root]"
    "q_caller st = Returned (Secure, doe, err)" "w_errors (q_auth st) = []" by (rule outcome_run [OF worked_outcomes(1)])
  have "mset (map fst (handled es)) = mset (submitted es)" using closed_complete [OF r(1) returned_closed [OF r(1,3)]] by simp
  then have "mset (submitted es) = {#fst from_root#}" using r(2) by simp
  then have sub: "(0, signed_answer) \<in> set (submitted es)" by (metis from_root_def fst_conv set_mset_mset set_mset_single singletonI)
  have "length (w_errors (q_auth st)) < 2" using r(4) by simp
  from secure_covers_every_response [OF r(1,3) this sub] r(1) sub show ?thesis by (intro exI [of _ es] exI [of _ st]) (simp add: from_root_def)
qed

end
