(* ===== verification/Server.thy ===== *)
theory Server
  imports Resolver
begin

text \<open>
  The DNS server in front of the resolver: the first half of \<open>server.go\<close>. The server and its
  prefetch manager have a resolver each; both share one cache. The model keeps the cache and the
  outside world in the state of the first resolver and lends them to the second while it runs.
  Workers take the queries from a channel; here they and the goroutines that prefetch run one after
  the other, and \<open>Server_Workers\<close> has them in every order. What is written to the client is part of
  the result.
\<close>

section \<open>State and operations\<close>

record Config =
  EnableDNSSEC :: bool
  EnableCache :: bool
  CacheSize :: int

record 'w Server =
  sv_resolver :: "'w rstate"
  sv_prefetch :: "'w rstate"
  sv_popular :: "(string \<times> int) list"
  sv_validator :: "Authenticator option"

text \<open>The two resolvers are created with the same cache.\<close>

definition new_server :: "'w env \<Rightarrow> RR list \<Rightarrow> error option \<Rightarrow> int \<Rightarrow> Authenticator option \<Rightarrow> 'w \<Rightarrow> 'w Server option" where
  "new_server E rrs err cacheSize validator w = do {
     s1 \<leftarrow> NewResolver E rrs err (Some (new_cache cacheSize)) w;
     s2 \<leftarrow> NewResolver E rrs err (Some (new_cache cacheSize)) w;
     Some \<lparr>sv_resolver = s1, sv_prefetch = s2, sv_popular = [], sv_validator = validator\<rparr>
   }"

definition NewServer :: "'w env \<Rightarrow> RR list \<Rightarrow> error option \<Rightarrow> 'w \<Rightarrow> 'w Server option" where
  "NewServer E rrs err w = new_server E rrs err 10000 None w"

definition NewServerWithConfig :: "'w env \<Rightarrow> RR list \<Rightarrow> error option \<Rightarrow> Config \<Rightarrow> 'w \<Rightarrow> 'w Server option" where
  "NewServerWithConfig E rrs err cfg w =
     new_server E rrs err (if CacheSize cfg > 0 then CacheSize cfg else 100000)
       (if EnableDNSSEC cfg then Some (NewAuth (E_lib E) \<lparr>qName = [], qQtype = 0, qQclass = 0\<rparr>) else None) w"

text \<open>The calls of the cache, at the time of the world.\<close>

definition server_get :: "'w env \<Rightarrow> 'w Server \<Rightarrow> Question \<Rightarrow> u16 \<Rightarrow> ('w Server \<times> Msg option) option" where
  "server_get E s q requestID = do {
     c \<leftarrow> rcache (sv_resolver s);
     let (c1, m) = cache_get c q requestID (now_ns E (sv_resolver s));
     Some (s\<lparr>sv_resolver := (sv_resolver s)\<lparr>rcache := Some c1\<rparr>\<rparr>, m)
   }"

definition server_set :: "'w env \<Rightarrow> 'w Server \<Rightarrow> Question \<Rightarrow> Msg \<Rightarrow> 'w Server option" where
  "server_set E s q msg = do {
     c \<leftarrow> rcache (sv_resolver s);
     c1 \<leftarrow> cache_set c q msg (now_ns E (sv_resolver s));
     Some (s\<lparr>sv_resolver := (sv_resolver s)\<lparr>rcache := Some c1\<rparr>\<rparr>)
   }"

definition server_setNegative :: "'w env \<Rightarrow> 'w Server \<Rightarrow> Question \<Rightarrow> int \<Rightarrow> 'w Server option" where
  "server_setNegative E s q rcode = do {
     c \<leftarrow> rcache (sv_resolver s);
     c1 \<leftarrow> cache_setNegative (E_lib E) c q rcode (now_ns E (sv_resolver s));
     Some (s\<lparr>sv_resolver := (sv_resolver s)\<lparr>rcache := Some c1\<rparr>\<rparr>)
   }"

text \<open>A query of the prefetch manager's resolver.\<close>

definition prefetch_exchange :: "'w env \<Rightarrow> 'w Server \<Rightarrow> Msg \<Rightarrow> ('w Server \<times> Response) option" where
  "prefetch_exchange E s m = do {
     (p, r) \<leftarrow> Exchange E ((sv_prefetch s)\<lparr>rcache := rcache (sv_resolver s), world := world (sv_resolver s)\<rparr>) m;
     Some (s\<lparr>sv_prefetch := p, sv_resolver := (sv_resolver s)\<lparr>rcache := rcache p, world := world p\<rparr>\<rparr>, r)
   }"

definition prefetchRecord :: "'w env \<Rightarrow> 'w Server \<Rightarrow> Question \<Rightarrow> 'w Server option" where
  "prefetchRecord E s q = do {
     (s1, hit) \<leftarrow> server_get E s q 0;
     if hit \<noteq> None then Some s1
     else do {
       let msg = SetEdns0 (E_lib E) (SetQuestion (E_lib E) new_Msg (qName q) (qQtype q)) 4096 True;
       (s2, resp) \<leftarrow> prefetch_exchange E s1 msg;
       if r_Err resp \<noteq> None then Some s2
       else do { m \<leftarrow> r_Msg resp; server_set E s2 q m }
     }
   }"

definition threshold :: int where
  "threshold = 3"

definition recordAccess :: "'w env \<Rightarrow> 'w Server \<Rightarrow> Question \<Rightarrow> 'w Server option" where
  "recordAccess E s q =
     (let key = cache_key q;
          n = (case map_of (sv_popular s) key of None \<Rightarrow> 0 | Some n \<Rightarrow> n) + 1
      in if n \<ge> threshold then prefetchRecord E (s\<lparr>sv_popular := AList.update key 0 (sv_popular s)\<rparr>) q
         else Some (s\<lparr>sv_popular := AList.update key n (sv_popular s)\<rparr>))"

fun prefetch_loop :: "'w env \<Rightarrow> 'w Server \<Rightarrow> Question list \<Rightarrow> 'w Server option" where
  "prefetch_loop E s [] = Some s"
| "prefetch_loop E s (q # qs) = do { s1 \<leftarrow> prefetchRecord E s q; prefetch_loop E s1 qs }"

text \<open>One tick of \<open>prefetchAllDomains\<close>.\<close>

definition prefetchAllDomains :: "'w env \<Rightarrow> 'w Server \<Rightarrow> 'w Server option" where
  "prefetchAllDomains E s = do {
     c \<leftarrow> rcache (sv_resolver s);
     s1 \<leftarrow> prefetch_loop E s (getAllDomains c (now_ns E (sv_resolver s)));
     Some (s1\<lparr>sv_popular := []\<rparr>)
   }"

text \<open>One tick of \<open>cacheCleaner\<close>.\<close>

definition cacheCleaner :: "'w env \<Rightarrow> 'w Server \<Rightarrow> 'w Server option" where
  "cacheCleaner E s = do {
     c \<leftarrow> rcache (sv_resolver s);
     Some (s\<lparr>sv_resolver := (sv_resolver s)\<lparr>rcache := Some (cleanExpired c (now_ns E (sv_resolver s)))\<rparr>\<rparr>)
   }"

text \<open>The zone that the server validates with: the root, without any key.\<close>

definition basicZone :: Zone where
  "basicZone = \<lparr>z_Name = ''.'', z_DNSKEYs = ([], None)\<rparr>"

definition validateDNSSEC :: "'w env \<Rightarrow> 'w Server \<Rightarrow> Msg \<Rightarrow> ('w Server \<times> string \<times> error option) option" where
  "validateDNSSEC E s msg =
     (case sv_validator s of
        None \<Rightarrow> Some (s, ''Insecure'', None)
      | Some a \<Rightarrow> do {
          let vf = verifier_at E (sv_resolver s);
          (a1, err) \<leftarrow> AddResponse (E_lib E) (anchors_of E) vf a basicZone msg;
          let s1 = s\<lparr>sv_validator := Some a1\<rparr>;
          (case err of
             Some e \<Rightarrow> Some (s1, ''Bogus'', Some e)
           | None \<Rightarrow> do {
               (a2, result, doe, err2) \<leftarrow> Result (E_lib E) (anchors_of E) vf a1;
               Some (s1\<lparr>sv_validator := Some a2\<rparr>, if result = Unknown then ''Insecure'' else AuthenticationResult_String result, None)
             })
        })"

text \<open>The text of an error is kept for library errors only; no text of the program itself is this one.\<close>

definition is_NXDOMAIN :: "error \<Rightarrow> bool" where
  "is_NXDOMAIN e \<longleftrightarrow> e = LibErr ''NXDOMAIN''"

definition reply_to :: "'w env \<Rightarrow> Msg \<Rightarrow> Msg" where
  "reply_to E r =
     (let m = (SetReply (E_lib E) new_Msg r)\<lparr>mAuthoritative := False\<rparr>
      in case IsEdns0 (E_lib E) r of None \<Rightarrow> m | Some opt \<Rightarrow> SetEdns0 (E_lib E) m 4096 (OptDo (E_lib E) opt))"

definition wants_dnssec :: "'w env \<Rightarrow> Msg \<Rightarrow> bool" where
  "wants_dnssec E r = (case IsEdns0 (E_lib E) r of None \<Rightarrow> False | Some opt \<Rightarrow> OptDo (E_lib E) opt)"

definition processQuery :: "'w env \<Rightarrow> 'w Server \<Rightarrow> Msg \<Rightarrow> ('w Server \<times> Msg) option" where
  "processQuery E s r = do {
     q \<leftarrow> at (mQuestion r) 0;
     (s1, cached) \<leftarrow> server_get E s q (mId r);
     (case cached of
        Some c \<Rightarrow> Some (s1, if wants_dnssec E r then c\<lparr>mAuthenticatedData := True\<rparr> else c)
      | None \<Rightarrow> do {
          s2 \<leftarrow> recordAccess E s1 q;
          (res, resp) \<leftarrow> Exchange E (sv_resolver s2) r;
          let s3 = s2\<lparr>sv_resolver := res\<rparr>;
          (case r_Err resp of
             Some e \<Rightarrow> do {
               let rcode = (if is_NXDOMAIN e then RcodeNameError else RcodeServerFailure);
               s4 \<leftarrow> server_setNegative E s3 q rcode;
               Some (s4, (reply_to E r)\<lparr>mRcode := rcode\<rparr>)
             }
           | None \<Rightarrow> do {
               msg \<leftarrow> r_Msg resp;
               (s4, verdict) \<leftarrow>
                 (if wants_dnssec E r \<and> sv_validator s3 \<noteq> None
                  then map_option (\<lambda>(s4, authResult, err). (s4, Some (authResult, err))) (validateDNSSEC E s3 msg)
                  else Some (s3, None));
               if (case verdict of None \<Rightarrow> False | Some (authResult, err) \<Rightarrow> err \<noteq> None \<or> authResult \<noteq> ''Secure'')
               then Some (s4, (reply_to E r)\<lparr>mRcode := RcodeServerFailure\<rparr>)
               else do {
                 let msg1 = (if wants_dnssec E r then msg\<lparr>mAuthenticatedData := (verdict \<noteq> None)\<rparr> else msg);
                 s5 \<leftarrow> server_set E s4 q msg1;
                 Some (s5, msg1)
               }
             })
        })
   }"

text \<open>The queue that \<open>handleDNS\<close> fills and a worker empties.\<close>

fun worker :: "'w env \<Rightarrow> 'w Server \<Rightarrow> Msg list \<Rightarrow> ('w Server \<times> Msg list) option" where
  "worker E s [] = Some (s, [])"
| "worker E s (r # rs) = do {
     (s1, m) \<leftarrow> processQuery E s r;
     (s2, ms) \<leftarrow> worker E s1 rs;
     Some (s2, m # ms)
   }"

section \<open>A validator without keys\<close>

text \<open>Without keys no response is Secure.\<close>

lemma verify_no_keys:
  assumes "z_DNSKEYs zone = ([], None)" "verify L cfg now zone msg ds = Some (r, st, err)"
  shows "st \<noteq> Secure"
  using assms by (auto simp: verify_def verifyDNSKEYs_def Let_def split: if_splits)

definition needs_keys :: "verify_fun \<Rightarrow> bool" where
  "needs_keys vf \<longleftrightarrow> (\<forall>zone msg ds r st err. z_DNSKEYs zone = ([], None) \<longrightarrow> vf zone msg ds = Some (r, st, err) \<longrightarrow> st \<noteq> Secure)"

lemma verifier_needs_keys: "needs_keys (verifier_at E s)"
  unfolding needs_keys_def verifier_at_def using verify_no_keys by blast

definition keyless :: "Authenticator \<Rightarrow> bool" where
  "keyless a \<longleftrightarrow> (\<forall>r \<in> set (a_results a). rs_state r \<noteq> Secure) \<and>
     (\<forall>i. Some i \<in> set (inputBuffer a) \<longrightarrow> z_DNSKEYs (in_zone i) = ([], None))"

lemma keyless_new: "keyless (NewAuth L q)"
  by (auto simp: keyless_def NewAuth_def)

lemma keyless_idx [simp]: "keyless (a\<lparr>inputBufferIdx := n\<rparr>) = keyless a"
  by (simp add: keyless_def)

lemma processResponse_keyless:
  assumes vf: "needs_keys vf" and "processResponse L anchors vf a zone msg = Some (a', e)" "keyless a" "z_DNSKEYs zone = ([], None)"
  shows "keyless a'"
proof -
  have ns: "vf zone msg ds \<noteq> Some (r, Secure, err)" for ds r err
    using vf assms(4) unfolding needs_keys_def by blast
  from assms(2,3) show ?thesis
    by (auto simp: ns processResponse_def process_def Let_def keyless_def split: Option.bind_splits option.splits if_splits)
qed

lemma drain_keyless:
  assumes vf: "needs_keys vf"
  shows "drain L anchors vf a xs = Some (a', e) \<Longrightarrow> keyless a \<Longrightarrow>
     (\<And>i. Some i \<in> set xs \<Longrightarrow> z_DNSKEYs (in_zone i) = ([], None)) \<Longrightarrow> keyless a'"
proof (induction xs arbitrary: a)
  case (Cons x xs)
  show ?case
  proof (cases x)
    case (Some i)
    from Cons.prems(1) Some obtain a1 err where p: "processResponse L anchors vf a (in_zone i) (in_msg i) = Some (a1, err)"
      and rest: "(case err of Some e \<Rightarrow> Some (a1, Some e)
        | None \<Rightarrow> drain L anchors vf (a1\<lparr>inputBufferIdx := Suc (inputBufferIdx a1)\<rparr>) xs) = Some (a', e)"
      by (auto split: Option.bind_splits)
    have "keyless a1" using processResponse_keyless [OF vf p Cons.prems(2)] Cons.prems(3) Some by simp
    with rest Cons.IH Cons.prems(3) show ?thesis by (cases err) auto
  qed (use Cons in auto)
qed auto

lemma drain_all_keyless:
  assumes vf: "needs_keys vf"
  shows "drain_all L anchors vf a xs = Some (a', e) \<Longrightarrow> keyless a \<Longrightarrow>
     (\<And>i. Some i \<in> set xs \<Longrightarrow> z_DNSKEYs (in_zone i) = ([], None)) \<Longrightarrow> keyless a'"
proof (induction xs arbitrary: a)
  case (Cons x xs)
  show ?case
  proof (cases x)
    case (Some i)
    from Cons.prems(1) Some obtain a1 err where p: "processResponse L anchors vf a (in_zone i) (in_msg i) = Some (a1, err)"
      and rest: "(case err of Some e \<Rightarrow> Some (a1, Some e)
        | None \<Rightarrow> drain_all L anchors vf (a1\<lparr>inputBufferIdx := Suc (inputBufferIdx a1)\<rparr>) xs) = Some (a', e)"
      by (auto split: Option.bind_splits)
    have "keyless a1" using processResponse_keyless [OF vf p Cons.prems(2)] Cons.prems(3) Some by simp
    with rest Cons.IH Cons.prems(3) show ?thesis by (cases err) auto
  qed (use Cons in auto)
qed auto

lemma AddResponse_keyless:
  assumes "needs_keys vf" "AddResponse L anchors vf a zone msg = Some (a', e)" "keyless a" "z_DNSKEYs zone = ([], None)"
  shows "keyless a'"
proof (cases "a' = a")
  case False
  let ?a1 = "\<lambda>n. a\<lparr>inputBuffer := (inputBuffer a)[n := Some \<lparr>in_zone = zone, in_msg = msg\<rparr>]\<rparr>"
  from assms(2) False obtain n where d: "drain L anchors vf (?a1 n) (drop (inputBufferIdx (?a1 n)) (inputBuffer (?a1 n))) = Some (a', e)"
    by (auto simp: AddResponse_def Let_def split: if_splits Option.bind_splits option.splits)
  have k: "keyless (?a1 n)" using assms(3,4) by (auto simp: keyless_def dest!: set_update_subset_insert [THEN subsetD])
  show ?thesis
    by (rule drain_keyless [OF assms(1) d k]) (use k in \<open>auto simp: keyless_def dest: in_set_dropD\<close>)
qed (use assms in simp)

lemma Result_keyless:
  assumes "needs_keys vf" "Result L anchors vf a = Some (a', st, doe, err)" "keyless a"
  shows "keyless a' \<and> st \<noteq> Secure"
proof -
  from assms(2) obtain e where d: "drain_all L anchors vf a (drop (inputBufferIdx a) (inputBuffer a)) = Some (a', e)"
    by (auto simp: Result_def split: Option.bind_splits option.splits)
  have k: "keyless a'"
    by (rule drain_all_keyless [OF assms(1) d assms(3)]) (use assms(3) in \<open>auto simp: keyless_def dest: in_set_dropD\<close>)
  have "st \<noteq> Secure"
    using assms(2)
  proof (cases rule: Result_cases)
    case verdict
    then show ?thesis
    proof (cases rule: verdict_cases)
      case broken
      from chain_loop_Some [OF broken(2)] show ?thesis by (auto split: if_splits)
    next
      case whole
      with k show ?thesis by (auto simp: keyless_def)
    qed auto
  qed simp
  with k show ?thesis by simp
qed

lemma validateDNSSEC_never_secure:
  assumes "validateDNSSEC E s msg = Some (s', verdict, err)" "sv_validator s = Some a" "keyless a"
  shows "(\<exists>a'. sv_validator s' = Some a' \<and> keyless a') \<and> (err \<noteq> None \<or> verdict \<noteq> ''Secure'')"
proof -
  note vf = verifier_needs_keys [of E "sv_resolver s"]
  have str: "AuthenticationResult_String st = ''Secure'' \<longleftrightarrow> st = Secure" for st by (cases st) simp_all
  from assms obtain a1 e where a1: "AddResponse (E_lib E) (anchors_of E) (verifier_at E (sv_resolver s)) a basicZone msg = Some (a1, e)"
    by (auto simp: validateDNSSEC_def Let_def split: Option.bind_splits)
  have k1: "keyless a1" by (rule AddResponse_keyless [OF vf a1 assms(3)]) (simp add: basicZone_def)
  show ?thesis
  proof (cases e)
    case (Some x)
    with assms(1,2) a1 k1 show ?thesis by (auto simp: validateDNSSEC_def Let_def)
  next
    case None
    with assms(1,2) a1 obtain a2 st doe e2 where r: "Result (E_lib E) (anchors_of E) (verifier_at E (sv_resolver s)) a1 = Some (a2, st, doe, e2)"
      and out: "s' = s\<lparr>sv_validator := Some a2\<rparr>" "verdict = (if st = Unknown then ''Insecure'' else AuthenticationResult_String st)"
      by (auto simp: validateDNSSEC_def Let_def split: Option.bind_splits)
    from Result_keyless [OF vf r k1] show ?thesis unfolding out by (simp add: str)
  qed
qed

section \<open>What clients get\<close>

text \<open>The parts of a server that a query does not touch.\<close>

lemma server_cache_frame:
  "server_get E s q i = Some (s', m) \<Longrightarrow> sv_validator s' = sv_validator s \<and> sv_prefetch s' = sv_prefetch s"
  "server_set E s q msg = Some s' \<Longrightarrow> sv_validator s' = sv_validator s"
  "server_setNegative E s q rc = Some s' \<Longrightarrow> sv_validator s' = sv_validator s"
  by (auto simp: server_get_def server_set_def server_setNegative_def Let_def split: Option.bind_splits prod.splits)

definition validator_keyless :: "'w Server \<Rightarrow> bool" where
  "validator_keyless s \<longleftrightarrow> (case sv_validator s of None \<Rightarrow> True | Some a \<Rightarrow> keyless a)"

section \<open>The tick of the prefetch manager\<close>

text \<open>Looking up one question does not make the answer to another one disappear.\<close>

lemma get_keeps_lookup:
  assumes ok: "cache_ok c" and m: "lookup c q' now = Some m"
  shows "cache_ok (fst (cache_get c q rid now)) \<and> lookup (fst (cache_get c q rid now)) q' now = Some m"
proof (rule cache_get_refines [OF ok, of q rid now])
  fix c'
  assume g: "cache_get c q rid now = (c', map_option (\<lambda>m. m\<lparr>mId := rid\<rparr>) (lookup c q now))" and ok': "cache_ok c'"
    and es: "\<And>key. key_entries c' key = (if getShard key = getShard (cache_key q) then
       (case entry_of (cache_key q) (key_entries c key) of None \<Rightarrow> key_entries c key
        | Some e \<Rightarrow> (if now < e_expires e then [bump e] else []) @ other_keys (cache_key q) (key_entries c key))
       else key_entries c key)"
  let ?k = "cache_key q'"
  from m obtain e where e: "entry_of ?k (key_entries c ?k) = Some e" "now < e_expires e" "e_msg e = m"
    by (auto simp: lookup_def Option.bind_eq_Some_conv split: if_splits)
  have key: "e_key e = cache_key q'" using e(1) by (auto simp: entry_of_def find_Some_iff)
  have "\<exists>e'. entry_of ?k (key_entries c' ?k) = Some e' \<and> now < e_expires e' \<and> e_msg e' = m"
  proof (cases "cache_key q = ?k")
    case True
    with e key show ?thesis by (simp add: es [of ?k] entry_of_Cons bump_def)
  next
    case False
    show ?thesis
    proof (cases "getShard ?k = getShard (cache_key q)")
      case True
      show ?thesis
      proof (cases "entry_of (cache_key q) (key_entries c ?k)")
        case None
        with e True show ?thesis by (simp add: es [of ?k])
      next
        case (Some f)
        then have "e_key f = cache_key q" by (auto simp: entry_of_def find_Some_iff)
        with Some e True False show ?thesis by (simp add: es [of ?k] entry_of_simps bump_def)
      qed
    qed (use e es [of ?k] in simp)
  qed
  then show ?thesis using g ok' by (auto simp: lookup_def)
qed

text \<open>Questions that are in the cache are not prefetched.\<close>

lemma prefetch_loop_idle:
  assumes "rcache (sv_resolver s) = Some c" "cache_ok c" "\<And>q. q \<in> set qs \<Longrightarrow> lookup c q (now_ns E (sv_resolver s)) \<noteq> None"
  shows "\<exists>c'. prefetch_loop E s qs = Some (s\<lparr>sv_resolver := (sv_resolver s)\<lparr>rcache := Some c'\<rparr>\<rparr>)"
  using assms
proof (induction qs arbitrary: s c)
  case Nil
  then show ?case by (intro exI [of _ c]) simp
next
  case (Cons q qs)
  let ?now = "now_ns E (sv_resolver s)"
  let ?c = "fst (cache_get c q 0 ?now)"
  let ?s = "s\<lparr>sv_resolver := (sv_resolver s)\<lparr>rcache := Some ?c\<rparr>\<rparr>"
  have "snd (cache_get c q 0 ?now) \<noteq> None"
    using Cons.prems(3) by (simp add: cache_get_lookup [OF Cons.prems(2)])
  then have p: "prefetchRecord E s q = Some ?s"
    by (simp add: prefetchRecord_def server_get_def Cons.prems(1) split_beta)
  have live: "lookup ?c q' (now_ns E (sv_resolver ?s)) \<noteq> None" if "q' \<in> set qs" for q'
    using that Cons.prems(3) [of q'] get_keeps_lookup [OF Cons.prems(2), of q' ?now _ q 0] by (auto simp: now_ns_def)
  have "cache_ok ?c"
    using Cons.prems(3) [of q] get_keeps_lookup [OF Cons.prems(2), of q ?now _ q 0] by auto
  from Cons.IH [of ?s ?c, OF _ this live] show ?case by (auto simp: p)
qed

text \<open>
  A tick of the prefetch manager makes no query: the questions it goes through are those with a
  live entry, and \<open>prefetchRecord\<close> returns at once for these. All that changes is the order of the
  cache's entries, its counters and the popularity counts, which are dropped.
\<close>

lemma prefetch_tick_idle:
  assumes "rcache (sv_resolver s) = Some c" "run (cache_step L) ops (new_cache sz) = Some c"
  shows "\<exists>c'. prefetchAllDomains E s = Some (s\<lparr>sv_resolver := (sv_resolver s)\<lparr>rcache := Some c'\<rparr>, sv_popular := []\<rparr>)"
proof -
  have ok: "cache_ok c" by (rule dns_cache.run_ok [OF assms(2) cache_ok_new])
  from prefetch_loop_idle [OF assms(1) ok, of "getAllDomains c (now_ns E (sv_resolver s))" E]
  obtain c' where "prefetch_loop E s (getAllDomains c (now_ns E (sv_resolver s))) = Some (s\<lparr>sv_resolver := (sv_resolver s)\<lparr>rcache := Some c'\<rparr>\<rparr>)"
    using getAllDomains_live [OF assms(2)] by auto
  then show ?thesis by (intro exI [of _ c']) (simp add: prefetchAllDomains_def assms(1))
qed

section \<open>The server at work\<close>

declare ensureCapacity.simps [code]

text \<open>Every server answers a question for an address.\<close>

definition sv_env :: "nat env" where
  "sv_env = ex_env (\<lambda>n t m. m\<lparr>mAuthoritative := True, mAnswer := if t = TypeA then [ex_rr n TypeA (A_R ''192.0.2.80'')] else []\<rparr>)"

text \<open>The configuration that \<open>cmd/main.go\<close> starts the server with.\<close>

definition main_config :: Config where
  "main_config = \<lparr>EnableDNSSEC = True, EnableCache = True, CacheSize = 0\<rparr>"

definition sv_start :: "nat Server option" where
  "sv_start = NewServerWithConfig sv_env ex_hints None main_config 0"

definition plain_query :: Msg where
  "plain_query = new_Msg\<lparr>mRecursionDesired := True, mQuestion := [\<lparr>qName = ''e.'', qQtype = TypeA, qQclass = 1\<rparr>]\<rparr>"

definition do_query :: Msg where
  "do_query = SetEdns0 plain_lib plain_query 4096 True"

text \<open>What is answered to a query that asks for DNSSEC after one that does not.\<close>

definition sv_after :: "(Msg \<times> Msg) option" where
  "sv_after = do { s \<leftarrow> sv_start; (s1, m1) \<leftarrow> processQuery sv_env s plain_query; (s2, m2) \<leftarrow> processQuery sv_env s1 do_query; Some (m1, m2) }"

text \<open>
  The flag on cached answers is not earned: the answer to a query without DNSSEC is cached without
  validation and without the flag; the next query for it that asks for DNSSEC gets it with the flag set.
\<close>

theorem cached_answer_authenticated:
  "map_option (\<lambda>(m1, m2). (mAuthenticatedData m1, mAuthenticatedData m2, mAnswer m2 = mAnswer m1, mAnswer m1 \<noteq> []))
     sv_after = Some (False, True, True, True)"
  by code_simp

end
