(* ===== verification/Cache_Use.thy ===== *)
theory Cache_Use
  imports Resolver
begin

text \<open>
  What the resolver does to the answer cache that it shares with the server. It looks up and stores
  the targets of aliases (\<open>cname.go\<close>) and nothing else; so a property of the cache that lookups and
  stores keep is kept by every query, however deep the calls nest.
\<close>

section \<open>Runs that keep a property of the cache\<close>

definition caches :: "(DNSCache \<Rightarrow> bool) \<Rightarrow> 'w rstate \<Rightarrow> bool" where
  "caches P s \<longleftrightarrow> (\<exists>c. rcache s = Some c \<and> P c)"

definition caching :: "(DNSCache \<Rightarrow> bool) \<Rightarrow> 'w rstate \<Rightarrow> ('w rstate \<times> 'a) option \<Rightarrow> bool" where
  "caching P s x \<longleftrightarrow> (caches P s \<longrightarrow> holds (\<lambda>y. caches P (fst y)) x)"

lemma caches_same: "rcache s' = rcache s \<Longrightarrow> caches P s' = caches P s"
  by (simp add: caches_def)

lemma caching_bind:
  assumes "caching P s x" "\<And>t a. x = Some (t, a) \<Longrightarrow> caching P t (f (t, a))"
  shows "caching P s (Option.bind x f)"
  using assms by (cases x) (auto simp: caching_def)

lemma caching_plain: "(\<And>a. caching P s (f a)) \<Longrightarrow> caching P s (Option.bind x f)"
  by (cases x) (simp_all add: caching_def)

lemma caching_Some [simp]: "caching P s (Some y) \<longleftrightarrow> (caches P s \<longrightarrow> caches P (fst y))"
  by (simp add: caching_def)

lemma caching_None [simp]: "caching P s None"
  by (simp add: caching_def)

lemma caching_quietly: "quietly s x \<Longrightarrow> caching P s x"
  by (auto simp: caching_def caches_def quietly_def holds_def quiet_def)

lemma caching_from: "rcache t = rcache s \<Longrightarrow> caching P t x \<Longrightarrow> caching P s x"
  by (simp add: caching_def caches_def)

text \<open>The parts of the state that creating zones touches.\<close>

lemma rcache_frame [simp]:
  "rcache (set_pool p v s) = rcache s" "rcache (fst (alloc_pool v s)) = rcache s" "rcache (fst (new_zone v' s)) = rcache s"
  "rcache (zones_add E s z) = rcache s" "rcache (counted s) = rcache s"
  by (simp_all add: set_pool_def alloc_pool_def new_zone_def zones_add_def counted_def Let_def)

lemmas caches_frame [simp] = rcache_frame [THEN caches_same]

lemma on_auth_caching: "(\<And>a. quietly s (f s a)) \<Longrightarrow> caching P s (on_auth f s auth)"
  by (rule caching_quietly) (rule on_auth_quiet)

lemma clone_caching: "caching P s (clone E s z n parent)"
  by (simp add: clone_def Let_def)

lemma missing_step_caching: "caching P s (missing_step E s z auth n)"
  unfolding missing_step_def
  by (auto intro!: caching_bind caching_quietly [OF zone_steps_quiet(2)] clone_caching on_auth_caching
      addDelegationSignerLink_quiet)

lemma missing_loop_caching: "caching P s (missing_loop E s d z auth ns)"
proof (induction ns arbitrary: s d z auth)
  case (Cons n ns)
  show ?case unfolding missing_loop.simps
    by (rule caching_bind [OF missing_step_caching]) (auto intro: Cons.IH)
qed simp

lemma checkForMissingZones_caching: "caching P s (checkForMissingZones E s d z rmsg auth)"
  unfolding checkForMissingZones_def Let_def by (auto intro: caching_plain missing_loop_caching)

section \<open>The interface\<close>

text \<open>A property of the cache that its two operations keep.\<close>

locale cache_property =
  fixes P :: "DNSCache \<Rightarrow> bool"
  assumes get_keeps: "P c \<Longrightarrow> P (fst (cache_get c q rid now))"
    and set_keeps: "P c \<Longrightarrow> cache_set c q msg now = Some c' \<Longrightarrow> P c'"

text \<open>An exchanger that keeps it, for the resolver to hand on.\<close>

locale caching_exchanger = cache_property P for P +
  fixes ex :: "'w exch"
  assumes ex_caching: "caching P s (ex s m)"
begin

lemma cname_answer_caching: "caching P s (cname_answer E ex s qmsg m)"
proof (cases "\<exists>c. rcache s = Some c \<and> P c")
  case True
  then obtain c where c: "rcache s = Some c" "P c" by blast
  have put: "caching P t (do { c3 \<leftarrow> cache_set c2 q1 msg now; Some (t\<lparr>rcache := Some c3\<rparr>, r) })"
    if "rcache t = Some c2" for t :: "'w rstate" and c2 q1 msg now and r :: Response
    using that set_keeps [of c2 q1 msg now] by (auto simp: caching_def caches_def holds_def split: Option.bind_splits)
  have after: "caching P t (if r_Err r \<noteq> None then Some (t, r) else do {
      msg \<leftarrow> r_Msg r; c2 \<leftarrow> rcache t; q1 \<leftarrow> at qs 0; c3 \<leftarrow> cache_set c2 q1 msg now; Some (t\<lparr>rcache := Some c3\<rparr>, r) })"
    for t :: "'w rstate" and qs now and r :: Response
    using put [of t] by (cases "r_Msg r"; cases "rcache t"; cases "at qs 0") auto
  show ?thesis
  proof (cases "at (mQuestion m) 0")
    case None
    then show ?thesis by (simp add: cname_answer_def c(1))
  next
    case (Some q0)
    let ?s1 = "s\<lparr>rcache := Some (fst (cache_get c q0 (mId qmsg) (now_ns E s)))\<rparr>"
    have s1: "caches P ?s1" using get_keeps [OF c(2)] by (simp add: caches_def)
    have ask: "caching P ?s1 (Option.bind (ex ?s1 m') (\<lambda>(s2, r). if r_Err r \<noteq> None then Some (s2, r) else do {
      msg \<leftarrow> r_Msg r; c2 \<leftarrow> rcache s2; q1 \<leftarrow> at (mQuestion m') 0; c3 \<leftarrow> cache_set c2 q1 msg (now_ns E s2); Some (s2\<lparr>rcache := Some c3\<rparr>, r) }))" for m'
      by (rule caching_bind [OF ex_caching]) (simp only: prod.case after)
    have "caching P ?s1 (cname_answer E ex s qmsg m)"
      unfolding cname_answer_def Let_def c(1) Some Option.bind.simps split_beta
      using ask [unfolded split_beta] by (simp split: option.split)
    with s1 show ?thesis by (simp add: caching_def)
  qed
qed (auto simp: caching_def caches_def)

lemma cname_targets_caching: "caching P s (cname_targets E ex s qmsg answer ts)"
proof (induction ts arbitrary: s)
  case (Cons t ts)
  have "caching P s (cname_target E ex s qmsg answer t)"
    unfolding cname_target_def Let_def by (auto intro!: caching_plain caching_bind [OF cname_answer_caching])
  with Cons.IH show ?case by (auto intro!: caching_bind)
qed simp

lemma finaliseResponse_caching: "caching P s (finaliseResponse E ex s auth qmsg response)"
proof -
  have "caching P s (cname E ex s qmsg msg au)" for msg au
    unfolding cname_def by (auto intro!: caching_bind [OF cname_targets_caching])
  then have follow: "caching P s (if b then cname E ex s qmsg msg au else Some (s, y))" for b msg au y by simp
  show ?thesis
    unfolding finaliseResponse_def Let_def
    by (rule caching_plain, rule caching_plain, unfold split_beta, rule caching_plain, rule caching_bind [OF follow])
      (auto split: option.split)
qed

lemma enrich_queries_caching: "caching P s (enrich_queries E ex p deadline d s qs)"
proof (induction qs arbitrary: d s)
  case (Cons q qs)
  obtain t domain where q: "q = (t, domain)" by (cases q)
  have "caching P t (enrich_queries E ex p deadline d' (set_pool p v t) qs)" for t d' v
    by (rule caching_from [OF _ Cons.IH]) simp
  then show ?case
    unfolding q enrich_queries.simps Let_def
    by (auto intro!: caching_bind [OF ex_caching] Cons.IH split: option.split)
qed simp

lemma enrichPool_caching: "caching P s (enrichPool E ex s p)"
  unfolding enrichPool_def Let_def by (auto intro!: caching_plain caching_bind [OF enrich_queries_caching])

lemma createZone_caching: "caching P s (createZone E ex s name parent nss extra)"
proof -
  let ?v = "newNameserverPool (E_lib E) (MaxAllowedTTL (E_cfg E)) (now_unix E s) nss extra"
  obtain s1 p where s1: "alloc_pool ?v s = (s1, p)" by (cases "alloc_pool ?v s")
  then have r: "rcache s1 = rcache s" using rcache_frame(2) [of ?v s] by simp
  have new: "caches P (fst (case new_zone v t of (t', z) \<Rightarrow> (t', Inr z))) = caches P t" for v and t :: "'w rstate"
    by (simp add: new_zone_def caches_def)
  have bg: "caching P s (Option.bind (enrichPool E ex s1 p) (\<lambda>(s2, e). Some (f s2 e)))"
    if "\<And>t e. caches P t \<Longrightarrow> caches P (fst (f t e))" for f :: "'w rstate \<Rightarrow> error option \<Rightarrow> 'w rstate \<times> (error + nat)"
    by (rule caching_from [OF r]) (rule caching_bind [OF enrichPool_caching], simp add: that)
  show ?thesis
    unfolding createZone_def Let_def s1 prod.case
    by (auto intro!: bg simp: new caches_same [OF r] split: NameserverPoolStatus.split option.split)
qed

lemma processDelegation_caching: "caching P s (processDelegation E ex s z rmsg)"
  unfolding processDelegation_def Let_def
  by (auto intro!: caching_bind [OF createZone_caching] split: list.split sum.split)

lemma resolveLabel_caching: "caching P s (resolveLabel E ex s d zp qmsg auth)"
proof -
  have keys: "caching P t (on_auth (\<lambda>s a. map_option (\<lambda>(s1, _). (s1, a)) (zone_dnskeys E s z)) t au)" for t z au
    by (rule on_auth_caching) (use zone_steps_quiet(3) [of t E z] in \<open>auto simp: quietly_def holds_def\<close>)
  have add: "caching P t (on_auth (\<lambda>s a. addResponse E s a z m) t au)" for t z m au
    by (rule on_auth_caching) (rule addResponse_quiet)
  show ?thesis
    unfolding resolveLabel_def
    by (auto intro!: caching_bind [OF keys] caching_bind [OF caching_quietly [OF zone_steps_quiet(1)]] caching_bind [OF add]
        caching_bind [OF checkForMissingZones_caching] caching_bind [OF processDelegation_caching]
        caching_bind [OF finaliseResponse_caching] split: option.split)
qed

lemma label_loop_caching: "caching P s (label_loop E ex qmsg s d zp auth)"
proof (induction s d zp auth rule: label_loop_rounds [where E = E])
  case (round s d zp auth)
  have step: "caching P t (label_loop E ex qmsg t d' zp' auth')"
    if "labelIndexes d' = labelIndexes d" "currentIdx d < currentIdx d'" for t d' zp' auth'
    by (rule round.IH [OF that])
  have next_label: "labelIndexes (d_next d) = labelIndexes d" "currentIdx d < currentIdx (d_next d)" by (simp_all add: d_next_def)
  have later: "labelIndexes (d_next d2) = labelIndexes d" "currentIdx d < currentIdx (d_next d2)"
    if "resolveLabel E ex (counted s) d zp qmsg auth = Some (s2, d2, auth2, nextz, r)" for s2 d2 auth2 nextz r
    using ahead_facts [OF resolveLabel_ahead [OF that]] by (simp_all add: d_next_def)
  show ?case
    unfolding label_loop_round [OF round.hyps]
    by (rule caching_from [of "counted s"], simp, rule caching_plain, rule caching_plain)
      (auto intro!: step next_label later caching_bind [OF resolveLabel_caching] split: option.split)
qed (simp_all add: label_loop_end label_loop_limit)

lemma exchange_with_caching: "caching P s (exchange_with E ex s m)"
proof -
  have link: "caching P s (on_auth (\<lambda>s a. link_loop E s a kz) s au)" for kz au
    by (rule on_auth_caching) (rule link_loop_quiet)
  show ?thesis
    unfolding exchange_with_def
    by (auto intro!: caching_plain caching_bind [OF link] label_loop_caching split: option.split)
qed

end

lemma exchange_upto_caching: "cache_property P \<Longrightarrow> caching_exchanger P (exchange_upto E (\<lambda>_ _. None) n)"
proof (induction n)
  case 0
  then show ?case by (simp add: caching_exchanger_def caching_exchanger_axioms_def)
next
  case (Suc n)
  then show ?case
    using caching_exchanger.exchange_with_caching [OF Suc.IH]
    by (simp add: caching_exchanger_def caching_exchanger_axioms_def)
qed

section \<open>Every cache is the result of its operations\<close>

definition operated :: "dnslib \<Rightarrow> int \<Rightarrow> DNSCache \<Rightarrow> bool" where
  "operated L sz c \<longleftrightarrow> (\<exists>ops. run (cache_step L) ops (new_cache sz) = Some c)"

lemma run_append: "run step (xs @ ys) c = Option.bind (run step xs c) (run step ys)"
  by (induction xs arbitrary: c) (auto split: Option.bind_splits)

lemma operated_step: "operated L sz c \<Longrightarrow> cache_step L x c = Some c' \<Longrightarrow> operated L sz c'"
proof -
  assume "operated L sz c" and step: "cache_step L x c = Some c'"
  then obtain ops where "run (cache_step L) ops (new_cache sz) = Some c" by (auto simp: operated_def)
  with step have "run (cache_step L) (ops @ [x]) (new_cache sz) = Some c'" by (simp add: run_append)
  then show "operated L sz c'" by (auto simp: operated_def)
qed

lemma operated_new: "operated L sz (new_cache sz)"
  unfolding operated_def by (rule exI [of _ "[]"]) simp

interpretation operated: cache_property "operated L sz" for L sz
proof
  show "operated L sz (fst (cache_get c q rid now))" if "operated L sz c" for c q rid now
    using operated_step [OF that, of "OpGet q rid now"] by simp
  show "operated L sz c'" if "operated L sz c" "cache_set c q msg now = Some c'" for c q msg now c'
    using operated_step [OF that(1), of "OpSet q msg now"] that(2) by simp
qed

interpretation resolver_cache: caching_exchanger "operated L sz" "exchange E" for L sz E
  unfolding exchange_def by (rule exchange_upto_caching) unfold_locales

lemma Exchange_caching: "caching (operated L sz) s (Exchange E s qmsg)"
proof -
  have "caching (operated L sz) s (exchange E (s\<lparr>session := 0, started := now_ns E s\<rparr>) qmsg)"
    by (rule caching_from [OF _ resolver_cache.ex_caching]) simp
  then show ?thesis unfolding Exchange_def by (auto intro!: caching_bind)
qed

end
