(* ===== verification/Server_State.thy ===== *)
theory Server_State
  imports Server Cache_Use
begin

text \<open>
  The server as a whole: what its calls keep of the two resolvers and of the cache they share, by
  putting together what the parts promise.
\<close>

section \<open>Invariants of a server\<close>

text \<open>
  A property of the server that the calls it makes keep: those of the cache, the two resolvers, the
  validator and the popularity counts. Then every step of its goroutines keeps it.
\<close>

locale server_invariant =
  fixes E :: "'w env" and I :: "'w Server \<Rightarrow> bool"
  assumes get_keeps: "I s \<Longrightarrow> server_get E s q i = Some (s', m) \<Longrightarrow> I s'"
    and set_keeps: "I s \<Longrightarrow> server_set E s q msg = Some s' \<Longrightarrow> I s'"
    and setNegative_keeps: "I s \<Longrightarrow> server_setNegative E s q rc = Some s' \<Longrightarrow> I s'"
    and cleaner_keeps: "I s \<Longrightarrow> cacheCleaner E s = Some s' \<Longrightarrow> I s'"
    and Exchange_keeps: "I s \<Longrightarrow> Exchange E (sv_resolver s) r = Some (res, resp) \<Longrightarrow> I (s\<lparr>sv_resolver := res\<rparr>)"
    and prefetch_keeps: "I s \<Longrightarrow> prefetch_exchange E s r = Some (s', resp) \<Longrightarrow> I s'"
    and other_keeps: "I s \<Longrightarrow> I (s\<lparr>sv_popular := p\<rparr>)" "I s \<Longrightarrow> I (s\<lparr>sv_validator := v\<rparr>)"
      "I s \<Longrightarrow> I (s\<lparr>sv_resolver := (sv_resolver s)\<lparr>world := w\<rparr>\<rparr>)"
begin

lemma validateDNSSEC_keeps:
  assumes "validateDNSSEC E s msg = Some (s', v)" "I s"
  shows "I s'"
proof -
  from assms(1) have "s' = s \<or> (\<exists>a. s' = s\<lparr>sv_validator := a\<rparr>)"
    by (auto simp: validateDNSSEC_def Let_def split: option.splits Option.bind_splits)
  with assms(2) other_keeps(2) show ?thesis by blast
qed

end

section \<open>The cache of a running server\<close>

abbreviation (input) "cache_limit cfg \<equiv> (if CacheSize cfg > 0 then CacheSize cfg else 100000)"

definition server_cached :: "'w env \<Rightarrow> int \<Rightarrow> 'w Server \<Rightarrow> bool" where
  "server_cached E sz s \<longleftrightarrow> caches (operated (E_lib E) sz) (sv_resolver s)"

lemma server_cached_step:
  assumes "server_cached E sz s" "rcache (sv_resolver s) = Some c" "cache_step (E_lib E) x c = Some c'"
  shows "server_cached E sz (s\<lparr>sv_resolver := (sv_resolver s)\<lparr>rcache := Some c'\<rparr>\<rparr>)"
  using assms operated_step by (auto simp: server_cached_def caches_def)

lemma server_get_cached: "server_get E s q i = Some (s', m) \<Longrightarrow> server_cached E sz s \<Longrightarrow> server_cached E sz s'"
proof -
  assume g: "server_get E s q i = Some (s', m)" and ok: "server_cached E sz s"
  then obtain c where c: "rcache (sv_resolver s) = Some c"
    and s': "s' = s\<lparr>sv_resolver := (sv_resolver s)\<lparr>rcache := Some (fst (cache_get c q i (now_ns E (sv_resolver s))))\<rparr>\<rparr>"
    by (auto simp: server_get_def split_beta split: Option.bind_splits)
  show "server_cached E sz s'" unfolding s'
    by (rule server_cached_step [OF ok c, of "OpGet q i (now_ns E (sv_resolver s))"]) simp
qed

lemma server_set_cached: "server_set E s q msg = Some s' \<Longrightarrow> server_cached E sz s \<Longrightarrow> server_cached E sz s'"
  using server_cached_step [of E sz s _ "OpSet q msg (now_ns E (sv_resolver s))"]
  by (auto simp: server_set_def split: Option.bind_splits)

lemma server_setNegative_cached: "server_setNegative E s q rc = Some s' \<Longrightarrow> server_cached E sz s \<Longrightarrow> server_cached E sz s'"
  using server_cached_step [of E sz s _ "OpSetNegative q rc (now_ns E (sv_resolver s))"]
  by (auto simp: server_setNegative_def split: Option.bind_splits)

lemma cacheCleaner_cached: "cacheCleaner E s = Some s' \<Longrightarrow> server_cached E sz s \<Longrightarrow> server_cached E sz s'"
  using server_cached_step [of E sz s _ "OpClean (now_ns E (sv_resolver s))"]
  by (auto simp: cacheCleaner_def split: Option.bind_splits)

lemmas server_calls_cached = server_get_cached server_set_cached server_setNegative_cached cacheCleaner_cached

lemma Exchange_cached:
  "Exchange E (sv_resolver s) r = Some (res, resp) \<Longrightarrow> server_cached E sz s \<Longrightarrow> server_cached E sz (s\<lparr>sv_resolver := res\<rparr>)"
  using Exchange_caching [of "E_lib E" sz "sv_resolver s" E r] by (auto simp: caching_def holds_def server_cached_def)

lemma prefetch_exchange_cached: "prefetch_exchange E s m = Some (s', r) \<Longrightarrow> server_cached E sz s \<Longrightarrow> server_cached E sz s'"
proof -
  assume x: "prefetch_exchange E s m = Some (s', r)" and ok: "server_cached E sz s"
  let ?p = "(sv_prefetch s)\<lparr>rcache := rcache (sv_resolver s), world := world (sv_resolver s)\<rparr>"
  from x obtain p where p: "Exchange E ?p m = Some (p, r)" and s': "rcache (sv_resolver s') = rcache p"
    by (auto simp: prefetch_exchange_def split: Option.bind_splits)
  from ok have "caches (operated (E_lib E) sz) ?p" by (simp add: server_cached_def caches_def)
  with Exchange_caching [of "E_lib E" sz ?p E m] p have "caches (operated (E_lib E) sz) p" by (auto simp: caching_def)
  with s' show "server_cached E sz s'" by (simp add: server_cached_def caches_def)
qed

interpretation server_cache: server_invariant E "server_cached E sz" for E sz
  by unfold_locales
    (simp_all add: server_get_cached server_set_cached server_setNegative_cached cacheCleaner_cached Exchange_cached
      prefetch_exchange_cached, simp_all add: server_cached_def caches_def)

lemma new_server_cached: "NewServerWithConfig E rrs err cfg w = Some s \<Longrightarrow> server_cached E (cache_limit cfg) s"
  by (auto simp: NewServerWithConfig_def new_server_def server_cached_def caches_def NewResolver_def zones_add_def Let_def
      operated_new split: Option.bind_splits sum.splits)

section \<open>The resolvers of a running server\<close>

definition server_sound :: "'w env \<Rightarrow> 'w Server \<Rightarrow> bool" where
  "server_sound E s \<longleftrightarrow> resolver_ok (E_lib E) (sv_resolver s) \<and> resolver_ok (E_lib E) (sv_prefetch s)"

lemma resolver_ok_cache: "resolver_ok L s \<Longrightarrow> resolver_ok L (s\<lparr>rcache := c\<rparr>)"
  using resolver_ok_rcache [of L s c] by (simp add: grown_def)

lemma resolver_ok_world: "resolver_ok L s \<Longrightarrow> resolver_ok L (s\<lparr>world := w\<rparr>)"
  by (rule resolver_ok_quiet [OF quiet_world])

lemma prefetch_exchange_sound:
  assumes "server_sound E s" "prefetch_exchange E s m = Some (s', r)"
  shows "server_sound E s'"
proof -
  let ?p = "(sv_prefetch s)\<lparr>rcache := rcache (sv_resolver s), world := world (sv_resolver s)\<rparr>"
  from assms(2) obtain p where p: "Exchange E ?p m = Some (p, r)"
    and s': "s' = s\<lparr>sv_prefetch := p, sv_resolver := (sv_resolver s)\<lparr>rcache := rcache p, world := world p\<rparr>\<rparr>"
    by (auto simp: prefetch_exchange_def split: Option.bind_splits)
  from assms(1) have "resolver_ok (E_lib E) ?p" by (intro resolver_ok_world resolver_ok_cache) (simp add: server_sound_def)
  from Resolver.Exchange_keeps [OF this p] assms(1) show ?thesis
    by (simp add: s' server_sound_def resolver_ok_world resolver_ok_cache)
qed

interpretation server_resolvers: server_invariant E "server_sound E" for E
proof
  fix s s' q i m msg rc r res resp p v w
  assume ok: "server_sound E s"
  show "server_get E s q i = Some (s', m) \<Longrightarrow> server_sound E s'" "server_set E s q msg = Some s' \<Longrightarrow> server_sound E s'"
    "server_setNegative E s q rc = Some s' \<Longrightarrow> server_sound E s'" "cacheCleaner E s = Some s' \<Longrightarrow> server_sound E s'"
    using ok by (auto simp: server_get_def server_set_def server_setNegative_def cacheCleaner_def server_sound_def split_beta
        resolver_ok_cache split: Option.bind_splits)
  show "Exchange E (sv_resolver s) r = Some (res, resp) \<Longrightarrow> server_sound E (s\<lparr>sv_resolver := res\<rparr>)"
    using ok Resolver.Exchange_keeps [of E "sv_resolver s" r res resp] by (simp add: server_sound_def)
  show "prefetch_exchange E s r = Some (s', resp) \<Longrightarrow> server_sound E s'" by (rule prefetch_exchange_sound [OF ok])
  show "server_sound E (s\<lparr>sv_popular := p\<rparr>)" "server_sound E (s\<lparr>sv_validator := v\<rparr>)"
    "server_sound E (s\<lparr>sv_resolver := (sv_resolver s)\<lparr>world := w\<rparr>\<rparr>)"
    using ok by (simp_all add: server_sound_def resolver_ok_world)
qed

lemma new_server_sound:
  assumes "NewServerWithConfig E rrs err cfg w = Some s" "root_laws (E_lib E)" "list_ex is_root_server rrs"
  shows "server_sound E s"
  using assms NewResolver_ok [OF _ assms(2,3)]
  by (auto simp: NewServerWithConfig_def new_server_def server_sound_def split: Option.bind_splits)

section \<open>What the cache promises\<close>

text \<open>
  A cache of which every hit is the message that was last stored for exactly this question by one of
  the operations the cache went through, with the request's identifier and before its time is over.
\<close>

definition cache_faithful :: "dnslib \<Rightarrow> int \<Rightarrow> DNSCache \<Rightarrow> bool" where
  "cache_faithful L limit c \<longleftrightarrow> (\<exists>ops. run (cache_step L) ops (new_cache limit) = Some c \<and> int (cache_Size c) \<le> limit \<and>
     (\<forall>q rid t r. snd (cache_get c q rid t) = Some r \<longrightarrow> (\<exists>us m t0 vs. ops = us @ OpSet q m t0 # vs \<and> r = m\<lparr>mId := rid\<rparr> \<and>
        t < t0 + seconds (cache_ttl m) \<and> (\<forall>m' t'. OpSet q m' t' \<notin> set vs))))"

lemma server_cached_faithful:
  assumes "server_cached E limit s" "0 \<le> limit"
  shows "\<exists>c. rcache (sv_resolver s) = Some c \<and> cache_faithful (E_lib E) limit c"
proof -
  from assms(1) obtain c ops where c: "rcache (sv_resolver s) = Some c" "run (cache_step (E_lib E)) ops (new_cache limit) = Some c"
    unfolding server_cached_def caches_def operated_def by blast
  with run_size [OF c(2) assms(2)] hit_was_set [OF c(2)] show ?thesis unfolding cache_faithful_def by blast
qed

end
