(* ===== verification/Server_Workers.thy ===== *)
theory Server_Workers
  imports Server_State "HOL-Library.Multiset"
begin

text \<open>
  The server with its goroutines: fifty workers that take queries from a channel, the prefetches
  that they and the ticker start, the cleaner of the cache, all in any order. \<open>Server\<close> has the whole
  handling of a query as one function; here it is cut at its calls of the cache, of the resolvers,
  of the validator and of the popularity counts, and the steps of different goroutines alternate.
  A query of a resolver is one step.
\<close>

section \<open>The goroutines\<close>

text \<open>Where \<open>processQuery\<close> and \<open>prefetchRecord\<close> are, with the values they have at hand.\<close>

datatype task =
    Looks Msg | Records Msg Question | Resolves Msg Question | Validates Msg Question Msg
  | Stores Msg Question Msg | Fails Msg Question int
  | PrefetchLooks Question | PrefetchResolves Question | PrefetchStores Question Msg

text \<open>The next step of a goroutine: the server, the goroutines it goes on as, and what it writes.\<close>

fun task_step :: "'w env \<Rightarrow> 'w Server \<Rightarrow> task \<Rightarrow> ('w Server \<times> task list \<times> Msg list) option" where
  "task_step E s (Looks r) = do {
     q \<leftarrow> at (mQuestion r) 0;
     (s1, cached) \<leftarrow> server_get E s q (mId r);
     (case cached of
        Some c \<Rightarrow> Some (s1, [], [if wants_dnssec E r then c\<lparr>mAuthenticatedData := True\<rparr> else c])
      | None \<Rightarrow> Some (s1, [Records r q], []))
   }"
| "task_step E s (Records r q) =
     (let key = cache_key q;
          n = (case map_of (sv_popular s) key of None \<Rightarrow> 0 | Some n \<Rightarrow> n) + 1
      in if n \<ge> threshold then Some (s\<lparr>sv_popular := AList.update key 0 (sv_popular s)\<rparr>, [PrefetchLooks q, Resolves r q], [])
         else Some (s\<lparr>sv_popular := AList.update key n (sv_popular s)\<rparr>, [Resolves r q], []))"
| "task_step E s (Resolves r q) = do {
     (res, resp) \<leftarrow> Exchange E (sv_resolver s) r;
     let s1 = s\<lparr>sv_resolver := res\<rparr>;
     (case r_Err resp of
        Some e \<Rightarrow> Some (s1, [Fails r q (if is_NXDOMAIN e then RcodeNameError else RcodeServerFailure)], [])
      | None \<Rightarrow> do {
          msg \<leftarrow> r_Msg resp;
          Some (s1, [if wants_dnssec E r then Validates r q msg else Stores r q msg], [])
        })
   }"
| "task_step E s (Validates r q msg) =
     (if sv_validator s = None then Some (s, [Stores r q (msg\<lparr>mAuthenticatedData := False\<rparr>)], [])
      else do {
        (s1, authResult, err) \<leftarrow> validateDNSSEC E s msg;
        if err \<noteq> None \<or> authResult \<noteq> ''Secure'' then Some (s1, [], [(reply_to E r)\<lparr>mRcode := RcodeServerFailure\<rparr>])
        else Some (s1, [Stores r q (msg\<lparr>mAuthenticatedData := True\<rparr>)], [])
      })"
| "task_step E s (Stores r q msg) = do { s1 \<leftarrow> server_set E s q msg; Some (s1, [], [msg]) }"
| "task_step E s (Fails r q rcode) = do {
     s1 \<leftarrow> server_setNegative E s q rcode;
     Some (s1, [], [(reply_to E r)\<lparr>mRcode := rcode\<rparr>])
   }"
| "task_step E s (PrefetchLooks q) = do {
     (s1, hit) \<leftarrow> server_get E s q 0;
     Some (s1, if hit \<noteq> None then [] else [PrefetchResolves q], [])
   }"
| "task_step E s (PrefetchResolves q) = do {
     (s1, resp) \<leftarrow> prefetch_exchange E s (SetEdns0 (E_lib E) (SetQuestion (E_lib E) new_Msg (qName q) (qQtype q)) 4096 True);
     if r_Err resp \<noteq> None then Some (s1, [], [])
     else do { m \<leftarrow> r_Msg resp; Some (s1, [PrefetchStores q m], []) }
   }"
| "task_step E s (PrefetchStores q m) = do { s1 \<leftarrow> server_set E s q m; Some (s1, [], []) }"

text \<open>The query that a goroutine is to answer.\<close>

fun request_of :: "task \<Rightarrow> Msg option" where
  "request_of (Looks r) = Some r"
| "request_of (Records r q) = Some r"
| "request_of (Resolves r q) = Some r"
| "request_of (Validates r q msg) = Some r"
| "request_of (Stores r q msg) = Some r"
| "request_of (Fails r q rcode) = Some r"
| "request_of _ = None"

text \<open>
  \<open>received\<close> and \<open>replies\<close> are what the clients see: the queries that \<open>handleDNS\<close> has put into the
  channel, and the messages written with the query each answers.
\<close>

record 'w workers =
  shared :: "'w Server"
  queries :: "Msg list"
  idle_workers :: nat
  tasks :: "task list"
  received :: "Msg list"
  replies :: "(Msg \<times> Msg) list"

definition worker_count :: nat where
  "worker_count = 50"

definition queries_capacity :: nat where
  "queries_capacity = 1000"

definition workers_start :: "'w Server \<Rightarrow> 'w workers" where
  "workers_start s = \<lparr>shared = s, queries = [], idle_workers = worker_count, tasks = [], received = [], replies = []\<rparr>"

definition reply_pairs :: "task \<Rightarrow> Msg list \<Rightarrow> (Msg \<times> Msg) list" where
  "reply_pairs t ms = (case request_of t of None \<Rightarrow> [] | Some r \<Rightarrow> map (Pair r) ms)"

text \<open>A goroutine of the server goes on; a worker that has written is free again.\<close>

inductive goes_on :: "'w env \<Rightarrow> 'w workers \<Rightarrow> 'w workers \<Rightarrow> bool" for E where
  take_query: "queries st = r # rest \<Longrightarrow> idle_workers st = Suc n \<Longrightarrow>
    goes_on E st (st\<lparr>queries := rest, idle_workers := n, tasks := tasks st @ [Looks r]\<rparr>)"
| work: "tasks st = ts @ t # ts' \<Longrightarrow> task_step E (shared st) t = Some (s', next_tasks, ms) \<Longrightarrow>
    goes_on E st (st\<lparr>shared := s', tasks := ts @ next_tasks @ ts', idle_workers := idle_workers st + length ms,
      replies := replies st @ reply_pairs t ms\<rparr>)"

text \<open>The clients, the tickers and the outside world.\<close>

inductive workers_step :: "'w env \<Rightarrow> 'w workers \<Rightarrow> 'w workers \<Rightarrow> bool" for E where
  handleDNS: "length (queries st) < queries_capacity \<Longrightarrow>
    workers_step E st (st\<lparr>queries := queries st @ [r], received := received st @ [r]\<rparr>)"
| goroutine: "goes_on E st st' \<Longrightarrow> workers_step E st st'"
| clean: "cacheCleaner E (shared st) = Some s' \<Longrightarrow> workers_step E st (st\<lparr>shared := s'\<rparr>)"
| tick: "rcache (sv_resolver (shared st)) = Some c \<Longrightarrow>
    workers_step E st (st\<lparr>shared := (shared st)\<lparr>sv_popular := []\<rparr>,
      tasks := tasks st @ map PrefetchLooks (getAllDomains c (now_ns E (sv_resolver (shared st))))\<rparr>)"
| outside: "workers_step E st (st\<lparr>shared := (shared st)\<lparr>sv_resolver := (sv_resolver (shared st))\<lparr>world := w\<rparr>\<rparr>\<rparr>)"

inductive workers_reachable :: "'w env \<Rightarrow> RR list \<Rightarrow> Config \<Rightarrow> 'w workers \<Rightarrow> bool" for E rrs cfg where
  start: "NewServerWithConfig E rrs err cfg w = Some s \<Longrightarrow> workers_reachable E rrs cfg (workers_start s)"
| step: "workers_reachable E rrs cfg st \<Longrightarrow> workers_step E st st' \<Longrightarrow> workers_reachable E rrs cfg st'"

section \<open>Invariants under every interleaving\<close>

context server_invariant
begin

lemma task_step_keeps:
  assumes "task_step E s t = Some (s', next_tasks, ms)" "I s"
  shows "I s'"
proof (cases t)
  case (Looks r)
  with assms show ?thesis by (auto dest: get_keeps split: Option.bind_splits option.splits)
next
  case (Records r q)
  with assms show ?thesis by (auto simp: Let_def intro: other_keeps(1) split: if_splits)
next
  case (Resolves r q)
  with assms show ?thesis by (auto simp: Let_def dest: Exchange_keeps split: Option.bind_splits option.splits)
next
  case (Validates r q msg)
  with assms show ?thesis by (auto dest: validateDNSSEC_keeps split: Option.bind_splits if_splits)
next
  case (PrefetchResolves q)
  with assms show ?thesis by (auto dest: prefetch_keeps split: Option.bind_splits if_splits)
qed (use assms in \<open>auto dest: get_keeps set_keeps setNegative_keeps split: Option.bind_splits\<close>)

lemma workers_step_keeps: "workers_step E st st' \<Longrightarrow> I (shared st) \<Longrightarrow> I (shared st')"
  by (auto elim!: workers_step.cases goes_on.cases intro: task_step_keeps cleaner_keeps other_keeps)

lemma workers_reachable_keeps:
  assumes "workers_reachable E rrs cfg st" "\<And>err w s. NewServerWithConfig E rrs err cfg w = Some s \<Longrightarrow> I s"
  shows "I (shared st)"
  using assms(1) by (induction rule: workers_reachable.induct) (auto simp: workers_start_def intro: assms(2) workers_step_keeps)

end


section \<open>Every query is answered once\<close>

definition requests :: "task list \<Rightarrow> Msg list" where
  "requests ts = List.map_filter request_of ts"

lemma requests_simps [simp]:
  "requests [] = []" "requests (ts @ ts') = requests ts @ requests ts'"
  "requests (t # ts) = (case request_of t of None \<Rightarrow> requests ts | Some r \<Rightarrow> r # requests ts)"
  by (auto simp: requests_def List.map_filter_def split: option.split)

lemma requests_prefetch [simp]: "requests (map PrefetchLooks qs) = []"
  by (induction qs) simp_all

text \<open>A goroutine goes on with its query or writes one reply to it.\<close>

lemma task_step_requests:
  assumes "task_step E s t = Some (s', next_tasks, ms)"
  shows "requests [t] = requests next_tasks @ map fst (reply_pairs t ms)" "length ms = length (reply_pairs t ms)"
  using assms
  by (cases t; auto simp: reply_pairs_def Let_def split: Option.bind_splits option.splits if_splits)+

definition accounts :: "'w workers \<Rightarrow> bool" where
  "accounts st \<longleftrightarrow> mset (received st) = mset (map fst (replies st)) + mset (requests (tasks st)) + mset (queries st) \<and>
     length (requests (tasks st)) + idle_workers st = worker_count \<and> length (queries st) \<le> queries_capacity"

lemma accounts_work:
  assumes "accounts st" "tasks st = ts @ t # ts'" "task_step E (shared st) t = Some (s', next_tasks, ms)"
  shows "accounts (st\<lparr>shared := s', tasks := ts @ next_tasks @ ts', idle_workers := idle_workers st + length ms,
      replies := replies st @ reply_pairs t ms\<rparr>)"
proof -
  note r = task_step_requests [OF assms(3)]
  have "requests (tasks st) = requests ts @ requests [t] @ requests ts'" by (simp add: assms(2) split: option.split)
  with assms(1) r show ?thesis unfolding accounts_def by (simp del: requests_simps(3) add: requests_simps(1,2))
qed

lemma accounts_step: "workers_step E st st' \<Longrightarrow> accounts st \<Longrightarrow> accounts st'"
proof (induction rule: workers_step.induct)
  case (goroutine st st')
  then show ?case
  proof (induction rule: goes_on.induct)
    case (work st ts t ts' s' next_tasks ms)
    then show ?case using accounts_work by blast
  qed (auto simp: accounts_def)
qed (auto simp: accounts_def)

lemma accounts_reachable: "workers_reachable E rrs cfg st \<Longrightarrow> accounts st"
proof (induction rule: workers_reachable.induct)
  case (start err w s)
  show ?case by (simp add: accounts_def workers_start_def)
qed (rule accounts_step)

text \<open>The steps that are left for the goroutines and the queries in the channel.\<close>

fun task_steps :: "task \<Rightarrow> nat" where
  "task_steps (Looks r) = 8" | "task_steps (Records r q) = 7" | "task_steps (Resolves r q) = 3" | "task_steps (Validates r q msg) = 2"
| "task_steps (Stores r q msg) = 1" | "task_steps (Fails r q rcode) = 1"
| "task_steps (PrefetchLooks q) = 3" | "task_steps (PrefetchResolves q) = 2" | "task_steps (PrefetchStores q m) = 1"

definition work_left :: "'w workers \<Rightarrow> nat" where
  "work_left st = sum_list (map task_steps (tasks st)) + 9 * length (queries st)"

lemma task_step_decreases:
  "task_step E s t = Some (s', next_tasks, ms) \<Longrightarrow> sum_list (map task_steps next_tasks) < task_steps t"
  by (cases t) (auto simp: Let_def split: Option.bind_splits option.splits if_splits)

lemma goes_on_decreases:
  assumes "goes_on E st st'"
  shows "work_left st' < work_left st \<and> received st' = received st"
  using assms
proof (induction rule: goes_on.induct)
  case (work st ts t ts' s' next_tasks ms)
  from task_step_decreases [OF work(2)] work(1) show ?case by (simp add: work_left_def)
qed (simp add: work_left_def)

lemma goes_on_accounts: "goes_on E st st' \<Longrightarrow> accounts st \<Longrightarrow> accounts st'"
  using accounts_step workers_step.goroutine by blast

lemma goes_on_bounded:
  assumes "(goes_on E ^^ k) st st'" "accounts st"
  shows "k + work_left st' \<le> work_left st \<and> received st' = received st \<and> accounts st'"
  using assms(1)
proof (induction k arbitrary: st')
  case (Suc k)
  then obtain t where t: "(goes_on E ^^ k) st t" "goes_on E t st'" by auto
  from Suc.IH [OF t(1)] goes_on_decreases [OF t(2)] goes_on_accounts [OF t(2)] show ?case by simp
qed (use assms in simp)

definition workers_panic :: "'w env \<Rightarrow> 'w workers \<Rightarrow> bool" where
  "workers_panic E st \<longleftrightarrow> list_ex (\<lambda>t. task_step E (shared st) t = None) (tasks st)"

lemma stuck_all_answered:
  assumes "accounts st" "\<not> (\<exists>st'. goes_on E st st')" "\<not> workers_panic E st"
  shows "tasks st = []" "queries st = []" "idle_workers st = worker_count" "mset (map fst (replies st)) = mset (received st)"
proof -
  show tasks: "tasks st = []"
  proof (cases "tasks st")
    case (Cons t ts)
    with assms(3) obtain y where "task_step E (shared st) t = Some y" by (auto simp: workers_panic_def)
    with goes_on.work [of st "[]" t ts E] Cons assms(2) show ?thesis by (cases y) auto
  qed
  with assms(1) show idle: "idle_workers st = worker_count" by (simp add: accounts_def)
  show queries: "queries st = []"
    using goes_on.take_query [of st _ _ 49 E] idle assms(2) by (cases "queries st") (auto simp: worker_count_def)
  from assms(1) tasks queries show "mset (map fst (replies st)) = mset (received st)" by (simp add: accounts_def)
qed


section \<open>The sequential server is a schedule\<close>

text \<open>The goroutines run to their ends one after the other, the first one first.\<close>

inductive tasks_run :: "'w env \<Rightarrow> 'w Server \<Rightarrow> task list \<Rightarrow> 'w Server \<Rightarrow> (Msg \<times> Msg) list \<Rightarrow> bool" for E where
  all_ended: "tasks_run E s [] s []"
| first_runs: "task_step E s t = Some (s1, next_tasks, ms) \<Longrightarrow> tasks_run E s1 (next_tasks @ ts) s' out \<Longrightarrow>
    tasks_run E s (t # ts) s' (reply_pairs t ms @ out)"

lemma tasks_run_goes_on:
  assumes "tasks_run E s ts s' out" "shared st = s" "tasks st = ts"
  shows "(goes_on E)\<^sup>*\<^sup>* st (st\<lparr>shared := s', tasks := [], idle_workers := idle_workers st + length out, replies := replies st @ out\<rparr>)"
  using assms
proof (induction arbitrary: st rule: tasks_run.induct)
  case (first_runs s t s1 next_tasks ms ts s' out)
  let ?st1 = "st\<lparr>shared := s1, tasks := next_tasks @ ts, idle_workers := idle_workers st + length ms, replies := replies st @ reply_pairs t ms\<rparr>"
  have "goes_on E st ?st1" using goes_on.work [of st "[]" t ts E s1 next_tasks ms] first_runs.hyps(1) first_runs.prems by simp
  moreover from first_runs.IH [of ?st1] have "(goes_on E)\<^sup>*\<^sup>* ?st1 (?st1\<lparr>shared := s', tasks := [],
      idle_workers := idle_workers ?st1 + length out, replies := replies ?st1 @ out\<rparr>)" by simp
  moreover note task_step_requests(2) [OF first_runs.hyps(1)]
  ultimately show ?case by (simp add: add.assoc converse_rtranclp_into_rtranclp)
next
  case (all_ended s)
  then have "st\<lparr>shared := s, tasks := [], idle_workers := idle_workers st + length [], replies := replies st @ []\<rparr> = st" by (cases st) simp
  then show ?case by simp
qed

lemma tasks_run_silent:
  assumes "task_step E s t = Some (s1, next_tasks, [])" "tasks_run E s1 (next_tasks @ ts) s' out"
  shows "tasks_run E s (t # ts) s' out"
  using tasks_run.first_runs [OF assms] by (simp add: reply_pairs_def split: option.splits)

lemma prefetchRecord_runs:
  assumes "prefetchRecord E s q = Some s1" "tasks_run E s1 ts s' out"
  shows "tasks_run E s (PrefetchLooks q # ts) s' out"
proof -
  from assms(1) obtain s2 hit where g: "server_get E s q 0 = Some (s2, hit)"
    by (auto simp: prefetchRecord_def split: Option.bind_splits)
  show ?thesis
  proof (cases "hit = None")
    case True
    from assms(1) g True obtain s3 resp
      where x: "prefetch_exchange E s2 (SetEdns0 (E_lib E) (SetQuestion (E_lib E) new_Msg (qName q) (qQtype q)) 4096 True) = Some (s3, resp)"
        and rest: "(if r_Err resp \<noteq> None then Some s3 else do { m \<leftarrow> r_Msg resp; server_set E s3 q m }) = Some s1"
      by (auto simp: prefetchRecord_def Let_def split: Option.bind_splits)
    have "tasks_run E s2 (PrefetchResolves q # ts) s' out"
    proof (cases "r_Err resp = None")
      case no_err: True
      with rest obtain m where m: "r_Msg resp = Some m" "server_set E s3 q m = Some s1" by (auto split: Option.bind_splits)
      have "tasks_run E s3 (PrefetchStores q m # ts) s' out" by (rule tasks_run_silent [of E s3 _ s1 "[]"]) (use m assms(2) in simp_all)
      then show ?thesis by (intro tasks_run_silent [of E s2 _ s3 "[PrefetchStores q m]"]) (use x no_err m in simp_all)
    next
      case False
      with rest assms(2) show ?thesis by (intro tasks_run_silent [of E s2 _ s3 "[]"]) (use x in auto)
    qed
    then show ?thesis by (intro tasks_run_silent [of E s _ s2 "[PrefetchResolves q]"]) (use g True in simp_all)
  next
    case False
    with assms g show ?thesis by (intro tasks_run_silent [of E s _ s2 "[]"]) (auto simp: prefetchRecord_def)
  qed
qed

lemma recordAccess_runs:
  assumes "recordAccess E s q = Some s1" "tasks_run E s1 (Resolves r q # ts) s' out"
  shows "tasks_run E s (Records r q # ts) s' out"
proof -
  let ?key = "cache_key q"
  let ?n = "(case map_of (sv_popular s) ?key of None \<Rightarrow> 0 | Some n \<Rightarrow> n) + 1"
  show ?thesis
  proof (cases "?n \<ge> threshold")
    case True
    let ?s = "s\<lparr>sv_popular := AList.update ?key 0 (sv_popular s)\<rparr>"
    from assms(1) True have "prefetchRecord E ?s q = Some s1" unfolding recordAccess_def Let_def by simp
    from prefetchRecord_runs [OF this assms(2)] show ?thesis
      by (intro tasks_run_silent [of E s _ ?s "[PrefetchLooks q, Resolves r q]"]) (use True in \<open>simp_all add: Let_def\<close>)
  next
    case False
    let ?s = "s\<lparr>sv_popular := AList.update ?key ?n (sv_popular s)\<rparr>"
    from assms(1) False have "s1 = ?s" unfolding recordAccess_def Let_def by simp
    with assms(2) show ?thesis by (intro tasks_run_silent [of E s _ ?s "[Resolves r q]"]) (use False in \<open>simp_all add: Let_def\<close>)
  qed
qed

lemma last_step_runs:
  assumes "task_step E s t = Some (s', [], [m])" "request_of t = Some r"
  shows "tasks_run E s [t] s' [(r, m)]"
  using tasks_run.first_runs [OF assms(1), of "[]" s' "[]"] assms(2) by (simp add: tasks_run.all_ended reply_pairs_def)

lemma next_step_runs:
  assumes "task_step E s t = Some (s1, [t'], [])" "tasks_run E s1 [t'] s' out"
  shows "tasks_run E s [t] s' out"
  by (rule tasks_run_silent [OF assms(1)]) (simp add: assms(2))

text \<open>What \<open>processQuery\<close> does with a response, with the validator and without.\<close>

lemma validated_runs:
  assumes "sv_validator s = Some a" "validateDNSSEC E s msg = Some (s4, authResult, err)"
    and "(if err \<noteq> None \<or> authResult \<noteq> ''Secure'' then Some (s4, (reply_to E r)\<lparr>mRcode := RcodeServerFailure\<rparr>)
      else do { s5 \<leftarrow> server_set E s4 q (msg\<lparr>mAuthenticatedData := True\<rparr>); Some (s5, msg\<lparr>mAuthenticatedData := True\<rparr>) }) = Some (s', m)"
  shows "tasks_run E s [Validates r q msg] s' [(r, m)]"
proof (cases "err \<noteq> None \<or> authResult \<noteq> ''Secure''")
  case True
  with assms show ?thesis by (intro last_step_runs) auto
next
  case False
  let ?m = "msg\<lparr>mAuthenticatedData := True\<rparr>"
  from False assms(3) have "server_set E s4 q ?m = Some s'" "m = ?m" by (auto split: Option.bind_splits)
  then have "tasks_run E s4 [Stores r q ?m] s' [(r, m)]" by (intro last_step_runs) simp_all
  with False assms(1,2) show ?thesis by (intro next_step_runs [of E s _ s4 "Stores r q ?m"]) simp_all
qed

lemma response_runs:
  assumes "do {
      (s4, verdict) \<leftarrow> (if wants_dnssec E r \<and> sv_validator s \<noteq> None
         then map_option (\<lambda>(s4, authResult, err). (s4, Some (authResult, err))) (validateDNSSEC E s msg) else Some (s, None));
      if (case verdict of None \<Rightarrow> False | Some (authResult, err) \<Rightarrow> err \<noteq> None \<or> authResult \<noteq> ''Secure'')
      then Some (s4, (reply_to E r)\<lparr>mRcode := RcodeServerFailure\<rparr>)
      else do {
        let msg1 = (if wants_dnssec E r then msg\<lparr>mAuthenticatedData := (verdict \<noteq> None)\<rparr> else msg);
        s5 \<leftarrow> server_set E s4 q msg1;
        Some (s5, msg1)
      } } = Some (s', m)"
  shows "tasks_run E s [if wants_dnssec E r then Validates r q msg else Stores r q msg] s' [(r, m)]"
proof (cases "wants_dnssec E r")
  case False
  with assms have "server_set E s q msg = Some s'" "m = msg" by (auto split: Option.bind_splits)
  with False show ?thesis by (intro last_step_runs) simp_all
next
  case True
  show ?thesis
  proof (cases "sv_validator s")
    case None
    let ?m = "msg\<lparr>mAuthenticatedData := False\<rparr>"
    from assms True None have "do { s5 \<leftarrow> server_set E s q ?m; Some (s5, ?m) } = Some (s', m)" by (simp add: Let_def)
    then have "server_set E s q ?m = Some s'" "m = ?m" by (auto split: Option.bind_splits)
    then have store: "tasks_run E s [Stores r q ?m] s' [(r, m)]" by (intro last_step_runs) simp_all
    have "task_step E s (Validates r q msg) = Some (s, [Stores r q ?m], [])" using None by simp
    from next_step_runs [OF this store] True show ?thesis by simp
  next
    case (Some a)
    from assms True Some obtain s4 authResult err where "validateDNSSEC E s msg = Some (s4, authResult, err)"
      "(if err \<noteq> None \<or> authResult \<noteq> ''Secure'' then Some (s4, (reply_to E r)\<lparr>mRcode := RcodeServerFailure\<rparr>)
        else do { s5 \<leftarrow> server_set E s4 q (msg\<lparr>mAuthenticatedData := True\<rparr>); Some (s5, msg\<lparr>mAuthenticatedData := True\<rparr>) }) = Some (s', m)"
      by (auto simp: Let_def split: Option.bind_splits if_splits)
    from validated_runs [OF Some this] True show ?thesis by simp
  qed
qed

lemma processQuery_runs:
  assumes run: "processQuery E s r = Some (s', m)"
  shows "tasks_run E s [Looks r] s' [(r, m)]"
proof -
  from run obtain q s1 cached where q: "at (mQuestion r) 0 = Some q" and g: "server_get E s q (mId r) = Some (s1, cached)"
    by (auto simp: processQuery_def split: Option.bind_splits)
  show ?thesis
  proof (cases cached)
    case (Some c)
    with run q g show ?thesis by (intro last_step_runs) (auto simp: processQuery_def)
  next
    case None
    with run q g obtain s2 res resp where acc: "recordAccess E s1 q = Some s2"
      and x: "Exchange E (sv_resolver s2) r = Some (res, resp)"
      by (auto simp: processQuery_def split: Option.bind_splits)
    let ?s3 = "s2\<lparr>sv_resolver := res\<rparr>"
    have "tasks_run E s2 [Resolves r q] s' [(r, m)]"
    proof (cases "r_Err resp")
      case (Some e)
      let ?rc = "if is_NXDOMAIN e then RcodeNameError else RcodeServerFailure"
      from run q g None acc x Some have "server_setNegative E ?s3 q ?rc = Some s'" "m = (reply_to E r)\<lparr>mRcode := ?rc\<rparr>"
        by (simp_all add: processQuery_def Let_def Option.bind_eq_Some_conv)
      then have "tasks_run E ?s3 [Fails r q ?rc] s' [(r, m)]" by (intro last_step_runs) simp_all
      then show ?thesis by (intro next_step_runs [of E s2 _ ?s3 "Fails r q ?rc"]) (use x Some in \<open>simp_all add: Let_def\<close>)
    next
      case no_err: None
      with run q g None acc x obtain msg where msg: "r_Msg resp = Some msg"
        by (auto simp: processQuery_def Let_def split: Option.bind_splits)
      have "tasks_run E ?s3 [if wants_dnssec E r then Validates r q msg else Stores r q msg] s' [(r, m)]"
        by (rule response_runs) (use run q g None acc x no_err msg in \<open>simp add: processQuery_def Let_def\<close>)
      then show ?thesis by (rule next_step_runs [rotated]) (use x no_err msg in \<open>simp add: Let_def\<close>)
    qed
    from recordAccess_runs [OF acc this] show ?thesis
      by (intro next_step_runs [of E s _ s1 "Records r q"]) (use q g None in simp_all)
  qed
qed

lemma worker_goes_through:
  assumes "worker E s rs = Some (s', ms)" "shared st = s" "queries st = rs" "tasks st = []" "0 < idle_workers st"
  shows "(goes_on E)\<^sup>*\<^sup>* st (st\<lparr>shared := s', queries := [], replies := replies st @ zip rs ms\<rparr>) \<and> length ms = length rs"
  using assms
proof (induction rs arbitrary: s st ms)
  case Nil
  then have "st\<lparr>shared := s', queries := [], replies := replies st @ zip [] ms\<rparr> = st" by (cases st) simp
  with Nil(1) show ?case by (simp del: workers.update_convs)
next
  case (Cons r rs)
  from Cons.prems(1) obtain s1 m ms' where p: "processQuery E s r = Some (s1, m)" and w: "worker E s1 rs = Some (s', ms')" and ms: "ms = m # ms'"
    by (auto split: Option.bind_splits)
  let ?st1 = "st\<lparr>queries := rs, idle_workers := idle_workers st - 1, tasks := [Looks r]\<rparr>"
  let ?st2 = "st\<lparr>queries := rs, shared := s1, tasks := [], replies := replies st @ [(r, m)]\<rparr>"
  have "goes_on E st ?st1" using goes_on.take_query [of st r rs "idle_workers st - 1" E] Cons.prems by simp
  moreover have "(goes_on E)\<^sup>*\<^sup>* ?st1 ?st2"
    using tasks_run_goes_on [OF processQuery_runs [OF p], of ?st1] Cons.prems(2,5) by simp
  moreover have "(goes_on E)\<^sup>*\<^sup>* ?st2 (st\<lparr>shared := s', queries := [], replies := replies st @ zip (r # rs) ms\<rparr>) \<and> length ms = length (r # rs)"
  proof -
    have "st\<lparr>shared := s', queries := [], replies := replies st @ zip (r # rs) ms\<rparr> =
        ?st2\<lparr>shared := s', queries := [], replies := replies ?st2 @ zip rs ms'\<rparr>"
      using Cons.prems(4) ms by (cases st) simp
    with Cons.IH [OF w, of ?st2] Cons.prems(5) ms show ?thesis by simp
  qed
  ultimately show ?case by (meson converse_rtranclp_into_rtranclp rtranclp_trans)
qed

text \<open>
  C38: the sequential server is one of the interleavings. Whenever the handling of a list of queries
  one after the other gives replies, the goroutines of a server with these queries in its channel
  and a free worker have a run that writes the same replies in the same order and leaves the
  server in the same state, prefetches included.
\<close>

theorem sequential_server_is_a_schedule:
  assumes "worker E (shared st) (queries st) = Some (s', ms)" "tasks st = []" "0 < idle_workers st"
  shows "(goes_on E)\<^sup>*\<^sup>* st (st\<lparr>shared := s', queries := [], replies := replies st @ zip (queries st) ms\<rparr>)"
  using worker_goes_through [OF assms(1) refl refl assms(2,3)] by blast

section \<open>A validating server under load\<close>

text \<open>
  What a validating server may write to a client that asks for DNSSEC: a failure, or what the cache
  gave in one of its states.
\<close>

definition failure_reply :: "'w env \<Rightarrow> Msg \<Rightarrow> Msg \<Rightarrow> bool" where
  "failure_reply E r m \<longleftrightarrow> m \<in> {(reply_to E r)\<lparr>mRcode := RcodeServerFailure\<rparr>, (reply_to E r)\<lparr>mRcode := RcodeNameError\<rparr>}"

definition from_cache :: "'w env \<Rightarrow> RR list \<Rightarrow> Config \<Rightarrow> Msg \<Rightarrow> Msg \<Rightarrow> bool" where
  "from_cache E rrs cfg r m \<longleftrightarrow> (\<exists>st q s' c. workers_reachable E rrs cfg st \<and> at (mQuestion r) 0 = Some q \<and>
     server_get E (shared st) q (mId r) = Some (s', Some c) \<and> m = c\<lparr>mAuthenticatedData := True\<rparr>)"

definition task_fails :: "'w env \<Rightarrow> task \<Rightarrow> bool" where
  "task_fails E t \<longleftrightarrow> (case t of Stores r q msg \<Rightarrow> \<not> wants_dnssec E r
     | Fails r q rcode \<Rightarrow> rcode \<in> {RcodeServerFailure, RcodeNameError} | _ \<Rightarrow> True)"

definition validating :: "'w env \<Rightarrow> RR list \<Rightarrow> Config \<Rightarrow> 'w workers \<Rightarrow> bool" where
  "validating E rrs cfg st \<longleftrightarrow> sv_validator (shared st) \<noteq> None \<and> validator_keyless (shared st) \<and> list_all (task_fails E) (tasks st) \<and>
     list_all (\<lambda>(r, m). wants_dnssec E r \<longrightarrow> failure_reply E r m \<or> from_cache E rrs cfg r m) (replies st)"

lemma task_step_validator:
  assumes "task_step E s t = Some (s', next_tasks, ms)" "sv_validator s \<noteq> None" "validator_keyless s"
  shows "sv_validator s' \<noteq> None \<and> validator_keyless s'"
proof (cases "\<exists>r q msg. t = Validates r q msg")
  case True
  with assms(1,2) obtain msg authResult err where "validateDNSSEC E s msg = Some (s', authResult, err)"
    by (auto split: Option.bind_splits if_splits)
  moreover obtain a where "sv_validator s = Some a" using assms(2) by auto
  ultimately show ?thesis using validateDNSSEC_never_secure assms(3) by (fastforce simp: validator_keyless_def)
next
  case False
  have "sv_validator s' = sv_validator s"
    using assms(1) False
    by (cases t) (auto dest: server_cache_frame simp: Let_def prefetch_exchange_def split: Option.bind_splits option.splits if_splits)
  with assms(2,3) show ?thesis by (simp add: validator_keyless_def)
qed

lemma from_cacheI:
  "workers_reachable E rrs cfg st \<Longrightarrow> at (mQuestion r) 0 = Some q \<Longrightarrow> server_get E (shared st) q (mId r) = Some (s', Some c) \<Longrightarrow>
    from_cache E rrs cfg r (c\<lparr>mAuthenticatedData := True\<rparr>)"
  unfolding from_cache_def by blast

lemma prefetches_fail: "list_all (task_fails E) (map PrefetchLooks qs)"
  by (simp add: list_all_iff task_fails_def)

lemma task_step_fails:
  assumes "task_step E (shared st) t = Some (s', next_tasks, ms)" "validating E rrs cfg st" "task_fails E t" "workers_reachable E rrs cfg st"
  shows "list_all (task_fails E) next_tasks \<and>
    list_all (\<lambda>(r, m). wants_dnssec E r \<longrightarrow> failure_reply E r m \<or> from_cache E rrs cfg r m) (reply_pairs t ms)"
proof (cases t)
  case (Looks r)
  with assms(1) obtain q cached where q: "at (mQuestion r) 0 = Some q" and g: "server_get E (shared st) q (mId r) = Some (s', cached)"
    by (auto split: Option.bind_splits option.splits)
  show ?thesis
  proof (cases cached)
    case (Some c)
    with from_cacheI [OF assms(4) q g [unfolded Some]] Looks assms(1) q g show ?thesis by (auto simp: reply_pairs_def)
  qed (use Looks assms(1) q g in \<open>auto simp: reply_pairs_def task_fails_def\<close>)
next
  case (Validates r q msg)
  from assms(2) obtain a where a: "sv_validator (shared st) = Some a" "keyless a" by (auto simp: validating_def validator_keyless_def)
  with assms(1) Validates validateDNSSEC_never_secure [OF _ a] show ?thesis
    by (auto simp: reply_pairs_def failure_reply_def split: Option.bind_splits if_splits)
qed (use assms(1,3) in \<open>auto simp: reply_pairs_def task_fails_def failure_reply_def Let_def split: Option.bind_splits option.splits if_splits\<close>)

lemma validating_step:
  assumes "workers_step E st st'" "validating E rrs cfg st" "workers_reachable E rrs cfg st"
  shows "validating E rrs cfg st'"
  using assms
proof (induction rule: workers_step.induct)
  case (goroutine st st')
  then show ?case
  proof (induction rule: goes_on.induct)
    case (work st ts t ts' s' next_tasks ms)
    then have "task_fails E t" by (simp add: validating_def)
    from task_step_fails [OF work(2,3) this work(4)] task_step_validator [OF work(2)] work(1,3) show ?case
      by (simp add: validating_def)
  qed (simp add: validating_def task_fails_def)
next
  case (clean st s')
  then show ?case by (auto simp: validating_def cacheCleaner_def validator_keyless_def split: Option.bind_splits)
next
  case (tick st c)
  then show ?case by (simp add: validating_def validator_keyless_def prefetches_fail)
qed (simp_all add: validating_def validator_keyless_def)

lemma validating_reachable:
  assumes "workers_reachable E rrs cfg st" "EnableDNSSEC cfg"
  shows "validating E rrs cfg st"
  using assms(1)
proof (induction rule: workers_reachable.induct)
  case (start err w s)
  with assms(2) show ?case
    by (auto simp: validating_def workers_start_def NewServerWithConfig_def new_server_def validator_keyless_def keyless_new split: Option.bind_splits)
next
  case (step st st')
  from validating_step [OF step.hyps(2) step.IH step.hyps(1)] show ?case .
qed

text \<open>
  C24: a server started with DNSSEC enabled validates nothing, under every interleaving. Every message
  that it ever writes to a client that asks for DNSSEC is a failure code without a record, however
  well the answer is signed, because the server checks it against a root zone without keys; or it
  is what the cache gave for the question in one of the server's states, with the authenticated-data
  flag set, whatever it is and wherever it came from.
\<close>

theorem validating_server_fails:
  assumes "workers_reachable E rrs cfg st" "EnableDNSSEC cfg" "(r, m) \<in> set (replies st)" "wants_dnssec E r"
  shows "failure_reply E r m \<or> from_cache E rrs cfg r m"
  using validating_reachable [OF assms(1,2)] assms(3,4) by (auto simp: validating_def list_all_iff)

text \<open>
  The periodic prefetch makes no query as long as its goroutines run before anything else happens:
  a tick with them only reorders and counts in the cache and drops the popularity counts, and leaves
  both resolvers and the outside world alone. The questions it goes through are exactly those that
  are still in the cache, and for these the prefetch returns at once.
\<close>

theorem prefetch_does_nothing:
  assumes "workers_reachable E rrs cfg st"
  shows "\<exists>c'. prefetchAllDomains E (shared st) =
    Some ((shared st)\<lparr>sv_resolver := (sv_resolver (shared st))\<lparr>rcache := Some c'\<rparr>, sv_popular := []\<rparr>)"
proof -
  have "server_cached E (cache_limit cfg) (shared st)"
    by (rule server_cache.workers_reachable_keeps [OF assms]) (rule new_server_cached)
  then obtain c ops where "rcache (sv_resolver (shared st)) = Some c" "run (cache_step (E_lib E)) ops (new_cache (cache_limit cfg)) = Some c"
    unfolding server_cached_def caches_def operated_def by blast
  then show ?thesis by (rule prefetch_tick_idle)
qed

section \<open>A server with one query\<close>

definition asked :: "nat Server \<Rightarrow> nat workers" where
  "asked s = (workers_start s)\<lparr>queries := [do_query], received := [do_query]\<rparr>"

definition sv_served :: "(nat Server \<times> nat Server \<times> Msg list) option" where
  "sv_served = do { s \<leftarrow> sv_start; (s', ms) \<leftarrow> worker sv_env s [do_query]; Some (s, s', ms) }"

lemma sv_served_run:
  obtains s s' m where "workers_reachable sv_env ex_hints main_config (asked s)" "worker sv_env s [do_query] = Some (s', [m])"
    "mRcode m = RcodeServerFailure"
proof -
  have "map_option (\<lambda>(s, s', ms). map mRcode ms) sv_served = Some [RcodeServerFailure]" by code_simp
  then obtain s s' m where "sv_served = Some (s, s', [m])" and rc: "mRcode m = RcodeServerFailure" by (auto simp: map_eq_Cons_conv)
  then have start: "sv_start = Some s" and w: "worker sv_env s [do_query] = Some (s', [m])"
    by (auto simp: sv_served_def simp del: worker.simps split: Option.bind_splits)
  have "workers_step sv_env (workers_start s) (asked s)"
    using workers_step.handleDNS [of "workers_start s" sv_env do_query] by (simp add: asked_def workers_start_def queries_capacity_def)
  with workers_reachable.start [OF start [unfolded sv_start_def]] have "workers_reachable sv_env ex_hints main_config (asked s)"
    by (rule workers_reachable.step)
  from that [OF this w rc] show thesis .
qed

definition served :: "nat Server \<Rightarrow> nat Server \<Rightarrow> Msg \<Rightarrow> nat workers" where
  "served s s' m = (asked s)\<lparr>shared := s', queries := [], replies := [(do_query, m)]\<rparr>"

lemma asked_runs:
  assumes "worker sv_env s [do_query] = Some (s', [m])"
  shows "(goes_on sv_env)\<^sup>*\<^sup>* (asked s) (served s s' m)"
proof -
  have a: "shared (asked s) = s" "queries (asked s) = [do_query]" "tasks (asked s) = []" "0 < idle_workers (asked s)" "replies (asked s) = []"
    by (simp_all add: asked_def workers_start_def worker_count_def)
  from worker_goes_through [OF assms a(1-4)] a(5) show ?thesis by (simp add: served_def)
qed



theorem sequential_server_is_a_schedule_witness:
  "\<exists>s s' m. worker sv_env s [do_query] = Some (s', [m]) \<and> (goes_on sv_env)\<^sup>*\<^sup>* (asked s) (served s s' m)"
proof -
  obtain s s' m where w: "worker sv_env s [do_query] = Some (s', [m])" by (rule sv_served_run)
  have a: "shared (asked s) = s" "queries (asked s) = [do_query]" "tasks (asked s) = []" "0 < idle_workers (asked s)" "replies (asked s) = []"
    by (simp_all add: asked_def workers_start_def worker_count_def)
  from sequential_server_is_a_schedule [of sv_env "asked s" s' "[m]"] w a have "(goes_on sv_env)\<^sup>*\<^sup>* (asked s) (served s s' m)"
    by (simp add: served_def del: worker.simps)
  with w show ?thesis by blast
qed

theorem validating_server_fails_witness:
  "\<exists>st m. workers_reachable sv_env ex_hints main_config st \<and> (do_query, m) \<in> set (replies st) \<and> mRcode m = RcodeServerFailure \<and>
     (failure_reply sv_env do_query m \<or> from_cache sv_env ex_hints main_config do_query m)"
proof -
  obtain s s' m where s: "workers_reachable sv_env ex_hints main_config (asked s)" and w: "worker sv_env s [do_query] = Some (s', [m])"
    and rc: "mRcode m = RcodeServerFailure" by (rule sv_served_run)
  from asked_runs [OF w] s have st: "workers_reachable sv_env ex_hints main_config (served s s' m)"
    by (induction rule: rtranclp_induct) (auto intro: workers_reachable.step workers_step.goroutine)
  have d: "EnableDNSSEC main_config" "wants_dnssec sv_env do_query" by code_simp+
  have m: "(do_query, m) \<in> set (replies (served s s' m))" by (simp add: served_def)
  from validating_server_fails [OF st d(1) m d(2)] st m rc show ?thesis by blast
qed

end
