(* ===== verification/Root_Hints.thy ===== *)
theory Root_Hints
  imports Server_Workers
begin

text \<open>
  The root servers the program starts from: the records in the text of \<open>root.go\<close>, which the
  library's zone parser reads. Lines that start with a semicolon are comments; the entry of one
  server is commented out.
\<close>

section \<open>The records\<close>

definition hint :: "string \<Rightarrow> string \<Rightarrow> string \<Rightarrow> RR list" where
  "hint letter ip4 ip6 =
     (let server = letter @ ''.ROOT-SERVERS.NET.'';
          rr = (\<lambda>owner t d. \<lparr>Header = \<lparr>hName = owner, hRrtype = t, hClass = 1, hTtl = 3600000\<rparr>, Rdata = d\<rparr>)
      in [rr ''.'' TypeNS (NS_R server), rr server TypeA (A_R ip4), rr server TypeAAAA (AAAA_R ip6)])"

definition rootZone :: "RR list" where
  "rootZone = concat [
     hint ''A'' ''198.41.0.4'' ''2001:503:ba3e::2:30'',
     hint ''C'' ''192.33.4.12'' ''2001:500:2::c'',
     hint ''D'' ''199.7.91.13'' ''2001:500:2d::d'',
     hint ''E'' ''192.203.230.10'' ''2001:500:a8::e'',
     hint ''F'' ''192.5.5.241'' ''2001:500:2f::f'',
     hint ''G'' ''192.112.36.4'' ''2001:500:12::d0d'',
     hint ''H'' ''198.97.190.53'' ''2001:500:1::53'',
     hint ''I'' ''192.36.148.17'' ''2001:7fe::53'',
     hint ''J'' ''192.58.128.30'' ''2001:503:c27::2:30'',
     hint ''K'' ''193.0.14.129'' ''2001:7fd::1'',
     hint ''L'' ''199.7.83.42'' ''2001:500:9f::42'',
     hint ''M'' ''202.12.27.33'' ''2001:dc3::35'']"

section \<open>The pool of the root\<close>

lemma rootZone_servers: "list_ex is_root_server rootZone"
  by (simp add: rootZone_def hint_def is_root_server_def Let_def)

text \<open>
  A new resolver always starts: the root has twelve servers with an address of either family, the
  counters agree with the lists, and the pool does not expire.
\<close>

lemma root_pool:
  "\<exists>pool. buildRootServerPool L rootZone None = Inr pool \<and> length (ipv4 pool) = 12 \<and> length (ipv6 pool) = 12 \<and>
     ipv4Count pool = 12 \<and> ipv6Count pool = 12 \<and> expires pool = 0 \<and> hostsWithoutAddresses pool = []"
  by (simp add: buildRootServerPool_def rootZone_def hint_def Let_def updateIPCount_def new_pool_def)

lemma NewResolver_starts: "NewResolver E rootZone None cache w \<noteq> None"
  by (simp add: NewResolver_def buildRootServerPool_def Let_def)



end
