(* ===== verification/Fast_Pool.thy ===== *)
theory Fast_Pool
  imports Dns "HOL-Library.Sublist"
begin

text \<open>
  The racing pool of \<open>fast_pool.go\<close>. Every server is asked in a goroutine of its own; the caller
  takes whatever comes first of a result, an error and the deadline. The race is a step relation
  over the two buffered channels, the goroutines that still run and what the caller has returned.
  What the client of the DNS library gives for the server at each position, when its goroutine
  comes to it, is the parameter \<open>outs\<close> of a run; the order is left to the steps.
\<close>

section \<open>The race\<close>

type_synonym outcome = "Msg option \<times> int \<times> error option"

definition DeadlineExceeded :: error where
  "DeadlineExceeded = LibErr ''context deadline exceeded''"

definition no_nameservers :: error where
  "no_nameservers = LibErr ''no nameservers available''"

text \<open>\<open>quickQuery\<close>: the client's result, with an error alone when there is one.\<close>

definition quickQuery :: "outcome \<Rightarrow> outcome" where
  "quickQuery out = (case out of (msg, rtt, err) \<Rightarrow> if err \<noteq> None then (None, 0, err) else (msg, rtt, None))"

text \<open>
  \<open>deadline\<close> says that the timeout has passed; the context of the goroutines is done then, and also
  once the caller has returned, which cancels it.
\<close>

record race =
  running :: "nat list"
  resultChan :: "(Msg \<times> int) list"
  errorChan :: "error list"
  results_closed :: bool
  errors_closed :: bool
  deadline :: bool
  returned :: "outcome option"

definition race_start :: "nat \<Rightarrow> race" where
  "race_start n = \<lparr>running = [0..<n], resultChan = [], errorChan = [], results_closed = False, errors_closed = False,
     deadline = False, returned = None\<rparr>"

definition ctx_done :: "race \<Rightarrow> bool" where
  "ctx_done s \<longleftrightarrow> deadline s \<or> returned s \<noteq> None"

text \<open>What a goroutine sends, unless it finds the context done.\<close>

definition send :: "outcome \<Rightarrow> race \<Rightarrow> race" where
  "send out s = (case quickQuery out of
      (_, _, Some e) \<Rightarrow> s\<lparr>errorChan := errorChan s @ [e]\<rparr>
    | (Some m, rtt, None) \<Rightarrow> s\<lparr>resultChan := resultChan s @ [(m, rtt)]\<rparr>
    | (None, _, None) \<Rightarrow> s)"

inductive race_step :: "outcome list \<Rightarrow> race \<Rightarrow> race \<Rightarrow> bool" for outs where
  sends: "i \<in> set (running s) \<Longrightarrow> race_step outs s (send (outs ! i) (s\<lparr>running := remove1 i (running s)\<rparr>))"
| skips: "i \<in> set (running s) \<Longrightarrow> ctx_done s \<Longrightarrow> race_step outs s (s\<lparr>running := remove1 i (running s)\<rparr>)"
| close_results: "running s = [] \<Longrightarrow> \<not> results_closed s \<Longrightarrow> race_step outs s (s\<lparr>results_closed := True\<rparr>)"
| close_errors: "results_closed s \<Longrightarrow> \<not> errors_closed s \<Longrightarrow> race_step outs s (s\<lparr>errors_closed := True\<rparr>)"
| timeout: "\<not> deadline s \<Longrightarrow> race_step outs s (s\<lparr>deadline := True\<rparr>)"
| take_result: "returned s = None \<Longrightarrow> resultChan s = (m, rtt) # rest \<Longrightarrow>
    race_step outs s (s\<lparr>resultChan := rest, returned := Some (Some m, rtt, None)\<rparr>)"
| take_no_result: "returned s = None \<Longrightarrow> resultChan s = [] \<Longrightarrow> results_closed s \<Longrightarrow>
    race_step outs s (s\<lparr>returned := Some (None, 0, None)\<rparr>)"
| take_error: "returned s = None \<Longrightarrow> errorChan s = e # rest \<Longrightarrow>
    race_step outs s (s\<lparr>errorChan := rest, returned := Some (None, 0, Some e)\<rparr>)"
| take_no_error: "returned s = None \<Longrightarrow> errorChan s = [] \<Longrightarrow> errors_closed s \<Longrightarrow>
    race_step outs s (s\<lparr>returned := Some (None, 0, None)\<rparr>)"
| take_deadline: "returned s = None \<Longrightarrow> deadline s \<Longrightarrow>
    race_step outs s (s\<lparr>returned := Some (None, 0, Some DeadlineExceeded)\<rparr>)"

text \<open>\<open>concurrentExchange\<close>: the values that a race can make the caller return.\<close>

definition concurrentExchange :: "outcome list \<Rightarrow> outcome \<Rightarrow> bool" where
  "concurrentExchange outs r \<longleftrightarrow> (\<exists>s. (race_step outs)\<^sup>*\<^sup>* (race_start (length outs)) s \<and> returned s = Some r)"

text \<open>\<open>exchangeFast\<close> and \<open>exchangeWithFallback\<close>, for the outcomes that the servers give in the race and a value the race returns.\<close>

definition exchangeFast :: "string list \<Rightarrow> outcome list \<Rightarrow> outcome \<Rightarrow> bool" where
  "exchangeFast servers outs r \<longleftrightarrow> (if servers = [] then r = (None, 0, Some no_nameservers) else concurrentExchange outs r)"

text \<open>\<open>client\<close> is the query of the fallback, with its longer timeout.\<close>

definition exchangeWithFallback :: "(string \<Rightarrow> outcome) \<Rightarrow> string list \<Rightarrow> outcome \<Rightarrow> outcome" where
  "exchangeWithFallback client servers fast =
     (case fast of (resp, rtt, err) \<Rightarrow>
        if err = None \<and> resp \<noteq> None then (resp, rtt, None)
        else case servers of [] \<Rightarrow> (None, 0, Some no_nameservers) | s # _ \<Rightarrow> client (s @ '':53''))"

text \<open>
  \<open>measureLatency\<close>: the time a server took to answer a query for the root's servers, if it did.
  \<open>selectBestServers\<close> cuts the list at \<open>max\<close>, which panics for a negative one.
\<close>

definition measureLatency :: "(string \<Rightarrow> int option) \<Rightarrow> string list \<Rightarrow> string \<Rightarrow> int option" where
  "measureLatency probe servers s = (if s \<in> set servers then probe (s @ '':53'') else None)"

definition selectBestServers :: "(string \<Rightarrow> int option) \<Rightarrow> string list \<Rightarrow> int \<Rightarrow> string list option" where
  "selectBestServers probe servers mx =
     (let latency = measureLatency probe servers;
          sorted = filter (\<lambda>s. case latency s of None \<Rightarrow> False | Some lat \<Rightarrow> lat < 50000000) servers
      in if int (length sorted) > mx then (if mx < 0 then None else Some (take (nat mx) sorted)) else Some sorted)"

section \<open>What a race can return\<close>

definition answers :: "outcome list \<Rightarrow> Msg \<Rightarrow> int \<Rightarrow> bool" where
  "answers outs m rtt \<longleftrightarrow> (\<exists>i < length outs. outs ! i = (Some m, rtt, None))"

definition fails :: "outcome list \<Rightarrow> error \<Rightarrow> bool" where
  "fails outs e \<longleftrightarrow> (\<exists>i < length outs. snd (snd (outs ! i)) = Some e)"

text \<open>A value is accounted for when a server gave it, the deadline passed, or no goroutine is left.\<close>

definition accounted :: "outcome list \<Rightarrow> race \<Rightarrow> outcome \<Rightarrow> bool" where
  "accounted outs s r \<longleftrightarrow> (case r of
      (Some m, rtt, err) \<Rightarrow> answers outs m rtt \<and> err = None
    | (None, rtt, Some e) \<Rightarrow> rtt = 0 \<and> (fails outs e \<or> e = DeadlineExceeded \<and> deadline s)
    | (None, rtt, None) \<Rightarrow> rtt = 0 \<and> running s = [])"

definition race_inv :: "outcome list \<Rightarrow> race \<Rightarrow> bool" where
  "race_inv outs s \<longleftrightarrow>
     (\<forall>i \<in> set (running s). i < length outs) \<and> distinct (running s) \<and>
     (\<forall>(m, rtt) \<in> set (resultChan s). answers outs m rtt) \<and>
     (\<forall>e \<in> set (errorChan s). fails outs e) \<and>
     (results_closed s \<longrightarrow> running s = []) \<and> (errors_closed s \<longrightarrow> results_closed s) \<and>
     (\<forall>r. returned s = Some r \<longrightarrow> accounted outs s r)"

lemma race_inv_start: "race_inv outs (race_start (length outs))"
  by (simp add: race_inv_def race_start_def)

text \<open>A goroutine that sends or stops.\<close>

lemma send_frame [simp]:
  "running (send out s) = running s" "results_closed (send out s) = results_closed s" "errors_closed (send out s) = errors_closed s"
  "deadline (send out s) = deadline s" "returned (send out s) = returned s"
  by (auto simp: send_def split: prod.split option.split)

lemma send_channels:
  assumes "i < length outs"
  shows "\<forall>(m, rtt) \<in> set (resultChan (send (outs ! i) s)). (m, rtt) \<in> set (resultChan s) \<or> answers outs m rtt"
    and "\<forall>e \<in> set (errorChan (send (outs ! i) s)). e \<in> set (errorChan s) \<or> fails outs e"
proof -
  obtain m rtt err where out: "outs ! i = (m, rtt, err)" by (cases "outs ! i")
  show "\<forall>(m, rtt) \<in> set (resultChan (send (outs ! i) s)). (m, rtt) \<in> set (resultChan s) \<or> answers outs m rtt"
    using assms out by (cases m; cases err) (auto simp: send_def quickQuery_def answers_def)
  show "\<forall>e \<in> set (errorChan (send (outs ! i) s)). e \<in> set (errorChan s) \<or> fails outs e"
    using assms out by (cases m; cases err) (auto simp: send_def quickQuery_def fails_def)
qed

lemma accounted_fewer: "accounted outs s r \<Longrightarrow> running s' = [] \<or> running s' = running s \<or> running s \<noteq> [] \<Longrightarrow> deadline s \<longrightarrow> deadline s' \<Longrightarrow> accounted outs s' r"
  by (auto simp: accounted_def split: prod.splits option.splits)

lemma race_inv_step:
  assumes "race_step outs s s'" "race_inv outs s"
  shows "race_inv outs s'"
  using assms
proof (induction rule: race_step.induct)
  case (sends i s)
  from sends.hyps sends.prems have i: "i < length outs" by (simp add: race_inv_def)
  let ?s = "s\<lparr>running := remove1 i (running s)\<rparr>"
  have "accounted outs (send (outs ! i) ?s) r" if "returned s = Some r" for r
    by (rule accounted_fewer [of outs s]) (use that sends in \<open>auto simp: race_inv_def\<close>)
  with sends send_channels [OF i, of ?s] show ?case
    unfolding race_inv_def by (auto dest: notin_set_remove1)
next
  case (skips i s)
  have "accounted outs (s\<lparr>running := remove1 i (running s)\<rparr>) r" if "returned s = Some r" for r
    by (rule accounted_fewer [of outs s]) (use that skips in \<open>auto simp: race_inv_def\<close>)
  with skips show ?case unfolding race_inv_def by (auto dest: notin_set_remove1)
qed (auto simp: race_inv_def accounted_def answers_def split: option.splits)

lemma race_inv_reachable:
  assumes "(race_step outs)\<^sup>*\<^sup>* (race_start (length outs)) s"
  shows "race_inv outs s"
  using assms by (induction rule: rtranclp_induct) (auto intro: race_inv_start race_inv_step)

lemma concurrentExchange_sound:
  assumes "concurrentExchange outs (m, rtt, err)"
  shows "case m of Some x \<Rightarrow> answers outs x rtt \<and> err = None
    | None \<Rightarrow> rtt = 0 \<and> (\<forall>e. err = Some e \<longrightarrow> fails outs e \<or> e = DeadlineExceeded)"
proof -
  from assms obtain s where s: "(race_step outs)\<^sup>*\<^sup>* (race_start (length outs)) s" "returned s = Some (m, rtt, err)"
    by (auto simp: concurrentExchange_def)
  from race_inv_reachable [OF s(1)] s(2) show ?thesis
    by (auto simp: race_inv_def accounted_def split: option.splits)
qed

text \<open>
  C21: with the fallback, whatever the order of events, the caller gets the answer of one of the
  servers, unchanged, or exactly what the slower query to the first server gives. An error of the
  race, its deadline and the empty result of its closed channels never reach the caller.
\<close>

theorem fallback_sound:
  assumes "exchangeFast servers outs fast" "length outs = length servers" "servers \<noteq> []"
  shows "(\<exists>i < length servers. outs ! i = exchangeWithFallback client servers fast \<and> fst (outs ! i) \<noteq> None) \<or>
    exchangeWithFallback client servers fast = client (hd servers @ '':53'')"
proof -
  obtain m rtt err where fast: "fast = (m, rtt, err)" by (cases fast)
  from assms have c: "concurrentExchange outs (m, rtt, err)" by (simp add: exchangeFast_def fast)
  show ?thesis
  proof (cases "err = None \<and> m \<noteq> None")
    case True
    then obtain x where x: "m = Some x" "err = None" by auto
    with concurrentExchange_sound [OF c] obtain i where "i < length outs" "outs ! i = (Some x, rtt, None)" by (auto simp: answers_def)
    then show ?thesis using assms(2) x by (intro disjI1 exI [of _ i]) (simp add: exchangeWithFallback_def fast)
  qed (use assms(3) in \<open>auto simp: exchangeWithFallback_def fast neq_Nil_conv\<close>)
qed

section \<open>The race ends\<close>

definition work :: "race \<Rightarrow> nat" where
  "work s = length (running s) + (if results_closed s then 0 else 1) + (if errors_closed s then 0 else 1) +
     (if deadline s then 0 else 1) + (if returned s = None then 1 else 0)"

lemma work_decreases: "race_step outs s s' \<Longrightarrow> work s' < work s"
proof (induction rule: race_step.induct)
  case (sends i s)
  then show ?case using length_pos_if_in_set [of i] by (auto simp: work_def length_remove1)
next
  case (skips i s)
  then show ?case using length_pos_if_in_set [of i] by (auto simp: work_def length_remove1)
qed (simp_all add: work_def)

lemma work_bounds: "(race_step outs ^^ k) s s' \<Longrightarrow> k + work s' \<le> work s"
proof (induction k arbitrary: s')
  case (Suc k)
  then obtain t where "(race_step outs ^^ k) s t" "race_step outs t s'" by auto
  with Suc.IH work_decreases [of outs t s'] show ?case by fastforce
qed simp

text \<open>Without the deadline there is always a step until the caller has returned.\<close>

lemma race_goes_on:
  assumes "returned s = None"
  obtains s' where "race_step outs s s'" "deadline s' = deadline s"
proof -
  consider (busy) i where "i \<in> set (running s)" | (idle) "running s = []" "\<not> results_closed s"
    | (take) m rtt rest where "resultChan s = (m, rtt) # rest" | (empty) "resultChan s = []" "results_closed s"
    by (cases "resultChan s") (auto simp: neq_Nil_conv, metis list.set_intros(1) neq_Nil_conv)
  then show thesis
  proof cases
    case busy
    from that [OF race_step.sends [OF this]] show thesis by simp
  next
    case idle
    from that [OF race_step.close_results [OF this]] show thesis by simp
  next
    case take
    from that [OF race_step.take_result [OF assms this]] show thesis by simp
  next
    case empty
    from that [OF race_step.take_no_result [OF assms this]] show thesis by simp
  qed
qed

text \<open>
  C31: a race always ends and the caller is never stuck. From its start with \<open>n\<close> servers at most
  \<open>n + 4\<close> steps are possible, in any order; a state in which nothing can happen is one in which the
  caller has returned, no goroutine is left and both channels are closed; and until the caller
  returns, a step other than the timeout is possible.
\<close>

theorem race_ends:
  "(\<forall>k s. (race_step outs ^^ k) (race_start (length outs)) s \<longrightarrow> k \<le> length outs + 4) \<and>
   (\<forall>s. (\<nexists>s'. race_step outs s s') \<longrightarrow> returned s \<noteq> None \<and> running s = [] \<and> results_closed s \<and> errors_closed s) \<and>
   (\<forall>s. returned s = None \<longrightarrow> (\<exists>s'. race_step outs s s' \<and> deadline s' = deadline s))"
proof (intro conjI allI impI)
  fix k s assume "(race_step outs ^^ k) (race_start (length outs)) s"
  from work_bounds [OF this] show "k \<le> length outs + 4" by (simp add: work_def race_start_def)
next
  fix s assume stuck: "\<nexists>s'. race_step outs s s'"
  then show "returned s \<noteq> None" using race_goes_on by metis
  show run: "running s = []" using stuck race_step.sends [of _ s outs] by (cases "running s") auto
  show closed: "results_closed s" using stuck race_step.close_results [OF run] by blast
  show "errors_closed s" using stuck race_step.close_errors [OF closed] by blast
next
  fix s :: race assume "returned s = None"
  then show "\<exists>s'. race_step outs s s' \<and> deadline s' = deadline s" using race_goes_on by metis
qed

section \<open>Races that are lost\<close>

definition ok_outcome :: outcome where
  "ok_outcome = (Some new_Msg, 7, None)"

definition bad_outcome :: outcome where
  "bad_outcome = (None, 0, Some (LibErr ''connection refused''))"

text \<open>A run of the race given as a list of states.\<close>

lemma run_steps: "successively R (s # ss) \<Longrightarrow> R\<^sup>*\<^sup>* s (last (s # ss))"
  by (induction ss arbitrary: s) (auto intro: converse_rtranclp_into_rtranclp)

text \<open>A server that refuses at once hides one that would have answered.\<close>

theorem fast_error_wins: "concurrentExchange [bad_outcome, ok_outcome] (None, 0, Some (LibErr ''connection refused''))"
proof -
  let ?outs = "[bad_outcome, ok_outcome]"
  let ?s0 = "race_start (length ?outs)"
  let ?s1 = "send (?outs ! 0) (?s0\<lparr>running := remove1 0 (running ?s0)\<rparr>)"
  have 1: "race_step ?outs ?s0 ?s1" by (rule race_step.sends) (simp add: race_start_def)
  have 2: "race_step ?outs ?s1 (?s1\<lparr>errorChan := [], returned := Some (None, 0, Some (LibErr ''connection refused''))\<rparr>)"
    by (rule race_step.take_error) (simp_all add: race_start_def send_def quickQuery_def bad_outcome_def)
  from run_steps [of "race_step ?outs" ?s0 "[?s1, ?s1\<lparr>errorChan := [], returned := Some (None, 0, Some (LibErr ''connection refused''))\<rparr>]"] 1 2
  show ?thesis unfolding concurrentExchange_def by (intro exI conjI) auto
qed

text \<open>The states of the race with one server, up to the end of its goroutines.\<close>

definition lone :: "outcome \<Rightarrow> race list" where
  "lone out = (let s1 = send out ((race_start 1)\<lparr>running := []\<rparr>)
     in [s1, s1\<lparr>results_closed := True\<rparr>, s1\<lparr>results_closed := True, errors_closed := True\<rparr>])"

lemma lone_run: "successively (race_step [out]) (race_start 1 # lone out)"
proof -
  let ?s1 = "send out ((race_start 1)\<lparr>running := []\<rparr>)"
  have 1: "race_step [out] (race_start 1) ?s1"
    using race_step.sends [of 0 "race_start 1" "[out]"] by (simp add: race_start_def)
  have 2: "race_step [out] ?s1 (?s1\<lparr>results_closed := True\<rparr>)"
    by (rule race_step.close_results) (simp_all add: race_start_def)
  have 3: "race_step [out] (?s1\<lparr>results_closed := True\<rparr>) (?s1\<lparr>results_closed := True, errors_closed := True\<rparr>)"
    using race_step.close_errors [of "?s1\<lparr>results_closed := True\<rparr>" "[out]"] by (simp add: race_start_def)
  from 1 2 3 show ?thesis by (simp add: lone_def Let_def)
qed

lemma lone_empty:
  assumes "race_step [out] (last (lone out)) s'" "returned s' = Some r"
  shows "concurrentExchange [out] r"
proof -
  have "last (race_start 1 # lone out) = last (lone out)" by (simp add: lone_def Let_def)
  with run_steps [OF lone_run [of out]] assms show ?thesis
    unfolding concurrentExchange_def by (auto intro: rtranclp.rtrancl_into_rtrancl)
qed

text \<open>
  When all goroutines are done before the caller looks, the closed channels compete with what is in
  the other one: an answer is dropped, and a failure is reported as neither an answer nor an error.
\<close>

theorem closed_channel_wins:
  "concurrentExchange [ok_outcome] (None, 0, None)" "concurrentExchange [bad_outcome] (None, 0, None)"
proof -
  let ?a = "last (lone ok_outcome)" and ?b = "last (lone bad_outcome)"
  have "race_step [ok_outcome] ?a (?a\<lparr>returned := Some (None, 0, None)\<rparr>)"
    by (rule race_step.take_no_error) (simp_all add: lone_def Let_def race_start_def send_def quickQuery_def ok_outcome_def)
  then show "concurrentExchange [ok_outcome] (None, 0, None)" by (rule lone_empty) simp
  have "race_step [bad_outcome] ?b (?b\<lparr>returned := Some (None, 0, None)\<rparr>)"
    by (rule race_step.take_no_result) (simp_all add: lone_def Let_def race_start_def send_def quickQuery_def bad_outcome_def)
  then show "concurrentExchange [bad_outcome] (None, 0, None)" by (rule lone_empty) simp
qed

section \<open>The properties at a concrete race\<close>

lemma ok_race: "concurrentExchange [ok_outcome] ok_outcome"
proof -
  let ?a = "last (lone ok_outcome)"
  have "race_step [ok_outcome] ?a (?a\<lparr>resultChan := [], returned := Some (Some new_Msg, 7, None)\<rparr>)"
    by (rule race_step.take_result) (simp_all add: lone_def Let_def race_start_def send_def quickQuery_def ok_outcome_def)
  then show ?thesis by (rule lone_empty) (simp add: ok_outcome_def)
qed

theorem fallback_sound_witness:
  "exchangeFast [''192.0.2.1''] [ok_outcome] ok_outcome \<and>
   ((\<exists>i < length [''192.0.2.1'']. [ok_outcome] ! i = exchangeWithFallback (\<lambda>_. bad_outcome) [''192.0.2.1''] ok_outcome \<and>
       fst ([ok_outcome] ! i) \<noteq> None) \<or>
     exchangeWithFallback (\<lambda>_. bad_outcome) [''192.0.2.1''] ok_outcome = bad_outcome)"
proof -
  have x: "exchangeFast [''192.0.2.1''] [ok_outcome] ok_outcome" using ok_race by (simp add: exchangeFast_def)
  from fallback_sound [OF x, of "\<lambda>_. bad_outcome"] x show ?thesis by simp
qed

theorem race_ends_witness:
  "(\<exists>s'. race_step [ok_outcome] (race_start 1) s' \<and> deadline s' = deadline (race_start 1)) \<and>
   (race_step [ok_outcome] ^^ 1) (race_start (length [ok_outcome])) (send ok_outcome ((race_start 1)\<lparr>running := []\<rparr>)) \<and>
   1 \<le> length [ok_outcome] + 4"
proof -
  have r: "returned (race_start 1) = None" by (simp add: race_start_def)
  have s: "(race_step [ok_outcome] ^^ 1) (race_start (length [ok_outcome])) (send ok_outcome ((race_start 1)\<lparr>running := []\<rparr>))"
    using lone_run [of ok_outcome] by (simp add: lone_def Let_def eq_OO)
  from race_ends [of "[ok_outcome]"] r s show ?thesis by blast
qed

section \<open>The choice of servers\<close>

text \<open>
  The list is called sorted but keeps the order it is given in: of two servers that are fast enough
  the first one is taken, not the faster one.
\<close>

theorem selectBestServers_not_sorted:
  "selectBestServers (\<lambda>s. Some (if s = ''a:53'' then 40000000 else 1000000)) [''a'', ''b''] 1 = Some [''a'']"
  by code_simp

lemma selectBestServers_spec:
  assumes "0 \<le> mx"
  shows "\<exists>best. selectBestServers probe servers mx = Some best \<and> length best \<le> nat mx \<and> subseq best servers \<and>
    (\<forall>s \<in> set best. \<exists>lat < 50000000. probe (s @ '':53'') = Some lat)"
proof -
  let ?fast = "filter (\<lambda>s. case measureLatency probe servers s of None \<Rightarrow> False | Some lat \<Rightarrow> lat < 50000000) servers"
  have "subseq (take (nat mx) ?fast) servers"
    by (rule subseq_order.order_trans [of _ ?fast]) (simp_all add: subseq_filter_left prefix_imp_subseq [OF take_is_prefix])
  moreover have "selectBestServers probe servers mx = Some (take (nat mx) ?fast)"
    using assms by (auto simp: selectBestServers_def Let_def)
  moreover have "\<exists>lat < 50000000. probe (s @ '':53'') = Some lat" if "s \<in> set (take (nat mx) ?fast)" for s
    using in_set_takeD [OF that] by (auto simp: measureLatency_def split: option.splits if_splits)
  ultimately show ?thesis by auto
qed

end
