(* ===== verification/Fast_Resolver.thy ===== *)
theory Fast_Resolver
  imports Zones Fast_Pool
begin

text \<open>
  The forwarding resolver of \<open>fast_resolver.go\<close>, which asks four public servers at once and takes
  the first good answer, and the handler of \<open>cmd/optimized_server_main.go\<close> on top of it. What comes
  out of the result channel and of the context, in which order, is given by the parameter of the
  definitions that stands for the network: the list of arrivals in answer to a message.
\<close>

section \<open>State and operations\<close>

record FastResolverStats =
  f_Hits :: u64
  f_Misses :: u64
  f_Prefetch :: u64
  f_Timeouts :: u64
  f_CacheSize :: u64

record ResolveResult =
  rr_Response :: "Msg option"
  rr_Server :: string
  rr_Duration :: int
  rr_Error :: "error option"

record 'w FastResolver =
  f_cache :: "'w CacheInterface option"
  prefetchCh :: "string list"
  f_stats :: FastResolverStats
  f_world :: 'w

definition NewFastResolver :: "'w CacheInterface option \<Rightarrow> 'w \<Rightarrow> 'w FastResolver" where
  "NewFastResolver c w = \<lparr>f_cache = c, prefetchCh = [],
     f_stats = \<lparr>f_Hits = 0, f_Misses = 0, f_Prefetch = 0, f_Timeouts = 0, f_CacheSize = 0\<rparr>, f_world = w\<rparr>"

text \<open>
  An arrival is a result in the channel or the end of the context. The network answers a message
  sent to a list of servers with arrivals.
\<close>

datatype arrival = Arrived ResolveResult | Done error

type_synonym 'w race_network = "'w \<Rightarrow> Msg \<Rightarrow> string list \<Rightarrow> 'w \<times> arrival list"

definition getNameservers :: "string \<Rightarrow> string list" where
  "getNameservers name = [''8.8.8.8:53'', ''8.8.4.4:53'', ''1.1.1.1:53'', ''1.0.0.1:53'']"

definition error_result :: "error \<Rightarrow> ResolveResult" where
  "error_result e = \<lparr>rr_Response = None, rr_Server = '''', rr_Duration = 0, rr_Error = Some e\<rparr>"

definition good_result :: "ResolveResult \<Rightarrow> bool" where
  "good_result r \<longleftrightarrow> rr_Error r = None \<and> (case rr_Response r of None \<Rightarrow> False | Some m \<Rightarrow> mRcode m = RcodeSuccess)"

text \<open>The loop that waits; without another arrival it would wait for ever.\<close>

fun wait_loop :: "nat \<Rightarrow> arrival list \<Rightarrow> ResolveResult option" where
  "wait_loop 0 _ = Some (error_result no_nameservers)"
| "wait_loop (Suc i) [] = None"
| "wait_loop (Suc i) (Arrived r # as) = (if good_result r then Some r else wait_loop i as)"
| "wait_loop (Suc i) (Done e # as) = Some (error_result e)"

text \<open>The message that \<open>exchangeWithFastTimeout\<close> sends.\<close>

definition fast_message :: "dnslib \<Rightarrow> Question \<Rightarrow> Msg" where
  "fast_message L q = (SetQuestion L new_Msg (qName q) (qQtype q))\<lparr>mRecursionDesired := True\<rparr>"

definition concurrentResolve :: "dnslib \<Rightarrow> 'w race_network \<Rightarrow> 'w FastResolver \<Rightarrow> Question \<Rightarrow> ('w FastResolver \<times> ResolveResult) option" where
  "concurrentResolve L N r q =
     (let servers = getNameservers (qName q)
      in if servers = [] then Some (r, error_result no_nameservers)
         else do {
           let (w, as) = N (f_world r) (fast_message L q) servers;
           res \<leftarrow> wait_loop (length servers) as;
           Some (r\<lparr>f_world := w\<rparr>, res)
         })"

definition popularTLDs :: "string list" where
  "popularTLDs = [''com.'', ''net.'', ''org.'', ''io.'']"

definition shouldPrefetch :: "string \<Rightarrow> bool" where
  "shouldPrefetch name = list_ex (\<lambda>tld. length name > length tld \<and> drop (length name - length tld) name = tld) popularTLDs"

text \<open>A channel for 1000 names; a name is dropped when it is full.\<close>

definition offer_prefetch :: "string \<Rightarrow> 'w FastResolver \<Rightarrow> 'w FastResolver" where
  "offer_prefetch name r = (if length (prefetchCh r) < 1000 then r\<lparr>prefetchCh := prefetchCh r @ [name]\<rparr> else r)"

text \<open>\<open>None\<close> is the panic of a call on a nil cache.\<close>

definition ExchangeWithOptimization ::
    "dnslib \<Rightarrow> 'w race_network \<Rightarrow> 'w FastResolver \<Rightarrow> Question \<Rightarrow> ('w FastResolver \<times> Msg option \<times> error option) option" where
  "ExchangeWithOptimization L N r q = do {
     c \<leftarrow> f_cache r;
     let (w, cached, _) = Cache_Get c (f_world r) '''' q;
     let r1 = r\<lparr>f_world := w\<rparr>;
     if cached \<noteq> None then Some (r1\<lparr>f_stats := (f_stats r1)\<lparr>f_Hits := f_Hits (f_stats r1) + 1\<rparr>\<rparr>, cached, None)
     else do {
       (r2, result) \<leftarrow> concurrentResolve L N (r1\<lparr>f_stats := (f_stats r1)\<lparr>f_Misses := f_Misses (f_stats r1) + 1\<rparr>\<rparr>) q;
       let r3 = (case rr_Response result of
           Some m \<Rightarrow> if rr_Error result = None
             then let r' = r2\<lparr>f_world := fst (Cache_Update c (f_world r2) '''' q m)\<rparr>
                  in if shouldPrefetch (qName q) then offer_prefetch (qName q) r' else r'
             else r2
         | None \<Rightarrow> r2);
       Some (r3, rr_Response result, rr_Error result)
     }
   }"

text \<open>One name taken from the channel by \<open>prefetchWorker\<close>.\<close>

definition address_question :: "string \<Rightarrow> Question" where
  "address_question name = \<lparr>qName = name, qQtype = TypeA, qQclass = 1\<rparr>"

definition prefetchWorker :: "dnslib \<Rightarrow> 'w race_network \<Rightarrow> 'w FastResolver \<Rightarrow> 'w FastResolver option" where
  "prefetchWorker L N r =
     (case prefetchCh r of [] \<Rightarrow> Some r
      | name # rest \<Rightarrow> do {
          (r1, _) \<leftarrow> ExchangeWithOptimization L N (r\<lparr>prefetchCh := rest\<rparr>) (address_question name);
          Some (r1\<lparr>f_stats := (f_stats r1)\<lparr>f_Prefetch := f_Prefetch (f_stats r1) + 1\<rparr>\<rparr>)
        })"

definition GetStats :: "'w FastResolver \<Rightarrow> FastResolverStats" where
  "GetStats r = f_stats r"

definition popularDomains :: "string list" where
  "popularDomains = [''google.com.'', ''facebook.com.'', ''youtube.com.'', ''twitter.com.'', ''instagram.com.'']"

fun warm_loop :: "dnslib \<Rightarrow> 'w race_network \<Rightarrow> 'w FastResolver \<Rightarrow> string list \<Rightarrow> 'w FastResolver option" where
  "warm_loop L N r [] = Some r"
| "warm_loop L N r (name # names) = do { (r1, _) \<leftarrow> ExchangeWithOptimization L N r (address_question name); warm_loop L N r1 names }"

definition warmPopularDomains :: "dnslib \<Rightarrow> 'w race_network \<Rightarrow> 'w FastResolver \<Rightarrow> 'w FastResolver option" where
  "warmPopularDomains L N r = warm_loop L N r popularDomains"

text \<open>The handler of the optimised server; the last component is what it writes, if anything.\<close>

definition handleDNSRequest :: "dnslib \<Rightarrow> 'w race_network \<Rightarrow> 'w FastResolver \<Rightarrow> Msg \<Rightarrow> ('w FastResolver \<times> Msg option) option" where
  "handleDNSRequest L N fr r =
     (case mQuestion r of [] \<Rightarrow> Some (fr, None)
      | question # _ \<Rightarrow> do {
          (fr1, response, err) \<leftarrow> ExchangeWithOptimization L N fr question;
          if err \<noteq> None then Some (fr1, Some (SetRcode L (SetReply L new_Msg r) r RcodeServerFailure))
          else if response = None then Some (fr1, Some (SetReply L new_Msg r))
          else Some (fr1, response)
        })"

section \<open>The first good answer\<close>

text \<open>The arrivals that the loop looks at: up to the deadline, and no more than there are servers.\<close>

definition in_time :: "nat \<Rightarrow> arrival list \<Rightarrow> ResolveResult list" where
  "in_time n as = map (\<lambda>a. case a of Arrived r \<Rightarrow> r) (takeWhile (\<lambda>a. case a of Arrived _ \<Rightarrow> True | Done _ \<Rightarrow> False) (take n as))"

text \<open>All servers report in the end, or the context ends before.\<close>

definition complete :: "nat \<Rightarrow> arrival list \<Rightarrow> bool" where
  "complete n as \<longleftrightarrow> n \<le> length as \<or> (\<exists>e. Done e \<in> set as)"

lemma in_time_simps [simp]:
  "in_time 0 as = []" "in_time n [] = []" "in_time (Suc n) (Arrived r # as) = r # in_time n as" "in_time (Suc n) (Done e # as) = []"
  by (simp_all add: in_time_def)

definition first_or_error :: "ResolveResult list \<Rightarrow> ResolveResult \<Rightarrow> bool" where
  "first_or_error rs res \<longleftrightarrow>
     (case List.find good_result rs of Some r \<Rightarrow> res = r | None \<Rightarrow> res = error_result (the (rr_Error res)))"

lemma first_or_error_Nil [simp]: "first_or_error [] (error_result e)"
  by (simp add: first_or_error_def error_result_def)

lemma first_or_error_Cons [simp]:
  "first_or_error (r # rs) res \<longleftrightarrow> (if good_result r then res = r else first_or_error rs res)"
  by (simp add: first_or_error_def)

lemma wait_loop_first: "complete n as \<Longrightarrow> \<exists>res. wait_loop n as = Some res \<and> first_or_error (in_time n as) res"
  by (induction n as rule: wait_loop.induct) (auto simp: complete_def)

lemma concurrentResolve_first:
  assumes "N (f_world r) (fast_message L q) (getNameservers (qName q)) = (w, as)" "complete 4 as"
  shows "\<exists>res. concurrentResolve L N r q = Some (r\<lparr>f_world := w\<rparr>, res) \<and> first_or_error (in_time 4 as) res"
proof -
  have "length (getNameservers (qName q)) = 4" "getNameservers (qName q) \<noteq> []" by (simp_all add: getNameservers_def)
  with wait_loop_first [OF assms(2)] assms(1) show ?thesis by (auto simp: concurrentResolve_def)
qed


text \<open>The channel never holds more names than it has room for.\<close>

lemma ExchangeWithOptimization_channel:
  assumes "ExchangeWithOptimization L N r q = Some (r', m, e)" "length (prefetchCh r) \<le> 1000"
  shows "length (prefetchCh r') \<le> 1000"
  using assms
  by (auto simp: ExchangeWithOptimization_def concurrentResolve_def offer_prefetch_def Let_def
      split: Option.bind_splits prod.splits if_splits option.splits)

section \<open>Where the optimised server falls short\<close>

text \<open>
  The program starts the resolver with the package's cache, which is nil unless the importing
  program sets it, or with none: either way the first question ends in a panic.
\<close>

theorem no_cache_panics:
  assumes "mQuestion r \<noteq> []"
  shows "handleDNSRequest L N (NewFastResolver None w) r = None"
  using assms by (cases "mQuestion r") (simp_all add: handleDNSRequest_def ExchangeWithOptimization_def NewFastResolver_def)

section \<open>The properties at a concrete server\<close>

definition empty_cache :: "nat CacheInterface" where
  "empty_cache = \<lparr>Cache_Get = (\<lambda>w z q. (w, None, None)), Cache_Update = (\<lambda>w z q m. (w, None))\<rparr>"

definition arrived :: "int \<Rightarrow> Msg \<Rightarrow> arrival" where
  "arrived rcode m = Arrived \<lparr>rr_Response = Some (m\<lparr>mId := 7, mRcode := rcode\<rparr>), rr_Server = ''8.8.8.8:53'', rr_Duration = 5, rr_Error = None\<rparr>"

text \<open>A refusal arrives first, then an answer, then the time is over.\<close>

definition ex_race :: "nat race_network" where
  "ex_race w m servers = (Suc w, [arrived 5 m, arrived 0 m, Done DeadlineExceeded])"

definition fast_query :: Msg where
  "fast_query = new_Msg\<lparr>mId := 99, mRecursionDesired := True, mQuestion := [\<lparr>qName = ''w.e.'', qQtype = TypeA, qQclass = 1\<rparr>]\<rparr>"

lemma ex_race_complete: "complete 4 [arrived 5 m, arrived 0 m, Done DeadlineExceeded]"
  by (auto simp: complete_def)


text \<open>The response carries the identifier of the server's own query, not the one of the client's.\<close>

theorem fast_wrong_id:
  "map_option (\<lambda>(fr', m). map_option mId m) (handleDNSRequest plain_lib ex_race (NewFastResolver (Some empty_cache) 0) fast_query) = Some (Some 7)"
  "mId fast_query = 99"
  by code_simp+

end
