(* ===== verification/Settings.thy ===== *)
theory Settings
  imports Zones
begin

text \<open>
  What is set once for the whole program: the packaged configurations of \<open>config_optimized.go\<close> and
  their choice in \<open>cmd/optimized_server_main.go\<close>, the check for IPv6 of \<open>ipv6.go\<close>, the traces of
  \<open>trace.go\<close>, and the names of
  record types and response codes of \<open>functions.go\<close>.
\<close>

section \<open>Configurations\<close>

definition ApplyOptimizedConfig :: "config \<Rightarrow> config" where
  "ApplyOptimizedConfig c = c\<lparr>MaxAllowedTTL := 60 * 60 * 6, MaxQueriesPerRequest := 50, DesireNumberOfNameserversPerZone := 5,
     LazyEnrichment := True, SuppressBogusResponseSections := True, RemoveAuthoritySectionForPositiveAnswers := True,
     RemoveAdditionalSectionForPositiveAnswers := True\<rparr>"

definition ApplyUltraFastConfig :: "config \<Rightarrow> config" where
  "ApplyUltraFastConfig c = c\<lparr>MaxAllowedTTL := 60 * 60 * 2, MaxQueriesPerRequest := 25, LazyEnrichment := True,
     DesireNumberOfNameserversPerZone := 3\<rparr>"

definition ApplyBalancedConfig :: "config \<Rightarrow> config" where
  "ApplyBalancedConfig c = c\<lparr>MaxQueriesPerRequest := 75, MaxAllowedTTL := 60 * 60 * 12, DesireNumberOfNameserversPerZone := 4\<rparr>"

definition select_config :: "string \<Rightarrow> config \<Rightarrow> config" where
  "select_config flag c =
     (if flag = ''optimized'' then ApplyOptimizedConfig c
      else if flag = ''ultrafast'' then ApplyUltraFastConfig c
      else if flag = ''balanced'' then ApplyBalancedConfig c
      else ApplyOptimizedConfig c)"

lemmas config_defs = ApplyOptimizedConfig_def ApplyUltraFastConfig_def ApplyBalancedConfig_def select_config_def

text \<open>Every choice of the command line lowers the limits of the defaults, and applying a choice twice changes nothing.\<close>

lemma selected_limits:
  "MaxQueriesPerRequest (select_config flag c) \<in> {25, 50, 75}"
  "MaxAllowedTTL (select_config flag c) < MaxAllowedTTL default_config"
  "SuppressBogusResponseSections c \<Longrightarrow> SuppressBogusResponseSections (select_config flag c)"
  "select_config flag (select_config flag c) = select_config flag c"
  by (simp_all add: config_defs default_config_def)

section \<open>IPv6\<close>

text \<open>
  \<open>check_started\<close> says that the check was handed to a goroutine, once; \<open>UpdateIPv6Availability\<close> is
  what runs there. The parameter is the error of the query to an address, if any.
\<close>

record ipv6_state =
  check_started :: bool
  ipv6Answered :: bool
  ipv6Available :: bool

definition IPv6Available :: "ipv6_state \<Rightarrow> ipv6_state \<times> bool" where
  "IPv6Available s =
     (if ipv6Answered s then (s, ipv6Available s)
      else if ipv6Available s then (s, True)
      else (s\<lparr>check_started := True\<rparr>, False))"

definition ipv6_addresses :: "string list" where
  "ipv6_addresses = [''2001:7fd::1'', ''2001:500:a8::e'', ''2001:503:ba3e::2:30'']"

fun ipv6_loop :: "(string \<Rightarrow> error option) \<Rightarrow> ipv6_state \<Rightarrow> string list \<Rightarrow> ipv6_state" where
  "ipv6_loop probe s [] = s"
| "ipv6_loop probe s (a # as) =
     (let err = probe (''['' @ a @ '']:53'');
          s1 = s\<lparr>ipv6Available := (err = None)\<rparr>
      in if err = None then s1 else ipv6_loop probe s1 as)"

definition UpdateIPv6Availability :: "(string \<Rightarrow> error option) \<Rightarrow> ipv6_state \<Rightarrow> ipv6_state" where
  "UpdateIPv6Availability probe s = (ipv6_loop probe s ipv6_addresses)\<lparr>ipv6Answered := True\<rparr>"

lemma ipv6_loop_available:
  "ipv6_loop probe s as = (if as = [] then s else s\<lparr>ipv6Available := list_ex (\<lambda>a. probe (''['' @ a @ '']:53'') = None) as\<rparr>)"
  by (induction as arbitrary: s) (auto simp: Let_def)

text \<open>After the check, IPv6 is available exactly if one of the three root servers answered.\<close>

lemma ipv6_checked:
  "IPv6Available (UpdateIPv6Availability probe s) =
     (UpdateIPv6Availability probe s, \<exists>a \<in> set ipv6_addresses. probe (''['' @ a @ '']:53'') = None)"
  by (simp add: IPv6Available_def UpdateIPv6Availability_def ipv6_loop_available list_ex_iff ipv6_addresses_def)

section \<open>Traces\<close>

text \<open>The identifier that a query has in log lines, as the library for them prints it, and the calls it has led to.\<close>

record Trace =
  Trace_Id :: string
  Trace_Start :: int
  Iterations :: u32

definition newTraceWithStart :: "string \<Rightarrow> int \<Rightarrow> Trace" where
  "newTraceWithStart uuid start = \<lparr>Trace_Id = uuid, Trace_Start = start, Iterations = 0\<rparr>"

definition NewTrace :: "string \<Rightarrow> int \<Rightarrow> Trace" where
  "NewTrace uuid now = newTraceWithStart uuid now"

definition Trace_ID :: "Trace \<Rightarrow> string" where
  "Trace_ID t = Trace_Id t"

definition ShortID :: "Trace \<Rightarrow> string option" where
  "ShortID t = slice_from (Trace_ID t) 29"

definition Iteration :: "Trace \<Rightarrow> u32" where
  "Iteration t = Iterations t"

text \<open>For an identifier of the usual 36 characters the short one is its last seven.\<close>

lemma ShortID_last: "length (Trace_Id t) = 36 \<Longrightarrow> \<exists>us vs. Trace_Id t = us @ vs \<and> length vs = 7 \<and> ShortID t = Some vs"
  by (intro exI [of _ "take 29 (Trace_Id t)"] exI [of _ "drop 29 (Trace_Id t)"]) (simp add: ShortID_def Trace_ID_def slice_from_def)

section \<open>Names of types and codes\<close>

definition dnsRecordTypes :: "(u16 \<times> string) list" where
  "dnsRecordTypes = [(1, ''A''), (2, ''NS''), (5, ''CNAME''), (6, ''SOA''), (12, ''PTR''), (15, ''MX''), (16, ''TXT''), (17, ''RP''),
     (18, ''AFSDB''), (24, ''SIG''), (25, ''KEY''), (28, ''AAAA''), (29, ''LOC''), (33, ''SRV''), (35, ''NAPTR''),
     (36, ''KX''), (37, ''CERT''), (39, ''DNAME''), (41, ''OPT''), (43, ''DS''), (44, ''SSHFP''), (45, ''IPSECKEY''),
     (46, ''RRSIG''), (47, ''NSEC''), (48, ''DNSKEY''), (49, ''DHCID''), (50, ''NSEC3''), (51, ''NSEC3PARAM''),
     (52, ''TLSA''), (53, ''SMIMEA''), (55, ''HIP''), (57, ''NINFO''), (59, ''CDS''), (60, ''CDNSKEY''),
     (61, ''OPENPGPKEY''), (62, ''CSYNC''), (63, ''ZONEMD''), (64, ''SVCB''), (65, ''HTTPS''), (99, ''SPF''),
     (100, ''UINFO''), (101, ''UID''), (102, ''GID''), (103, ''UNSPEC''), (108, ''EUI48''), (109, ''EUI64''),
     (249, ''TKEY''), (250, ''TSIG''), (251, ''IXFR''), (252, ''AXFR''), (255, ''ANY''), (256, ''URI''),
     (257, ''CAA''), (32768, ''TA''), (32769, ''DLV'')]"

definition TypeToString :: "u16 \<Rightarrow> string" where
  "TypeToString rrtype = (case map_of dnsRecordTypes rrtype of Some name \<Rightarrow> name | None \<Rightarrow> ''unknown'')"

definition dnsRCodes :: "(int \<times> string) list" where
  "dnsRCodes = [(0, ''NoError''), (1, ''FormErr''), (2, ''ServFail''), (3, ''NXDomain''), (4, ''NotImp''), (5, ''Refused''),
     (6, ''YXDomain''), (7, ''YXRRSet''), (8, ''NXRRSet''), (9, ''NotAuth''), (10, ''NotZone''), (16, ''BADSIG''),
     (17, ''BADKEY''), (18, ''BADTIME''), (19, ''BADMODE''), (20, ''BADNAME''), (21, ''BADALG''), (22, ''BADTRUNC''),
     (23, ''BADCOOKIE'')]"

definition RcodeToString :: "int \<Rightarrow> string" where
  "RcodeToString rcode = (case map_of dnsRCodes rcode of Some name \<Rightarrow> name | None \<Rightarrow> ''unknown'')"

text \<open>A name other than \<open>unknown\<close> identifies its type or code.\<close>

lemma table_inject:
  assumes d: "distinct (map snd tab)" "''unknown'' \<notin> set (map snd tab)"
    and same: "(case map_of tab x of Some n \<Rightarrow> n | None \<Rightarrow> ''unknown'') = n" "(case map_of tab y of Some n \<Rightarrow> n | None \<Rightarrow> ''unknown'') = n"
    and n: "n \<noteq> ''unknown''"
  shows "x = y"
proof -
  from same n have "map_of tab x = Some n" "map_of tab y = Some n" by (auto split: option.splits)
  then have "(x, n) \<in> set tab" "(y, n) \<in> set tab" by (auto dest: map_of_SomeD)
  with inj_onD [of snd "set tab" "(x, n)" "(y, n)"] d(1) show ?thesis by (simp add: distinct_map)
qed

lemma type_table: "distinct (map snd dnsRecordTypes)" "''unknown'' \<notin> set (map snd dnsRecordTypes)" "distinct (map fst dnsRecordTypes)"
  by code_simp+

lemma rcode_table: "distinct (map snd dnsRCodes)" "''unknown'' \<notin> set (map snd dnsRCodes)" "distinct (map fst dnsRCodes)"
  by code_simp+

lemma TypeToString_inject: "TypeToString x = TypeToString y \<Longrightarrow> TypeToString x \<noteq> ''unknown'' \<Longrightarrow> x = y"
  unfolding TypeToString_def by (rule table_inject [OF type_table(1,2)]) auto

lemma RcodeToString_inject: "RcodeToString x = RcodeToString y \<Longrightarrow> RcodeToString x \<noteq> ''unknown'' \<Longrightarrow> x = y"
  unfolding RcodeToString_def by (rule table_inject [OF rcode_table(1,2)]) auto

end
