(* ===== verification/Programs.thy ===== *)
theory Programs
  imports Root_Hints Fast_Resolver Settings
begin

text \<open>
  The two programs: what the \<open>main\<close> functions of \<open>cmd/main.go\<close> and \<open>cmd/optimized_server_main.go\<close> put
  together before they listen, and the events of the second one, taken one after the other. Parsing
  the command line, sockets, signals and log lines are left out.
\<close>

section \<open>The server\<close>

definition listen_address :: string where
  "listen_address = '':5355''"

text \<open>The server of \<open>main\<close> with its goroutines started, and the address that \<open>Start\<close> binds.\<close>

definition main_program :: "'w env \<Rightarrow> 'w \<Rightarrow> ('w workers \<times> string) option" where
  "main_program E w = do {
     s \<leftarrow> NewServerWithConfig E rootZone None main_config w;
     Some (workers_start s, listen_address)
   }"

lemma main_program_starts: "\<exists>st. main_program E w = Some (st, '':5355'') \<and> workers_reachable E rootZone main_config st"
proof -
  have "new_server E rootZone None sz v w \<noteq> None" for sz v
    using NewResolver_starts [of E "Some (new_cache sz)" w] by (auto simp: new_server_def)
  then obtain s where s: "NewServerWithConfig E rootZone None main_config w = Some s" by (force simp: NewServerWithConfig_def)
  from workers_reachable.start [OF s] s show ?thesis by (simp add: main_program_def listen_address_def)
qed

section \<open>The optimised server\<close>

record flags =
  fl_port :: string
  fl_config :: string
  fl_cache :: bool
  fl_warmup :: bool

definition default_flags :: flags where
  "default_flags = \<lparr>fl_port = ''53'', fl_config = ''optimized'', fl_cache = True, fl_warmup = True\<rparr>"

record 'w optimized =
  op_settings :: config
  op_resolver :: "'w FastResolver"
  op_warming :: bool
  op_address :: string

text \<open>\<open>pkg\<close> is the variable \<open>Cache\<close> of the package, and \<open>c\<close> the settings before \<open>main\<close>.\<close>

definition optimized_main :: "'w CacheInterface option \<Rightarrow> config \<Rightarrow> flags \<Rightarrow> 'w \<Rightarrow> 'w optimized" where
  "optimized_main pkg c fl w = \<lparr>op_settings = select_config (fl_config fl) c,
     op_resolver = NewFastResolver (if fl_cache fl then pkg else None) w,
     op_warming = (fl_warmup fl \<and> fl_cache fl), op_address = '':'' @ fl_port fl\<rparr>"

text \<open>
  The events of the running program: a request, a tick of the cache warming, where it was started,
  and a name that the prefetch goroutine takes from its channel. \<open>None\<close> is a panic.
\<close>

datatype optimized_event = Request Msg | Warm | Prefetch

fun optimized_step :: "dnslib \<Rightarrow> 'w race_network \<Rightarrow> 'w optimized \<Rightarrow> optimized_event \<Rightarrow> 'w optimized option" where
  "optimized_step L N p (Request r) = map_option (\<lambda>(fr, m). p\<lparr>op_resolver := fr\<rparr>) (handleDNSRequest L N (op_resolver p) r)"
| "optimized_step L N p Warm =
     (if op_warming p then map_option (\<lambda>fr. p\<lparr>op_resolver := fr\<rparr>) (warmPopularDomains L N (op_resolver p)) else Some p)"
| "optimized_step L N p Prefetch = map_option (\<lambda>fr. p\<lparr>op_resolver := fr\<rparr>) (prefetchWorker L N (op_resolver p))"

fun optimized_run :: "dnslib \<Rightarrow> 'w race_network \<Rightarrow> 'w optimized \<Rightarrow> optimized_event list \<Rightarrow> 'w optimized option" where
  "optimized_run L N p [] = Some p"
| "optimized_run L N p (e # es) = do { p' \<leftarrow> optimized_step L N p e; optimized_run L N p' es }"

text \<open>
  As it is built, with the variable \<open>Cache\<close> left nil, the program stops at the first question whatever
  the command line; and with the defaults at the first tick of the cache warming without any client.
\<close>

theorem optimized_program_panics:
  "mQuestion r \<noteq> [] \<Longrightarrow> optimized_step L N (optimized_main None c fl w) (Request r) = None"
  "optimized_step L N (optimized_main None c default_flags w) Warm = None"
  by (cases "mQuestion r")
    (simp_all add: optimized_main_def handleDNSRequest_def ExchangeWithOptimization_def NewFastResolver_def default_flags_def
      warmPopularDomains_def popularDomains_def)

text \<open>With a cache, and where all servers report or the context ends, no event stops the program.\<close>

definition sound_resolver :: "'w FastResolver \<Rightarrow> bool" where
  "sound_resolver r \<longleftrightarrow> f_cache r \<noteq> None \<and> length (prefetchCh r) \<le> 1000"

definition reports :: "'w race_network \<Rightarrow> bool" where
  "reports N \<longleftrightarrow> (\<forall>w m servers. complete (length servers) (snd (N w m servers)))"

lemma ExchangeWithOptimization_total:
  assumes "reports N" "sound_resolver r"
  shows "\<exists>r' m e. ExchangeWithOptimization L N r q = Some (r', m, e) \<and> sound_resolver r'"
proof -
  from assms(2) obtain c where c: "f_cache r = Some c" by (auto simp: sound_resolver_def)
  have resolved: "\<exists>w res. concurrentResolve L N s q = Some (s\<lparr>f_world := w\<rparr>, res)" for s
  proof -
    obtain w as where N: "N (f_world s) (fast_message L q) (getNameservers (qName q)) = (w, as)" by fastforce
    with assms(1) have "complete (length (getNameservers (qName q))) as" unfolding reports_def by (metis snd_conv)
    then have "complete 4 as" by (simp add: getNameservers_def numeral_eq_Suc)
    from concurrentResolve_first [where N = N and L = L and r = s, OF N this] show ?thesis by blast
  qed
  obtain w cached e where g: "Cache_Get c (f_world r) '''' q = (w, cached, e)" by (metis surj_pair)
  let ?s = "r\<lparr>f_world := w, f_stats := (f_stats r)\<lparr>f_Misses := f_Misses (f_stats r) + 1\<rparr>\<rparr>"
  from resolved [of ?s] obtain w' res where res: "concurrentResolve L N ?s q = Some (?s\<lparr>f_world := w'\<rparr>, res)" by blast
  have "\<exists>r' m e. ExchangeWithOptimization L N r q = Some (r', m, e) \<and> f_cache r' \<noteq> None"
    using c g res by (auto simp: ExchangeWithOptimization_def Let_def offer_prefetch_def split: option.split)
  then obtain r' m e where x: "ExchangeWithOptimization L N r q = Some (r', m, e)" "f_cache r' \<noteq> None" by blast
  with ExchangeWithOptimization_channel [OF x(1)] assms(2) show ?thesis by (auto simp: sound_resolver_def)
qed

lemma warm_loop_total: "reports N \<Longrightarrow> sound_resolver r \<Longrightarrow> \<exists>r'. warm_loop L N r names = Some r' \<and> sound_resolver r'"
proof (induction names arbitrary: r)
  case (Cons name names)
  from ExchangeWithOptimization_total [OF Cons.prems] obtain r1 m e
    where "ExchangeWithOptimization L N r (address_question name) = Some (r1, m, e)" "sound_resolver r1" by blast
  with Cons.IH [OF Cons.prems(1)] show ?case by simp
qed simp

lemma optimized_step_total:
  assumes "reports N" "sound_resolver (op_resolver p)"
  shows "\<exists>p'. optimized_step L N p e = Some p' \<and> sound_resolver (op_resolver p')"
proof (cases e)
  case (Request r)
  show ?thesis
  proof (cases "mQuestion r")
    case (Cons q qs)
    from ExchangeWithOptimization_total [OF assms, of L q] Cons Request show ?thesis by (auto simp: handleDNSRequest_def)
  qed (use Request assms(2) in \<open>simp add: handleDNSRequest_def\<close>)
next
  case Warm
  with warm_loop_total [OF assms, of L popularDomains] assms(2) show ?thesis by (auto simp: warmPopularDomains_def)
next
  case Prefetch
  show ?thesis
  proof (cases "prefetchCh (op_resolver p)")
    case (Cons name rest)
    then have "sound_resolver ((op_resolver p)\<lparr>prefetchCh := rest\<rparr>)" using assms(2) by (simp add: sound_resolver_def)
    from ExchangeWithOptimization_total [OF assms(1) this, of L "address_question name"] Cons Prefetch show ?thesis
      by (auto simp: prefetchWorker_def sound_resolver_def)
  qed (use Prefetch assms(2) in \<open>simp add: prefetchWorker_def\<close>)
qed

theorem optimized_keeps_running:
  assumes "reports N" "pkg \<noteq> None" "fl_cache fl"
  shows "\<exists>p. optimized_run L N (optimized_main pkg c fl w) es = Some p \<and> length (prefetchCh (op_resolver p)) \<le> 1000"
proof -
  have run: "sound_resolver (op_resolver p) \<Longrightarrow> \<exists>p'. optimized_run L N p es = Some p' \<and> sound_resolver (op_resolver p')" for p
  proof (induction es arbitrary: p)
    case (Cons e es)
    from optimized_step_total [OF assms(1) Cons.prems, of L e] Cons.IH show ?case by fastforce
  qed simp
  have "sound_resolver (op_resolver (optimized_main pkg c fl w))"
    using assms(2,3) by (simp add: optimized_main_def NewFastResolver_def sound_resolver_def)
  from run [OF this] show ?thesis by (auto simp: sound_resolver_def)
qed

end
