(* ===== verification/Spec2Isabelle.thy ===== *)
theory Spec2Isabelle
  imports Auth_Queue Programs
begin

text \<open>
  A model of the recursive, validating DNS resolver in Go under \<open>src/\<close>, and its properties.

  \<^bold>\<open>The program.\<close> A \<^emph>\<open>server\<close> (\<open>server.go\<close>, started by \<open>cmd/main.go\<close>) answers clients from a sharded
  LRU \<^emph>\<open>cache\<close> or from its \<^emph>\<open>resolver\<close>; a prefetch manager with a resolver of its own shares the cache. The
  resolver (\<open>resolver.go\<close>, \<open>resolver_exchange.go\<close>) walks down the labels of a name
  (\<open>domain.go\<close>), asks the \<^emph>\<open>zone\<close> it has reached (\<open>zone.go\<close>, \<open>zones.go\<close>) through that zone's
  \<^emph>\<open>pool\<close> of nameservers (\<open>pool.go\<close>, \<open>pool_exchange.go\<close>, \<open>nameserver.go\<close>), makes new zones out of delegations
  (\<open>zone_factory.go\<close>), follows aliases (\<open>cname.go\<close>) and calls itself for both. With the DO bit it feeds
  every response to an \<^emph>\<open>authenticator\<close> (\<open>auth.go\<close>, package \<open>dnssec\<close>): a response is verified with the
  DS records that the one before it authenticated, and denials with NSEC and NSEC3 proofs (package
  \<open>dnssec/doe\<close>). Beside it there is a second server (\<open>cmd/optimized_server_main.go\<close>) on a forwarding
  resolver (\<open>fast_resolver.go\<close>), and a racing pool (\<open>fast_pool.go\<close>).

  \<^bold>\<open>The theories\<close>, in the order they build on each other; definitions have the names of the Go
  functions and types, with a prefix where a name is taken.

  \<^item> \<open>Prelude\<close>: machine words, slices, indexing, errors. A panic of the program is \<open>None\<close>, a Go error a
    value of \<open>error\<close>. \<open>Dns\<close>: messages and records, and the record \<open>dnslib\<close> of the functions of the
    \<open>miekg/dns\<close> package that the program calls; what is assumed of them are the named laws
    \<open>canonical_laws\<close>, \<open>label_laws\<close>, \<open>name_laws\<close>, \<open>root_laws\<close>, \<open>dedup_laws\<close>. \<open>Plain_Lib\<close>: a concrete
    instance, for examples and to show that the laws can hold. \<open>Records\<close>: \<open>functions.go\<close> of both packages.
  \<^item> \<open>AuthResult\<close> (\<open>dnssec/const.go\<close>): the lattice of results, \<open>Combine\<close> as a commutative merge.
  \<^item> \<open>Domain\<close>: the walker visits every suffix once, in order, without slicing out of range.
  \<^item> \<open>Doe\<close>: the order of names, NSEC and NSEC3 proofs; the closest encloser is the longest one,
    existing names are not denied.
  \<^item> \<open>Signatures\<close>, \<open>Verify\<close>, \<open>Authenticator\<close>: signatures of record sets, verification of a response, the
    chain of results. A Secure verdict is a chain of keys and signatures from the trust anchors, in
    whatever order the responses came in.
  \<^item> \<open>Cache_Key\<close>, \<open>Cache\<close>: keys identify questions; the linked list, the two maps and the heap of a shard
    refine a list of entries; what is served, how long, how much is kept; when storing does not end.
  \<^item> \<open>Pool\<close>: nameservers and pools; UDP then TCP, round robin, no panic.
  \<^item> \<open>Zones\<close>, \<open>Growth\<close>, \<open>Factory\<close>, \<open>Validation\<close>, \<open>Cname\<close>, \<open>Finalise\<close>, \<open>Resolver\<close>: the resolver over an explicit
    store of zones and pools (\<open>rstate\<close>). \<open>Growth\<close> has the frame rules of its runs; the recursion goes
    through the locale \<open>onward_exchanger\<close>, which the resolver instantiates with itself.
  \<^item> \<open>Trust\<close>, \<open>Cache_Use\<close>: the authenticator and the cache followed through the resolver.
  \<^item> \<open>Covered\<close>, \<open>Auth_Queue\<close> (\<open>auth.go\<close>): which responses a verdict is about; the goroutines of the
    validation as a step relation over the channel, the wait group and the flag. Every interleaving
    ends, without a misuse of the channel, and gives a verdict of the sequential program.
  \<^item> \<open>Server\<close>, \<open>Server_State\<close>, \<open>Server_Workers\<close>, \<open>Root_Hints\<close>: the server, what its calls keep, its fifty
    workers with the prefetches and tickers in every interleaving, and the root servers of \<open>root.go\<close>.
  \<^item> \<open>Fast_Pool\<close> (a step relation over goroutines and channels), \<open>Fast_Resolver\<close>, \<open>Settings\<close>
    (\<open>config_optimized.go\<close>, \<open>ipv6.go\<close>, \<open>trace.go\<close>, tables of \<open>functions.go\<close>). \<open>Programs\<close>: what the two
    \<open>main\<close> functions build, and when the optimised program keeps running.

  \<^bold>\<open>Interfaces\<close> are locales, each interpreted on the definitions of the component that provides it:
  \<open>three_way\<close> (comparisons), \<open>result_merge\<close>, \<open>response_verifier\<close>, \<open>answer_store\<close>, \<open>exchanger\<close> (pools and
  zones), \<open>zone_store\<close>, \<open>onward_exchanger\<close> and \<open>caching_exchanger\<close> (the resolver), \<open>cache_property\<close>,
  \<open>server_invariant\<close>.

  \<^bold>\<open>Choices.\<close> The network, the clock and the outer cache are functions of a world that is passed
  along (record \<open>env\<close>), so that every theorem holds for all answers at all times. Goroutines run
  one after the other where their caller waits for them or they only touch locked state; where
  the order is visible it is explicit: the order of responses in the authenticator, of alias
  answers, of arrivals in the forwarding resolver, and every interleaving in the racing pool, in the
  validation queue and among the workers of the server. The sequential definitions that the other
  theories use for the last two are proved to be one of the interleavings. Queries of one resolver
  are taken to exclude each other: each is one step of the server. TTLs,
  counters and record types are machine words; times are integers in nanoseconds; the counter of
  a request is a natural number, which is compared with its limit before it could wrap. The
  recursion of the resolver is unrolled to depth \<open>MaxQueriesPerRequest + 1\<close>; it is proved that no
  call nests deeper, so the unrolling is the program. The eviction loop of the cache may run for
  ever and is a partial function.

  \<^bold>\<open>Where the code falls short\<close>, theorems at concrete inputs show it; each component's theory has
  them in its last section.

  \<^bold>\<open>Not modelled\<close>: the cryptography, the wire format and the zone parser (in \<open>miekg/dns\<close>), logging,
  statistics that are only printed, sockets, the parsing of flags, signals, the demonstrations
  in \<open>cmd\<close> (they print timings), the text of error messages, data races, and the 25 to 600 ms timeouts as durations.
\<close>

section \<open>From the flag to the trust anchors\<close>



end
